(* ===== verification/LG_Prelude.thy ===== *)
theory LG_Prelude
  imports Main "HOL-Library.Word" "HOL-Library.Sublist" "HOL-Library.Code_Target_Nat"
begin

text \<open>
  Shared vocabulary of the LightGraph development: the machine integers of
  \<^verbatim>\<open>src/src/lib.rs\<close> (module \<open>types\<close>), the little-endian conversions of the Rust standard
  library, a reader over the remaining bytes of a file, the error values of
  \<^verbatim>\<open>std::io\<close>, and the (de)serialiser that stands for the \<^verbatim>\<open>bincode\<close> crate, which is a
  parameter of every definition that uses it.
\<close>

section \<open>Machine integers and identifiers\<close>

type_synonym u8 = "8 word"
type_synonym u32 = "32 word"
type_synonym u64 = "64 word"
type_synonym bytes = "u8 list"

type_synonym NodeId = u64
type_synonym EdgeId = u64
type_synonym LabelId = u32
type_synonym TypeId = u32
type_synonym TxId = u64

definition NULL_NODE :: NodeId where
  "NULL_NODE = 0xFFFFFFFFFFFFFFFF"

definition NULL_EDGE :: EdgeId where
  "NULL_EDGE = 0xFFFFFFFFFFFFFFFF"

definition MAX_TX_ID :: TxId where
  "MAX_TX_ID = 0xFFFFFFFFFFFFFFFF"

section \<open>Little-endian conversions\<close>

primrec le_bytes :: "nat \<Rightarrow> nat \<Rightarrow> bytes" where
  "le_bytes 0 x = []"
| "le_bytes (Suc n) x = of_nat (x mod 256) # le_bytes n (x div 256)"

primrec le_nat :: "bytes \<Rightarrow> nat" where
  "le_nat [] = 0"
| "le_nat (b # bs) = unat b + 256 * le_nat bs"

definition u32_to_le_bytes :: "u32 \<Rightarrow> bytes" where
  "u32_to_le_bytes w = le_bytes 4 (unat w)"

definition u32_from_le_bytes :: "bytes \<Rightarrow> u32" where
  "u32_from_le_bytes bs = of_nat (le_nat bs)"

definition u64_to_le_bytes :: "u64 \<Rightarrow> bytes" where
  "u64_to_le_bytes w = le_bytes 8 (unat w)"

definition u64_from_le_bytes :: "bytes \<Rightarrow> u64" where
  "u64_from_le_bytes bs = of_nat (le_nat bs)"

section \<open>Input and output: errors and reading\<close>

text \<open>
  \<open>read_exact n\<close> on the bytes that are left of a file: \<open>None\<close> is the error of kind
  \<open>UnexpectedEof\<close>, the only one a reader over a file that stays readable can meet.
\<close>

datatype io_error = UnexpectedEof | InvalidData string | NotFound | StorageFull

text \<open>What a fallible call ends in: a value, an error that \<open>?\<close> passes on, or a panic.\<close>

datatype 'a outcome = Ok 'a | Err io_error | Panicked

definition read_exact :: "nat \<Rightarrow> bytes \<Rightarrow> (bytes \<times> bytes) option" where
  "read_exact n bs = (if length bs < n then None else Some (take n bs, drop n bs))"

section \<open>The serialiser\<close>

text \<open>
  \<^verbatim>\<open>bincode::serialize\<close> and \<^verbatim>\<open>bincode::deserialize\<close> at one type. The code relies on one
  documented fact: what was serialised deserialises to the same value.
\<close>

record 'a codec =
  ser :: "'a \<Rightarrow> bytes option"
  de :: "bytes \<Rightarrow> 'a option"

definition codec_at :: "'a codec \<Rightarrow> 'a \<Rightarrow> bool" where
  "codec_at c x \<longleftrightarrow> (case ser c x of None \<Rightarrow> False | Some b \<Rightarrow> de c b = Some x)"

definition codec_ok :: "'a codec \<Rightarrow> bool" where
  "codec_ok c \<longleftrightarrow> (\<forall>x. codec_at c x)"

section \<open>Generic lemmas\<close>

lemma length_le_bytes [simp]: "length (le_bytes n x) = n"
  by (induction n arbitrary: x) auto

lemma le_nat_le_bytes [simp]: "le_nat (le_bytes n x) = x mod 256 ^ n"
proof (induction n arbitrary: x)
  case 0
  then show ?case by simp
next
  case (Suc n)
  have "unat (of_nat (x mod 256) :: u8) = x mod 256"
    by (simp add: unat_of_nat)
  moreover have "x mod (256 * 256 ^ n) = 256 * (x div 256 mod 256 ^ n) + x mod 256"
    by (rule mod_mult2_eq)
  ultimately show ?case by (simp add: Suc.IH)
qed

lemma le_nat_less: "le_nat bs < 256 ^ length bs"
proof (induction bs)
  case Nil
  then show ?case by simp
next
  case (Cons b bs)
  have "unat b < 256" using unsigned_less [of b] by simp
  with Cons show ?case by simp
qed

lemma read_exact_append [simp]:
  "length xs = n \<Longrightarrow> read_exact n (xs @ ys) = Some (xs, ys)"
  by (simp add: read_exact_def)

lemma read_exact_short [simp]: "length bs < n \<Longrightarrow> read_exact n bs = None"
  by (simp add: read_exact_def)

lemma read_exact_SomeD:
  assumes "read_exact n bs = Some (xs, ys)"
  shows "bs = xs @ ys" and "length xs = n"
  using assms by (auto simp: read_exact_def split: if_splits)

lemma codec_okD: "codec_ok c \<Longrightarrow> \<exists>b. ser c x = Some b \<and> de c b = Some x"
  by (auto simp: codec_ok_def codec_at_def split: option.splits dest: spec [of _ x])

subsection \<open>Fixed-width codecs\<close>

text \<open>
  The interface of \<open>to_le_bytes\<close>/\<open>from_le_bytes\<close>: a fixed width and a round trip. A
  field written with it is read back by \<open>read_exact\<close> of the width, whatever follows.
\<close>

locale fixed_width =
  fixes enc :: "'a \<Rightarrow> bytes"
    and dec :: "bytes \<Rightarrow> 'a"
    and width :: nat
  assumes length_enc: "length (enc x) = width"
    and dec_enc: "dec (enc x) = x"
begin

lemma read_enc: "read_exact width (enc x @ rest) = Some (enc x, rest)"
  by (simp add: length_enc)

lemma enc_inject: "enc x = enc y \<longleftrightarrow> x = y"
  using dec_enc by metis

lemma enc_not_Nil: "0 < width \<Longrightarrow> enc x \<noteq> []"
  using length_enc [of x] by auto

end

interpretation le32: fixed_width u32_to_le_bytes u32_from_le_bytes 4
proof
  fix w :: u32
  show "length (u32_to_le_bytes w) = 4"
    by (simp add: u32_to_le_bytes_def)
  have "unat w < 256 ^ 4" using unsigned_less [of w] by simp
  then show "u32_from_le_bytes (u32_to_le_bytes w) = w"
    by (simp add: u32_to_le_bytes_def u32_from_le_bytes_def)
qed

interpretation le64: fixed_width u64_to_le_bytes u64_from_le_bytes 8
proof
  fix w :: u64
  show "length (u64_to_le_bytes w) = 8"
    by (simp add: u64_to_le_bytes_def)
  have "unat w < 256 ^ 8" using unsigned_less [of w] by simp
  then show "u64_from_le_bytes (u64_to_le_bytes w) = w"
    by (simp add: u64_to_le_bytes_def u64_from_le_bytes_def)
qed

lemmas le_simps [simp] =
  le32.length_enc le32.dec_enc le64.length_enc le64.dec_enc

lemma unat_of_nat_u32: "n < 2 ^ 32 \<Longrightarrow> unat (of_nat n :: u32) = n"
  by (simp add: unat_of_nat)

text \<open>A strict prefix of a record that is longer than the record's head cuts its tail.\<close>

lemma strict_prefix_appendE:
  assumes "strict_prefix q (xs @ ys)" and "length xs \<le> length q"
  obtains b where "q = xs @ b" and "strict_prefix b ys"
proof -
  from assms have "prefix xs q"
    by (intro prefix_length_prefix [of xs "xs @ ys" q]) (auto simp: strict_prefix_def)
  then obtain b where "q = xs @ b" by (auto simp: prefix_def)
  with assms that show thesis by (auto simp: strict_prefix_def)
qed

end
