(* ===== verification/Framing.thy ===== *)
theory Framing
  imports LG_Prelude
begin

text \<open>
  The interface of the three append-only logs of the repository: \<^verbatim>\<open>wal_thread.rs\<close>
  (\<open>replay_wal\<close>), \<^verbatim>\<open>store_log.rs\<close> (\<open>replay_log\<close>) and \<^verbatim>\<open>wal/mod.rs\<close>
  (\<open>WalReader::replay\<close>). Each writes records one after the other, each record behind a
  four-byte length, and replays them with a loop that reads a record, hands it on and goes
  back for the next. The locale fixes the encoder, the reader of one record and the loop;
  what it proves (replay of everything that was written, replay of a log cut inside its last
  record, replay of a corrupt tail) holds for each log by interpretation.
\<close>

text \<open>
  What reading one record gives: the end of the log, an error of the reader, or a record and
  the bytes behind it.
\<close>

datatype 'r next_result = Eof | Bad io_error | Got 'r bytes

text \<open>
  The result of a replay is the list of records handed to the callback and the error that
  stopped the loop, if one did: records before the error have been handed on by then.
\<close>

type_synonym 'r replay_result = "'r list \<times> io_error option"

locale record_log =
  fixes encode :: "'r \<Rightarrow> bytes"
    and next_record :: "bytes \<Rightarrow> 'r next_result"
    and replay :: "bytes \<Rightarrow> 'r replay_result"
    and deliver :: "'r \<Rightarrow> bool"
    and fits :: "'r \<Rightarrow> bool"
  assumes next_encode: "fits r \<Longrightarrow> next_record (encode r @ rest) = Got r rest"
    and next_short: "length p < 4 \<Longrightarrow> next_record p = Eof"
    and next_torn: "fits r \<Longrightarrow> strict_prefix p (encode r) \<Longrightarrow> 4 \<le> length p \<Longrightarrow>
      next_record p = Bad UnexpectedEof"
    and replay_unfold: "replay bs =
      (case next_record bs of
        Eof \<Rightarrow> ([], None)
      | Bad e \<Rightarrow> ([], Some e)
      | Got r rest \<Rightarrow>
          (if deliver r then r # fst (replay rest) else fst (replay rest), snd (replay rest)))"
begin

abbreviation frames :: "'r list \<Rightarrow> bytes" where
  "frames rs \<equiv> concat (map encode rs)"

lemma replay_frames_append:
  assumes "\<forall>r\<in>set rs. fits r"
  shows "replay (frames rs @ rest) = (filter deliver rs @ fst (replay rest), snd (replay rest))"
  using assms
proof (induction rs)
  case Nil
  then show ?case by simp
next
  case (Cons r rs)
  then show ?case
    by (subst replay_unfold) (simp add: next_encode)
qed

lemma replay_short: "length p < 4 \<Longrightarrow> replay p = ([], None)"
  by (subst replay_unfold) (simp add: next_short)

lemma replay_frames:
  assumes "\<forall>r\<in>set rs. fits r"
  shows "replay (frames rs) = (filter deliver rs, None)"
  using replay_frames_append [OF assms, of "[]"] by (simp add: replay_short)

lemma replay_torn:
  assumes "\<forall>r\<in>set rs. fits r" and "fits r" and "strict_prefix p (encode r)"
  shows "replay (frames rs @ p) =
    (filter deliver rs, if length p < 4 then None else Some UnexpectedEof)"
proof (cases "length p < 4")
  case True
  then show ?thesis
    using replay_frames_append [OF assms(1), of p] by (simp add: replay_short)
next
  case False
  then have "next_record p = Bad UnexpectedEof"
    using next_torn [OF assms(2,3)] by simp
  then have "replay p = ([], Some UnexpectedEof)"
    by (subst replay_unfold) simp
  with False show ?thesis
    using replay_frames_append [OF assms(1), of p] by simp
qed

text \<open>
  Every prefix of a log is whole records followed by a strict prefix of the next one, so the
  replay of any prefix delivers an initial run of the records that were written, in order.
\<close>

lemma prefix_frames_cases:
  assumes "prefix p (frames rs)"
  obtains (whole) "p = frames rs"
  | (torn) k q where "k < length rs" "p = frames (take k rs) @ q" "strict_prefix q (encode (rs ! k))"
  using assms
proof (induction rs arbitrary: p thesis)
  case Nil
  then show ?case by simp
next
  case (Cons r rs)
  show ?case
  proof (cases "strict_prefix p (encode r)")
    case True
    with Cons.prems(2) [of 0 p] show ?thesis by simp
  next
    case False
    with Cons.prems(3) obtain p' where p: "p = encode r @ p'" and p': "prefix p' (frames rs)"
      by (auto simp: prefix_append strict_prefix_def)
    show ?thesis
    proof (rule Cons.IH [OF _ _ p'])
      assume "p' = frames rs"
      with p Cons.prems(1) show thesis by simp
    next
      fix k q
      assume "k < length rs" "p' = frames (take k rs) @ q" "strict_prefix q (encode (rs ! k))"
      with p Cons.prems(2) [of "Suc k" q] show thesis by simp
    qed
  qed
qed

lemma replay_prefix:
  assumes "\<forall>r\<in>set rs. fits r" and "prefix p (frames rs)"
  shows "\<exists>k e. k \<le> length rs \<and> replay p = (filter deliver (take k rs), e) \<and>
    (e = None \<or> e = Some UnexpectedEof)"
  using assms(2)
proof (cases rule: prefix_frames_cases)
  case whole
  then show ?thesis
    using replay_frames [OF assms(1)] by (intro exI [of _ "length rs"]) auto
next
  case (torn k q)
  have "\<forall>r\<in>set (take k rs). fits r"
    using assms(1) by (auto dest: in_set_takeD)
  moreover have "fits (rs ! k)"
    using assms(1) torn(1) by simp
  ultimately show ?thesis
    using replay_torn [OF _ _ torn(3)] torn(1,2) by (intro exI [of _ k]) auto
qed

text \<open>Records whose bytes are all there are handed on, whatever follows them.\<close>

lemma replay_keeps:
  assumes "\<forall>r\<in>set rs. fits r" and "prefix (frames rs) q"
  shows "prefix (filter deliver rs) (fst (replay q))"
  using assms replay_frames_append by (auto elim!: prefixE)

end

end
