(* ===== verification/Disk.thy ===== *)
theory Disk
  imports LG_Prelude
begin

text \<open>
  What the repository uses of \<^verbatim>\<open>std::fs::File\<close> opened for appending and of
  \<^verbatim>\<open>std::io::BufWriter\<close>: the page cache, the part of it that \<open>fsync\<close> has made durable,
  and a device that may run out of space. A write on a full device stores what still fits
  and reports an error; \<open>sync_all\<close> may be refused by the device.
\<close>

section \<open>Files\<close>

record ofile =
  f_data :: bytes
  f_synced :: nat
  f_space :: "nat option"
  f_sync_ok :: bool

definition file_of :: "bytes \<Rightarrow> ofile" where
  "file_of bs = \<lparr>f_data = bs, f_synced = length bs, f_space = None, f_sync_ok = True\<rparr>"

definition durable :: "ofile \<Rightarrow> bytes" where
  "durable f = take (f_synced f) (f_data f)"

definition file_write_all :: "bytes \<Rightarrow> ofile \<Rightarrow> bool \<times> ofile" where
  "file_write_all bs f =
     (case f_space f of
       None \<Rightarrow> (True, f\<lparr>f_data := f_data f @ bs\<rparr>)
     | Some n \<Rightarrow>
         if length bs \<le> n
         then (True, f\<lparr>f_data := f_data f @ bs, f_space := Some (n - length bs)\<rparr>)
         else (False, f\<lparr>f_data := f_data f @ take n bs, f_space := Some 0\<rparr>))"

definition file_sync_all :: "ofile \<Rightarrow> bool \<times> ofile" where
  "file_sync_all f =
     (if f_sync_ok f then (True, f\<lparr>f_synced := length (f_data f)\<rparr>) else (False, f))"

section \<open>Buffered writers\<close>

record bufw =
  bw_cap :: nat
  bw_buf :: bytes
  bw_file :: ofile

definition bw_new :: "nat \<Rightarrow> ofile \<Rightarrow> bufw" where
  "bw_new cap f = \<lparr>bw_cap = cap, bw_buf = [], bw_file = f\<rparr>"

text \<open>Writing out the internal buffer drops from it what the device took.\<close>

definition bw_flush_buf :: "bufw \<Rightarrow> bool \<times> bufw" where
  "bw_flush_buf w =
     (let (ok, f) = file_write_all (bw_buf w) (bw_file w);
          taken = length (f_data f) - length (f_data (bw_file w))
      in (ok, w\<lparr>bw_buf := drop taken (bw_buf w), bw_file := f\<rparr>))"

definition bw_write_all :: "bytes \<Rightarrow> bufw \<Rightarrow> bool \<times> bufw" where
  "bw_write_all bs w =
     (if length bs < bw_cap w - length (bw_buf w)
      then (True, w\<lparr>bw_buf := bw_buf w @ bs\<rparr>)
      else
        let (ok, w1) =
          (if length bs > bw_cap w - length (bw_buf w) then bw_flush_buf w else (True, w))
        in if \<not> ok then (False, w1)
           else if length bs \<ge> bw_cap w1
           then (let (ok2, f) = file_write_all bs (bw_file w1) in (ok2, w1\<lparr>bw_file := f\<rparr>))
           else (True, w1\<lparr>bw_buf := bw_buf w1 @ bs\<rparr>))"

definition bw_flush :: "bufw \<Rightarrow> bool \<times> bufw" where
  "bw_flush w = bw_flush_buf w"

definition bw_sync_all :: "bufw \<Rightarrow> bool \<times> bufw" where
  "bw_sync_all w = (let (ok, f) = file_sync_all (bw_file w) in (ok, w\<lparr>bw_file := f\<rparr>))"

section \<open>Lemmas\<close>

text \<open>A crash keeps at least the durable part of what a file holds.\<close>

lemma durable_prefix: "prefix (durable f) (f_data f @ xs)"
  by (simp add: durable_def take_is_prefix)

text \<open>A healthy device: it never runs out of space and never refuses a sync.\<close>

definition healthy :: "ofile \<Rightarrow> bool" where
  "healthy f \<longleftrightarrow> f_space f = None \<and> f_sync_ok f"

lemma healthy_file_of [simp]: "healthy (file_of bs)"
  by (simp add: healthy_def file_of_def)

lemma file_of_simps [simp]:
  "f_data (file_of bs) = bs" "f_synced (file_of bs) = length bs" "durable (file_of bs) = bs"
  by (simp_all add: file_of_def durable_def)

lemma file_write_all_healthy:
  "healthy f \<Longrightarrow> file_write_all bs f = (True, f\<lparr>f_data := f_data f @ bs\<rparr>)"
  by (simp add: file_write_all_def healthy_def)

lemma bw_flush_buf_healthy:
  "healthy (bw_file w) \<Longrightarrow>
    bw_flush_buf w = (True, w\<lparr>bw_buf := [], bw_file := (bw_file w)\<lparr>f_data := f_data (bw_file w) @ bw_buf w\<rparr>\<rparr>)"
  by (simp add: bw_flush_buf_def file_write_all_healthy)

lemma bw_no_room_Nil:
  "bw_cap w \<le> bw_cap w - length (bw_buf w) \<Longrightarrow> length (bw_buf w) \<le> bw_cap w \<Longrightarrow> bw_buf w = []"
  by (cases "bw_buf w") auto

text \<open>
  On a healthy device \<open>write_all\<close> keeps the bytes in order, whichever of its paths it takes:
  page cache and internal buffer together grow by exactly the bytes written.
\<close>

lemma bw_write_all_healthy:
  assumes "healthy (bw_file w)" and "length (bw_buf w) \<le> bw_cap w"
    and "bw_write_all bs w = (ok, w')"
  shows "ok" and "healthy (bw_file w')" and "bw_cap w' = bw_cap w"
    and "f_synced (bw_file w') = f_synced (bw_file w)"
    and "f_data (bw_file w') @ bw_buf w' = f_data (bw_file w) @ bw_buf w @ bs"
    and "prefix (f_data (bw_file w)) (f_data (bw_file w'))"
  using assms
  by (auto simp: bw_write_all_def bw_flush_buf_healthy file_write_all_healthy healthy_def Let_def
      split: if_splits prod.splits dest: bw_no_room_Nil)

text \<open>On a full device nothing changes in the file, whatever is written.\<close>

lemma file_write_all_full:
  "f_space f = Some 0 \<Longrightarrow>
    f_data (snd (file_write_all bs f)) = f_data f \<and> f_space (snd (file_write_all bs f)) = Some 0"
  by (simp add: file_write_all_def)

lemma bw_flush_buf_full:
  "f_space (bw_file w) = Some 0 \<Longrightarrow>
    f_data (bw_file (snd (bw_flush_buf w))) = f_data (bw_file w) \<and>
    f_space (bw_file (snd (bw_flush_buf w))) = Some 0"
  using file_write_all_full [of "bw_file w" "bw_buf w"] by (simp add: bw_flush_buf_def split_beta)

lemma bw_write_all_full:
  assumes "f_space (bw_file w) = Some 0"
  shows "f_data (bw_file (snd (bw_write_all bs w))) = f_data (bw_file w) \<and>
    f_space (bw_file (snd (bw_write_all bs w))) = Some 0"
proof -
  have "f_data (snd (file_write_all bs (bw_file w1))) = f_data (bw_file w) \<and>
      f_space (snd (file_write_all bs (bw_file w1))) = Some 0"
    if "w1 = w \<or> w1 = snd (bw_flush_buf w)" for w1
    using that file_write_all_full bw_flush_buf_full [OF assms] assms by metis
  with assms bw_flush_buf_full [OF assms] show ?thesis
    by (simp add: bw_write_all_def split_beta Let_def)
qed

end
