(* ===== verification/Store_Log.thy ===== *)
theory Store_Log
  imports Framing Disk
begin

text \<open>
  \<^verbatim>\<open>src/src/storage/store_log.rs\<close>: the append-only log with group commit, whose operations run
  in the caller's thread and pass I/O errors on. An operation returns whether it succeeded and
  the state it leaves; \<open>now\<close> is the clock. Its record format is the second instance of
  \<open>record_log\<close>.
\<close>

section \<open>State and format\<close>

definition SL_MAGIC :: bytes where
  "SL_MAGIC = [0x4C, 0x47, 0x44, 0x42]"

definition OP_INSERT :: u8 where
  "OP_INSERT = 1"

definition OP_DELETE :: u8 where
  "OP_DELETE = 2"

definition OP_TOMBSTONE :: u8 where
  "OP_TOMBSTONE = 0"

definition DEFAULT_BATCH_BYTES :: u64 where
  "DEFAULT_BATCH_BYTES = 65536"

definition DEFAULT_BATCH_TIMEOUT_MS :: nat where
  "DEFAULT_BATCH_TIMEOUT_MS = 5"

record store_log =
  sl_writer :: bufw
  sl_buffer :: bytes
  sl_batch_size :: u64
  sl_batch_timeout :: nat
  sl_last_sync :: nat
  sl_bytes_written :: u64

definition encode_record :: "bytes \<Rightarrow> u8 \<Rightarrow> bytes \<Rightarrow> bytes" where
  "encode_record buf opcode payload =
     (let len = of_nat (length payload) :: u32;
          buf1 = buf @ u32_to_le_bytes len @ [opcode]
      in if payload \<noteq> [] then buf1 @ payload else buf1)"

section \<open>Opening\<close>

text \<open>
  \<open>open_with_opts\<close> on the file at \<open>path\<close> (no bytes: missing or empty), in nanoseconds of time.
  \<open>Vec::with_capacity\<close> panics above \<open>isize::MAX\<close>.
\<close>

definition sl_open_with_opts :: "nat \<Rightarrow> ofile \<Rightarrow> u64 \<Rightarrow> nat \<Rightarrow> store_log outcome" where
  "sl_open_with_opts now f batch_size batch_timeout =
     (let exists = f_data f \<noteq> [];
          w = bw_new 65536 f;
          (ok, w') =
            (if exists then (True, w)
             else let (ok1, w1) = bw_write_all SL_MAGIC w;
                      (ok2, w2) = (if ok1 then bw_flush w1 else (False, w1))
                  in if ok2 then bw_sync_all w2 else (False, w2))
      in if \<not> ok then Err StorageFull
         else if unat batch_size \<ge> 2 ^ 63 then Panicked
         else Ok \<lparr>sl_writer = w', sl_buffer = [], sl_batch_size = batch_size,
                  sl_batch_timeout = batch_timeout, sl_last_sync = now,
                  sl_bytes_written = (if exists then of_nat (length (f_data f)) else 4)\<rparr>)"

definition sl_open :: "nat \<Rightarrow> ofile \<Rightarrow> store_log outcome" where
  "sl_open now f = sl_open_with_opts now f DEFAULT_BATCH_BYTES (DEFAULT_BATCH_TIMEOUT_MS * 1000000)"

section \<open>Operations\<close>

definition sl_flush_buffer :: "store_log \<Rightarrow> bool \<times> store_log" where
  "sl_flush_buffer s =
     (if sl_buffer s \<noteq> []
      then let (ok1, w1) = bw_write_all (sl_buffer s) (sl_writer s);
               (ok2, w2) = (if ok1 then bw_flush w1 else (False, w1))
           in (ok2, s\<lparr>sl_writer := w2\<rparr>)
      else (True, s))"

definition sl_sync_now :: "store_log \<Rightarrow> bool \<times> store_log" where
  "sl_sync_now s =
     (let (ok1, s1) = sl_flush_buffer s
      in if \<not> ok1 then (False, s1)
         else let (ok2, w) = bw_sync_all (sl_writer s1) in (ok2, s1\<lparr>sl_writer := w\<rparr>))"

definition sl_maybe_sync :: "nat \<Rightarrow> store_log \<Rightarrow> bool \<times> store_log" where
  "sl_maybe_sync now s =
     (let buffer_full = length (sl_buffer s) \<ge> unat (sl_batch_size s);
          timed_out = now - sl_last_sync s \<ge> sl_batch_timeout s
      in if buffer_full \<or> timed_out
         then let (ok1, s1) = sl_flush_buffer s
              in if \<not> ok1 then (False, s1)
                 else let (ok2, w) = bw_sync_all (sl_writer s1);
                          s2 = s1\<lparr>sl_writer := w\<rparr>
                      in if \<not> ok2 then (False, s2)
                         else (True, s2\<lparr>sl_last_sync := now,
                                sl_bytes_written := sl_bytes_written s2 + of_nat (length (sl_buffer s2)),
                                sl_buffer := []\<rparr>)
         else (True, s))"

definition sl_append_insert :: "nat \<Rightarrow> bytes \<Rightarrow> store_log \<Rightarrow> bool \<times> store_log" where
  "sl_append_insert now payload s =
     sl_maybe_sync now (s\<lparr>sl_buffer := encode_record (sl_buffer s) OP_INSERT payload\<rparr>)"

definition sl_append_delete :: "nat \<Rightarrow> bytes \<Rightarrow> store_log \<Rightarrow> bool \<times> store_log" where
  "sl_append_delete now id_bytes s =
     sl_maybe_sync now (s\<lparr>sl_buffer := encode_record (sl_buffer s) OP_DELETE id_bytes\<rparr>)"

definition sl_flush :: "store_log \<Rightarrow> bool \<times> store_log" where
  "sl_flush s = sl_sync_now s"

definition sl_size_bytes :: "store_log \<Rightarrow> u64" where
  "sl_size_bytes s = sl_bytes_written s + of_nat (length (sl_buffer s))"

section \<open>Replay\<close>

type_synonym log_rec = "u8 \<times> bytes"

definition replay_log_next :: "bytes \<Rightarrow> log_rec next_result" where
  "replay_log_next bs =
     (case read_exact 4 bs of
       None \<Rightarrow> Eof
     | Some (len_buf, bs1) \<Rightarrow>
         let len = unat (u32_from_le_bytes len_buf) in
         (case read_exact 1 bs1 of
           None \<Rightarrow> Bad UnexpectedEof
         | Some (opcode, bs2) \<Rightarrow>
             if len > 0
             then (case read_exact len bs2 of
                     None \<Rightarrow> Bad UnexpectedEof
                   | Some (payload, bs3) \<Rightarrow> Got (hd opcode, payload) bs3)
             else Got (hd opcode, []) bs2))"

lemma replay_log_next_shrinks: "replay_log_next bs = Got r rest \<Longrightarrow> length rest < length bs"
  by (auto simp: replay_log_next_def read_exact_def Let_def split: if_splits option.splits)

text \<open>Records with opcode \<open>OP_TOMBSTONE\<close> are read and not handed on.\<close>

function replay_log_loop :: "bytes \<Rightarrow> log_rec replay_result" where
  "replay_log_loop bs =
     (case replay_log_next bs of
       Eof \<Rightarrow> ([], None)
     | Bad e \<Rightarrow> ([], Some e)
     | Got r rest \<Rightarrow>
         (if fst r \<noteq> OP_TOMBSTONE then r # fst (replay_log_loop rest) else fst (replay_log_loop rest),
          snd (replay_log_loop rest)))"
  by pat_completeness auto
termination
  by (relation "measure length") (auto simp: replay_log_next_shrinks)

declare replay_log_loop.simps [simp del]

definition replay_log :: "bytes \<Rightarrow> log_rec replay_result" where
  "replay_log bs =
     (case read_exact 4 bs of
       None \<Rightarrow> ([], None)
     | Some (magic, rest) \<Rightarrow>
         if magic \<noteq> SL_MAGIC then ([], Some (InvalidData ''bad magic'')) else replay_log_loop rest)"

section \<open>Lemmas: the format\<close>

definition log_frame :: "log_rec \<Rightarrow> bytes" where
  "log_frame r = encode_record [] (fst r) (snd r)"

definition log_fits :: "log_rec \<Rightarrow> bool" where
  "log_fits r \<longleftrightarrow> length (snd r) < 2 ^ 32"

lemma encode_record_frame: "encode_record buf opcode payload = buf @ log_frame (opcode, payload)"
  by (simp add: encode_record_def log_frame_def Let_def)

lemma log_frame_eq: "log_frame (opcode, p) = u32_to_le_bytes (of_nat (length p)) @ [opcode] @ p"
  by (simp add: log_frame_def encode_record_def Let_def)

lemma replay_log_next_frame:
  assumes "log_fits r"
  shows "replay_log_next (log_frame r @ rest) = Got r rest"
proof -
  obtain opcode p where r: "r = (opcode, p)" by (cases r)
  have total: "unat (of_nat (length p) :: u32) = length p"
    using assms by (intro unat_of_nat_u32) (simp add: log_fits_def r)
  have "read_exact 4 (log_frame r @ rest) = Some (u32_to_le_bytes (of_nat (length p)), [opcode] @ p @ rest)"
    using le32.read_enc [of "of_nat (length p)" "[opcode] @ p @ rest"] by (simp add: r log_frame_eq)
  moreover have "read_exact 1 ([opcode] @ p @ rest) = Some ([opcode], p @ rest)"
    by (rule read_exact_append) simp
  ultimately show ?thesis
    by (simp add: replay_log_next_def total r Let_def)
qed

lemma replay_log_next_torn:
  assumes "log_fits r" and "strict_prefix q (log_frame r)" and "4 \<le> length q"
  shows "replay_log_next q = Bad UnexpectedEof"
proof -
  obtain opcode p where r: "r = (opcode, p)" by (cases r)
  let ?len = "u32_to_le_bytes (of_nat (length p))"
  have total: "unat (of_nat (length p) :: u32) = length p"
    using assms(1) by (intro unat_of_nat_u32) (simp add: log_fits_def r)
  obtain b where q: "q = ?len @ b" and b: "strict_prefix b ([opcode] @ p)"
    using assms(2,3) unfolding r log_frame_eq by (auto elim!: strict_prefix_appendE)
  have short: "length b < 1 + length p" using prefix_length_less [OF b] by simp
  have len: "read_exact 4 q = Some (?len, b)" by (simp add: q)
  show ?thesis
  proof (cases b)
    case Nil
    with len show ?thesis by (simp add: replay_log_next_def Let_def)
  next
    case (Cons b0 b')
    then have "read_exact 1 b = Some ([b0], b')" by (simp add: read_exact_def)
    moreover have "read_exact (length p) b' = None" and "0 < length p"
      using short Cons by auto
    ultimately show ?thesis
      using len total by (simp add: replay_log_next_def Let_def)
  qed
qed

interpretation sl: record_log log_frame replay_log_next replay_log_loop "\<lambda>r. fst r \<noteq> OP_TOMBSTONE" log_fits
proof
  fix bs
  show "replay_log_loop bs =
    (case replay_log_next bs of Eof \<Rightarrow> ([], None) | Bad e \<Rightarrow> ([], Some e)
      | Got r rest \<Rightarrow> (if fst r \<noteq> OP_TOMBSTONE then r # fst (replay_log_loop rest) else fst (replay_log_loop rest),
          snd (replay_log_loop rest)))"
    by (rule replay_log_loop.simps)
next
  show "length p < 4 \<Longrightarrow> replay_log_next p = Eof" for p
    by (simp add: replay_log_next_def)
qed (simp_all add: replay_log_next_frame replay_log_next_torn)

lemma replay_log_magic [simp]: "replay_log (SL_MAGIC @ bs) = replay_log_loop bs"
proof -
  have "read_exact 4 (SL_MAGIC @ bs) = Some (SL_MAGIC, bs)"
    by (rule read_exact_append) (simp add: SL_MAGIC_def)
  then show ?thesis by (simp add: replay_log_def)
qed

section \<open>Lemmas: the operations\<close>

text \<open>
  On a device without errors: \<open>written\<close> is in the file, \<open>pending\<close> is in the buffer, and nothing
  is left in the buffered writer.
\<close>

definition sl_holds :: "log_rec list \<Rightarrow> log_rec list \<Rightarrow> store_log \<Rightarrow> bool" where
  "sl_holds written pending s \<longleftrightarrow>
     healthy (bw_file (sl_writer s)) \<and> bw_buf (sl_writer s) = [] \<and>
     f_data (bw_file (sl_writer s)) = SL_MAGIC @ concat (map log_frame written) \<and>
     sl_buffer s = concat (map log_frame pending)"

lemma sl_flush_buffer_healthy:
  assumes "healthy (bw_file (sl_writer s))" and "bw_buf (sl_writer s) = []"
    and "sl_flush_buffer s = (ok, s')"
  shows "ok" and "healthy (bw_file (sl_writer s'))" and "bw_buf (sl_writer s') = []"
    and "f_data (bw_file (sl_writer s')) = f_data (bw_file (sl_writer s)) @ sl_buffer s"
    and "sl_buffer s' = sl_buffer s"
proof -
  obtain ok1 w1 where w: "bw_write_all (sl_buffer s) (sl_writer s) = (ok1, w1)" by fastforce
  note wr = bw_write_all_healthy [OF assms(1) _ w]
  show "ok" and "healthy (bw_file (sl_writer s'))" and "bw_buf (sl_writer s') = []"
    and "f_data (bw_file (sl_writer s')) = f_data (bw_file (sl_writer s)) @ sl_buffer s"
    and "sl_buffer s' = sl_buffer s"
    using assms w wr(1,2,5)
    by (auto simp: sl_flush_buffer_def Let_def bw_flush_def bw_flush_buf_healthy healthy_def split: if_splits)
qed

lemma bw_sync_all_healthy:
  assumes "healthy (bw_file w)"
  shows "bw_sync_all w = (True, w\<lparr>bw_file := (bw_file w)\<lparr>f_synced := length (f_data (bw_file w))\<rparr>\<rparr>)"
  using assms by (simp add: bw_sync_all_def file_sync_all_def healthy_def)

lemma sl_sync_now_holds:
  assumes "sl_holds written pending s" and "sl_sync_now s = (ok, s')"
  shows "ok" and "sl_holds (written @ pending) pending s'"
    and "durable (bw_file (sl_writer s')) = f_data (bw_file (sl_writer s'))"
proof -
  obtain ok1 s1 where f: "sl_flush_buffer s = (ok1, s1)" by fastforce
  have h: "healthy (bw_file (sl_writer s))" "bw_buf (sl_writer s) = []"
    using assms(1) by (simp_all add: sl_holds_def)
  note fl = sl_flush_buffer_healthy [OF h f]
  have s': "ok" "s' = s1\<lparr>sl_writer := (sl_writer s1)\<lparr>bw_file := (bw_file (sl_writer s1))
      \<lparr>f_synced := length (f_data (bw_file (sl_writer s1)))\<rparr>\<rparr>\<rparr>"
    using assms(2) f fl(1) by (auto simp: sl_sync_now_def Let_def bw_sync_all_healthy [OF fl(2)])
  show "ok" by (rule s'(1))
  show "sl_holds (written @ pending) pending s'"
    using assms(1) fl(2-5) by (simp add: sl_holds_def s'(2) healthy_def)
  show "durable (bw_file (sl_writer s')) = f_data (bw_file (sl_writer s'))"
    by (simp add: s'(2) durable_def)
qed

lemma sl_maybe_sync_holds:
  assumes "sl_holds written pending s" and "sl_maybe_sync now s = (ok, s')"
  shows "ok \<and> (sl_holds written pending s' \<or> sl_holds (written @ pending) [] s')"
proof -
  obtain ok1 s1 where f: "sl_flush_buffer s = (ok1, s1)" by fastforce
  have h: "healthy (bw_file (sl_writer s))" "bw_buf (sl_writer s) = []"
    using assms(1) by (simp_all add: sl_holds_def)
  note fl = sl_flush_buffer_healthy [OF h f]
  show ?thesis
    using assms f fl
    by (auto simp: sl_maybe_sync_def Let_def bw_sync_all_healthy [OF fl(2)] sl_holds_def healthy_def
        split: if_splits)
qed

text \<open>A run of appends, each at its own time; it stops at the first error.\<close>

datatype log_op = LInsert bytes | LDelete bytes

primrec log_op_rec :: "log_op \<Rightarrow> log_rec" where
  "log_op_rec (LInsert p) = (OP_INSERT, p)"
| "log_op_rec (LDelete p) = (OP_DELETE, p)"

primrec sl_append :: "nat \<Rightarrow> log_op \<Rightarrow> store_log \<Rightarrow> bool \<times> store_log" where
  "sl_append now (LInsert p) s = sl_append_insert now p s"
| "sl_append now (LDelete p) s = sl_append_delete now p s"

primrec sl_run :: "(nat \<times> log_op) list \<Rightarrow> store_log \<Rightarrow> bool \<times> store_log" where
  "sl_run [] s = (True, s)"
| "sl_run (x # xs) s =
     (let (ok, s') = sl_append (fst x) (snd x) s in if ok then sl_run xs s' else (False, s'))"

lemma sl_append_holds:
  assumes "sl_holds written pending s" and "sl_append now x s = (ok, s')"
  shows "ok \<and> (\<exists>written' pending'. sl_holds written' pending' s' \<and>
    written' @ pending' = written @ pending @ [log_op_rec x])"
proof -
  let ?t = "s\<lparr>sl_buffer := sl_buffer s @ log_frame (log_op_rec x)\<rparr>"
  have t: "sl_holds written (pending @ [log_op_rec x]) ?t"
    using assms(1) by (simp add: sl_holds_def)
  have "sl_append now x s = sl_maybe_sync now ?t"
    by (cases x) (simp_all add: sl_append_insert_def sl_append_delete_def encode_record_frame)
  with assms(2) have "sl_maybe_sync now ?t = (ok, s')" by simp
  from sl_maybe_sync_holds [OF t this] show ?thesis by fastforce
qed

lemma sl_run_holds:
  assumes "sl_holds written pending s" and "sl_run xs s = (ok, s')"
  shows "ok \<and> (\<exists>written' pending'. sl_holds written' pending' s' \<and>
    written' @ pending' = written @ pending @ map (log_op_rec \<circ> snd) xs)"
  using assms
proof (induction xs arbitrary: s written pending)
  case Nil
  then show ?case by auto
next
  case (Cons x xs)
  obtain ok1 s1 where a: "sl_append (fst x) (snd x) s = (ok1, s1)" by fastforce
  from sl_append_holds [OF Cons.prems(1) a] obtain w1 p1
    where 1: ok1 "sl_holds w1 p1 s1" "w1 @ p1 = written @ pending @ [log_op_rec (snd x)]" by blast
  have "sl_run xs s1 = (ok, s')" using Cons.prems(2) a 1(1) by simp
  from Cons.IH [OF 1(2) this] show ?case
    using 1(3) by (metis append.assoc append_Cons append_Nil comp_apply list.simps(9))
qed

lemma sl_open_holds:
  assumes "sl_open_with_opts now (file_of []) batch timeout = Ok s"
  shows "sl_holds [] [] s"
proof -
  obtain ok1 w1 where w: "bw_write_all SL_MAGIC (bw_new 65536 (file_of [])) = (ok1, w1)" by fastforce
  have "healthy (bw_file (bw_new 65536 (file_of [])))" "length (bw_buf (bw_new 65536 (file_of []))) \<le> 65536"
    by (simp_all add: bw_new_def)
  note wr = bw_write_all_healthy [OF this(1) _ w]
  have "healthy (bw_file w1)" "ok1" and "f_data (bw_file w1) @ bw_buf w1 = SL_MAGIC"
    using wr(1,2,5) by (simp_all add: bw_new_def)
  then show ?thesis
    using assms w
    by (auto simp: sl_open_with_opts_def Let_def bw_flush_def bw_flush_buf_healthy bw_sync_all_healthy healthy_def
        sl_holds_def split: if_splits)
qed

lemma sl_replay_durable:
  assumes "sl_holds written pending s" and "\<forall>r\<in>set written. log_fits r"
    and "\<forall>r\<in>set written. fst r \<noteq> OP_TOMBSTONE"
    and "durable (bw_file (sl_writer s)) = f_data (bw_file (sl_writer s))"
  shows "replay_log (durable (bw_file (sl_writer s))) = (written, None)"
  using assms sl.replay_frames [OF assms(2)] by (simp add: sl_holds_def)

lemma log_op_rec_delivered: "fst (log_op_rec x) \<noteq> OP_TOMBSTONE"
  by (cases x) (simp_all add: OP_INSERT_def OP_DELETE_def OP_TOMBSTONE_def)

lemma log_recs_ok:
  assumes "w @ p = map (log_op_rec \<circ> snd) xs" and "\<forall>x\<in>set xs. log_fits (log_op_rec (snd x))"
  shows "\<forall>r\<in>set (w @ p). log_fits r \<and> fst r \<noteq> OP_TOMBSTONE"
  unfolding assms(1) using assms(2) log_op_rec_delivered by auto

section \<open>Example\<close>

definition log_example :: store_log where
  "log_example = \<lparr>sl_writer = \<lparr>bw_cap = 65536, bw_buf = [], bw_file = file_of SL_MAGIC\<rparr>, sl_buffer = [],
     sl_batch_size = 64, sl_batch_timeout = 5, sl_last_sync = 0, sl_bytes_written = 4\<rparr>"

definition log_example_ops :: "(nat \<times> log_op) list" where
  "log_example_ops = [(0, LInsert [7]), (9, LDelete [8]), (10, LInsert [])]"

lemma log_example_open: "sl_open_with_opts 0 (file_of []) 64 5 = Ok log_example"
  by code_simp

lemma log_example_run:
  "fst (sl_run log_example_ops log_example)" "sl_buffer (snd (sl_run log_example_ops log_example)) \<noteq> []"
  "\<forall>x\<in>set log_example_ops. log_fits (log_op_rec (snd x))"
  by code_simp+

section \<open>Properties\<close>

text \<open>
  C30. Group commit of the store log: whatever the batch size, the timeout and the times of the
  calls, on a device without errors every append succeeds, and after one \<open>sync_now\<close> the durable
  file replays to exactly the records appended, in order.
\<close>

theorem store_log_group_commit:
  assumes "sl_open_with_opts now (file_of []) batch timeout = Ok s0" and "sl_run xs s0 = (ok, s)"
    and "sl_sync_now s = (ok', s')" and "\<forall>x\<in>set xs. log_fits (log_op_rec (snd x))"
  shows "ok \<and> ok' \<and> replay_log (durable (bw_file (sl_writer s'))) = (map (log_op_rec \<circ> snd) xs, None)"
proof -
  from sl_run_holds [OF sl_open_holds [OF assms(1)] assms(2)] obtain w p
    where h: ok "sl_holds w p s" "w @ p = map (log_op_rec \<circ> snd) xs" by auto
  note sync = sl_sync_now_holds [OF h(2) assms(3)]
  show ?thesis
    using h(1,3) sync(1) sl_replay_durable [OF sync(2) _ _ sync(3)] log_recs_ok [OF h(3) assms(4)] by auto
qed

theorem store_log_group_commit_witness:
  "replay_log (durable (bw_file (sl_writer (snd (sl_sync_now (snd (sl_run log_example_ops log_example))))))) =
     ([(OP_INSERT, [7]), (OP_DELETE, [8]), (OP_INSERT, [])], None)"
  using store_log_group_commit [OF log_example_open surjective_pairing surjective_pairing log_example_run(3)]
  by (simp add: log_example_ops_def)

text \<open>
  \<open>flush\<close> and \<open>sync_now\<close> write the buffer out and keep it: when records are pending, a
  second flush appends them to the file again, and replay hands each of them on twice.
\<close>

theorem store_log_flush_duplicates:
  assumes "sl_open_with_opts now (file_of []) batch timeout = Ok s0" and "sl_run xs s0 = (ok, s)"
    and "sl_buffer s \<noteq> []" and "sl_flush s = (ok1, s1)" and "sl_flush s1 = (ok2, s2)"
    and "\<forall>x\<in>set xs. log_fits (log_op_rec (snd x))"
  shows "\<exists>written pending. map (log_op_rec \<circ> snd) xs = written @ pending \<and> pending \<noteq> [] \<and>
    replay_log (durable (bw_file (sl_writer s2))) = (written @ pending @ pending, None)"
proof -
  from sl_run_holds [OF sl_open_holds [OF assms(1)] assms(2)] obtain w p
    where h: "sl_holds w p s" "w @ p = map (log_op_rec \<circ> snd) xs" by auto
  have "p \<noteq> []" using h(1) assms(3) by (auto simp: sl_holds_def)
  have 1: "sl_holds (w @ p) p s1"
    using sl_sync_now_holds [OF h(1)] assms(4) by (simp add: sl_flush_def)
  note sync = sl_sync_now_holds [OF 1 assms(5) [unfolded sl_flush_def]]
  have "replay_log (durable (bw_file (sl_writer s2))) = ((w @ p) @ p, None)"
    using log_recs_ok [OF h(2) assms(6)] by (intro sl_replay_durable [OF sync(2) _ _ sync(3)]) auto
  with h(2) \<open>p \<noteq> []\<close> show ?thesis by (metis append.assoc)
qed

theorem store_log_flush_duplicates_witness:
  "\<exists>written pending. map (log_op_rec \<circ> snd) log_example_ops = written @ pending \<and> pending \<noteq> [] \<and>
    replay_log (durable (bw_file (sl_writer (snd (sl_flush (snd (sl_flush (snd (sl_run log_example_ops log_example))))))))) =
      (written @ pending @ pending, None)"
  using store_log_flush_duplicates [OF log_example_open surjective_pairing log_example_run(2)
      surjective_pairing surjective_pairing log_example_run(3)] .

end
