(* ===== verification/Storage_Types.thy ===== *)
theory Storage_Types
  imports LG_Prelude
begin

text \<open>
  \<^verbatim>\<open>src/src/storage/mod.rs\<close>: the node and edge records of the graph and the test whether a
  record is visible at a snapshot. Both kinds of record carry the transaction that created and
  the transaction that deleted them; the locale \<open>versioned\<close> states what visibility rests on.
\<close>

section \<open>Records\<close>

record node =
  n_id :: NodeId
  n_labels :: "LabelId list"
  n_first_out :: EdgeId
  n_first_in :: EdgeId
  n_props_row :: u32
  n_created_tx :: TxId
  n_deleted_tx :: TxId

record edge =
  e_id :: EdgeId
  e_src :: NodeId
  e_dst :: NodeId
  e_etype :: TypeId
  e_next_out :: EdgeId
  e_next_in :: EdgeId
  e_props_row :: u32
  e_created_tx :: TxId
  e_deleted_tx :: TxId

section \<open>Operations\<close>

definition node_new :: "NodeId \<Rightarrow> LabelId list \<Rightarrow> u32 \<Rightarrow> TxId \<Rightarrow> node" where
  "node_new i labels props_row created_tx =
     \<lparr>n_id = i, n_labels = labels, n_first_out = NULL_EDGE, n_first_in = NULL_EDGE,
      n_props_row = props_row, n_created_tx = created_tx, n_deleted_tx = MAX_TX_ID\<rparr>"

definition node_is_alive :: "node \<Rightarrow> TxId \<Rightarrow> bool" where
  "node_is_alive n tx \<longleftrightarrow> n_created_tx n \<le> tx \<and> n_deleted_tx n > tx"

definition node_mark_deleted :: "TxId \<Rightarrow> node \<Rightarrow> node" where
  "node_mark_deleted tx n = n\<lparr>n_deleted_tx := tx\<rparr>"

definition edge_new :: "EdgeId \<Rightarrow> NodeId \<Rightarrow> NodeId \<Rightarrow> TypeId \<Rightarrow> u32 \<Rightarrow> TxId \<Rightarrow> edge" where
  "edge_new i src dst etype props_row created_tx =
     \<lparr>e_id = i, e_src = src, e_dst = dst, e_etype = etype, e_next_out = NULL_EDGE,
      e_next_in = NULL_EDGE, e_props_row = props_row, e_created_tx = created_tx,
      e_deleted_tx = MAX_TX_ID\<rparr>"

definition edge_is_alive :: "edge \<Rightarrow> TxId \<Rightarrow> bool" where
  "edge_is_alive e tx \<longleftrightarrow> e_created_tx e \<le> tx \<and> e_deleted_tx e > tx"

definition edge_mark_deleted :: "TxId \<Rightarrow> edge \<Rightarrow> edge" where
  "edge_mark_deleted tx e = e\<lparr>e_deleted_tx := tx\<rparr>"

section \<open>Visibility\<close>

lemma le_MAX_TX_ID [simp]: "t \<le> MAX_TX_ID"
proof -
  have "unat t < 2 ^ 64" using unsigned_less [of t] by simp
  then show ?thesis by (simp add: MAX_TX_ID_def word_le_nat_alt)
qed

text \<open>
  A version is visible from its creating transaction on and up to the transaction before its
  deleting one. A fresh version, whose deleting transaction is \<open>MAX_TX_ID\<close>, is visible at every
  snapshot from its creation on but for \<open>MAX_TX_ID\<close> itself.
\<close>

locale versioned =
  fixes created :: "'r \<Rightarrow> TxId"
    and deleted :: "'r \<Rightarrow> TxId"
    and is_alive :: "'r \<Rightarrow> TxId \<Rightarrow> bool"
    and mark_deleted :: "TxId \<Rightarrow> 'r \<Rightarrow> 'r"
  assumes alive_iff: "is_alive r tx \<longleftrightarrow> created r \<le> tx \<and> tx < deleted r"
    and created_mark: "created (mark_deleted t r) = created r"
    and deleted_mark: "deleted (mark_deleted t r) = t"
begin

lemma alive_mark: "is_alive (mark_deleted t r) tx \<longleftrightarrow> created r \<le> tx \<and> tx < t"
  by (simp add: alive_iff created_mark deleted_mark)

lemma alive_before_mark:
  assumes "tx < t"
  shows "is_alive r tx \<Longrightarrow> is_alive (mark_deleted t r) tx"
  using assms by (simp add: alive_iff created_mark deleted_mark)

lemma mark_hides: "t \<le> tx \<Longrightarrow> \<not> is_alive (mark_deleted t r) tx"
  by (auto simp: alive_mark)

lemma mark_live_keeps_older:
  assumes "deleted r = MAX_TX_ID" and "tx < t"
  shows "is_alive (mark_deleted t r) tx \<longleftrightarrow> is_alive r tx"
proof -
  have "tx < MAX_TX_ID"
    using assms(2) le_MAX_TX_ID [of t] by (rule less_le_trans)
  with assms show ?thesis by (simp add: alive_iff created_mark deleted_mark)
qed

lemma dead_before:
  assumes "deleted r < oldest" and "oldest \<le> tx"
  shows "\<not> is_alive r tx"
  using assms by (auto simp: alive_iff)

end

interpretation nv: versioned n_created_tx n_deleted_tx node_is_alive node_mark_deleted
  by standard (simp_all add: node_is_alive_def node_mark_deleted_def)

interpretation ev: versioned e_created_tx e_deleted_tx edge_is_alive edge_mark_deleted
  by standard (simp_all add: edge_is_alive_def edge_mark_deleted_def)

lemma node_new_simps [simp]:
  "n_id (node_new i ls r t) = i" "n_labels (node_new i ls r t) = ls"
  "n_first_out (node_new i ls r t) = NULL_EDGE" "n_first_in (node_new i ls r t) = NULL_EDGE"
  "n_props_row (node_new i ls r t) = r" "n_created_tx (node_new i ls r t) = t"
  "n_deleted_tx (node_new i ls r t) = MAX_TX_ID"
  by (simp_all add: node_new_def)

lemma edge_new_simps [simp]:
  "e_id (edge_new i s d y r t) = i" "e_src (edge_new i s d y r t) = s"
  "e_dst (edge_new i s d y r t) = d" "e_etype (edge_new i s d y r t) = y"
  "e_next_out (edge_new i s d y r t) = NULL_EDGE" "e_next_in (edge_new i s d y r t) = NULL_EDGE"
  "e_props_row (edge_new i s d y r t) = r" "e_created_tx (edge_new i s d y r t) = t"
  "e_deleted_tx (edge_new i s d y r t) = MAX_TX_ID"
  by (simp_all add: edge_new_def)

section \<open>A concrete serialiser\<close>

text \<open>
  Numbers in unary, one after the other. It stands for nothing in the repository: it shows that
  what is assumed of the serialiser can hold, and the examples run with it. Fields that are
  mostly \<open>u64::MAX\<close> are shifted by one, which keeps the examples short.
\<close>

definition nats_to_bytes :: "nat list \<Rightarrow> bytes" where
  "nats_to_bytes ns = concat (map (\<lambda>n. replicate n 1 @ [0]) ns)"

primrec nats_of_bytes :: "nat \<Rightarrow> bytes \<Rightarrow> nat list" where
  "nats_of_bytes acc [] = []"
| "nats_of_bytes acc (b # bs) =
     (if b = 1 then nats_of_bytes (Suc acc) bs else acc # nats_of_bytes 0 bs)"

definition node_example_codec :: "node codec" where
  "node_example_codec =
     \<lparr>ser = \<lambda>n. Some (nats_to_bytes ([unat (n_id n), unat (n_first_out n + 1), unat (n_first_in n + 1),
        unat (n_props_row n), unat (n_created_tx n), unat (n_deleted_tx n + 1)] @ map unat (n_labels n))),
      de = \<lambda>bs. (case nats_of_bytes 0 bs of
        i # fo # fi # row # ct # dt # ls \<Rightarrow>
          Some \<lparr>n_id = of_nat i, n_labels = map of_nat ls, n_first_out = of_nat fo - 1,
            n_first_in = of_nat fi - 1, n_props_row = of_nat row, n_created_tx = of_nat ct,
            n_deleted_tx = of_nat dt - 1\<rparr>
      | _ \<Rightarrow> None)\<rparr>"

definition edge_example_codec :: "edge codec" where
  "edge_example_codec =
     \<lparr>ser = \<lambda>e. Some (nats_to_bytes [unat (e_id e), unat (e_src e), unat (e_dst e), unat (e_etype e),
        unat (e_next_out e + 1), unat (e_next_in e + 1), unat (e_props_row e), unat (e_created_tx e),
        unat (e_deleted_tx e + 1)]),
      de = \<lambda>bs. (case nats_of_bytes 0 bs of
        [i, sr, ds, y, no, ni, row, ct, dt] \<Rightarrow>
          Some \<lparr>e_id = of_nat i, e_src = of_nat sr, e_dst = of_nat ds, e_etype = of_nat y,
            e_next_out = of_nat no - 1, e_next_in = of_nat ni - 1, e_props_row = of_nat row,
            e_created_tx = of_nat ct, e_deleted_tx = of_nat dt - 1\<rparr>
      | _ \<Rightarrow> None)\<rparr>"

lemma nats_of_bytes_one: "nats_of_bytes acc (replicate n 1 @ 0 # bs) = (acc + n) # nats_of_bytes 0 bs"
  by (induction n arbitrary: acc) simp_all

lemma nats_of_bytes_inverse [simp]: "nats_of_bytes 0 (nats_to_bytes ns) = ns"
  by (induction ns) (simp_all add: nats_to_bytes_def nats_of_bytes_one)

lemma node_example_codec_ok: "codec_ok node_example_codec"
  by (simp add: codec_ok_def codec_at_def node_example_codec_def comp_def)

lemma edge_example_codec_ok: "codec_ok edge_example_codec"
  by (simp add: codec_ok_def codec_at_def edge_example_codec_def)

end
