(* ===== verification/Consistency.thy ===== *)
theory Consistency
  imports LG_Prelude
begin

text \<open>
  \<^verbatim>\<open>src/src/storage/consistency.rs\<close>: the durability levels and the numbers the WAL
  thread derives from them. A \<open>usize\<close> is a 64-bit word, a \<open>Duration\<close> a number of
  nanoseconds.
\<close>

section \<open>Data\<close>

datatype Durability =
    Immediate
  | Batch (interval_ms: u64) (batch_limit: u64)
  | Async

record Consistency =
  durability :: Durability
  wal_channel_capacity :: u64

definition USIZE_MAX :: u64 where
  "USIZE_MAX = 0xFFFFFFFFFFFFFFFF"

definition DURATION_MAX :: nat where
  "DURATION_MAX = 0xFFFFFFFFFFFFFFFF * 1000000000 + 999999999"

definition duration_from_millis :: "u64 \<Rightarrow> nat" where
  "duration_from_millis ms = unat ms * 1000000"

section \<open>Decimal rendering (\<open>format!\<close> of an unsigned integer)\<close>

fun decimal :: "nat \<Rightarrow> string" where
  "decimal n =
     (if n < 10 then [char_of (48 + n)] else decimal (n div 10) @ [char_of (48 + n mod 10)])"

declare decimal.simps [simp del]

section \<open>Operations\<close>

definition durability_default :: Durability where
  "durability_default = Batch 5 65536"

fun crash_window_description :: "Durability \<Rightarrow> string" where
  "crash_window_description Immediate = ''zero (every write is fsynced)''"
| "crash_window_description (Batch ms b) = ''at most '' @ decimal (unat ms) @ ''ms of writes''"
| "crash_window_description Async = ''unbounded on power loss; zero on process restart''"

fun expected_throughput :: "Durability \<Rightarrow> string" where
  "expected_throughput Immediate = ''~500 ops/s''"
| "expected_throughput (Batch ms b) = ''~40,000 ops/s''"
| "expected_throughput Async = ''~400,000+ ops/s''"

fun batch_timeout :: "Durability \<Rightarrow> nat" where
  "batch_timeout Immediate = 0"
| "batch_timeout (Batch ms b) = duration_from_millis ms"
| "batch_timeout Async = DURATION_MAX"

fun batch_bytes :: "Durability \<Rightarrow> u64" where
  "batch_bytes Immediate = 1"
| "batch_bytes (Batch ms b) = b"
| "batch_bytes Async = USIZE_MAX"

fun fsync_enabled :: "Durability \<Rightarrow> bool" where
  "fsync_enabled Async = False"
| "fsync_enabled Immediate = True"
| "fsync_enabled (Batch ms b) = True"

definition consistency_default :: Consistency where
  "consistency_default = \<lparr>durability = durability_default, wal_channel_capacity = 4096\<rparr>"

definition consistency_immediate :: Consistency where
  "consistency_immediate = \<lparr>durability = Immediate, wal_channel_capacity = 1024\<rparr>"

definition consistency_balanced :: Consistency where
  "consistency_balanced = consistency_default"

definition consistency_high_throughput :: Consistency where
  "consistency_high_throughput = \<lparr>durability = Async, wal_channel_capacity = 8192\<rparr>"

definition consistency_batch :: "u64 \<Rightarrow> u64 \<Rightarrow> Consistency" where
  "consistency_batch ms b = \<lparr>durability = Batch ms b, wal_channel_capacity = 4096\<rparr>"

lemmas consistency_defs =
  durability_default_def consistency_default_def consistency_immediate_def
  consistency_balanced_def consistency_high_throughput_def consistency_batch_def

section \<open>Lemmas\<close>

lemma fsync_enabled_iff: "fsync_enabled d \<longleftrightarrow> d \<noteq> Async"
  by (cases d) auto

end
