(* ===== verification/Wal_Thread.thy ===== *)
theory Wal_Thread
  imports Framing Consistency Disk
begin

text \<open>
  \<^verbatim>\<open>src/src/storage/wal_thread.rs\<close>: the record format, the loop of the one thread that
  writes the log, the calls the stores make on it, and the replay of a log file.

  The crossbeam channel is a queue with a capacity; business threads append to it, the WAL
  thread takes from its head. The two atomics the threads share (\<open>pending_bytes\<close>,
  \<open>running\<close>) are fields of the state. Time is a number the environment supplies to each
  iteration of the loop. A reply channel is a number; \<open>ws_acks\<close> lists the replies sent.
  Two fields record history and are read by no operation: \<open>ws_sent\<close>, the commands that
  entered the channel, and \<open>ws_received\<close>, those the thread has taken out and acted on.
\<close>

section \<open>Data\<close>

datatype wal_cmd =
    Insert u64 bytes
  | Delete u64
  | Flush nat
  | Shutdown nat

definition WAL_MAGIC :: bytes where
  "WAL_MAGIC = [0x4C, 0x47, 0x44, 0x42]"

record wal_cfg =
  batch_size :: u64
  fsync_timeout :: nat
  fsync_on :: bool

record wal_sys =
  ws_cfg :: wal_cfg
  ws_chan :: "wal_cmd list"
  ws_cap :: nat
  ws_running :: bool
  ws_pending :: u64
  ws_writer :: bufw
  ws_buffer :: bytes
  ws_last_sync :: nat
  ws_alive :: bool
  ws_acks :: "nat list"
  ws_next_reply :: nat
  ws_sent :: "wal_cmd list"
  ws_received :: "wal_cmd list"

abbreviation ws_file :: "wal_sys \<Rightarrow> ofile" where
  "ws_file s \<equiv> bw_file (ws_writer s)"

section \<open>The record format\<close>

definition encode_insert :: "bytes \<Rightarrow> u64 \<Rightarrow> bytes \<Rightarrow> bytes" where
  "encode_insert buf i rec =
     (let total = 1 + 8 + length rec
      in buf @ u32_to_le_bytes (of_nat total) @ [1] @ u64_to_le_bytes i @ rec)"

definition encode_delete :: "bytes \<Rightarrow> u64 \<Rightarrow> bytes" where
  "encode_delete buf i =
     (let total = 1 + 8 :: nat
      in buf @ u32_to_le_bytes (of_nat total) @ [2] @ u64_to_le_bytes i)"

section \<open>Replay\<close>

type_synonym wal_rec = "u8 \<times> u64 \<times> bytes"

text \<open>
  One round of the loop of \<open>replay_wal\<close>. The end of the file is the normal end only where the
  length field is read; anywhere else it is an error.
\<close>

definition replay_wal_next :: "bytes \<Rightarrow> wal_rec next_result" where
  "replay_wal_next bs =
     (case read_exact 4 bs of
       None \<Rightarrow> Eof
     | Some (len_buf, bs1) \<Rightarrow>
         let total = unat (u32_from_le_bytes len_buf) in
         if total < 9 then Bad (InvalidData ''record too short'')
         else
           (case read_exact 9 bs1 of
             None \<Rightarrow> Bad UnexpectedEof
           | Some (header, bs2) \<Rightarrow>
               let opcode = hd header;
                   i = u64_from_le_bytes (take 8 (drop 1 header));
                   payload_len = total - 9
               in if payload_len > 0
                  then (case read_exact payload_len bs2 of
                         None \<Rightarrow> Bad UnexpectedEof
                       | Some (payload, bs3) \<Rightarrow> Got (opcode, i, payload) bs3)
                  else Got (opcode, i, []) bs2))"

lemma replay_wal_next_shrinks:
  "replay_wal_next bs = Got r rest \<Longrightarrow> length rest < length bs"
  by (auto simp: replay_wal_next_def read_exact_def Let_def split: if_splits option.splits)

function replay_wal_loop :: "bytes \<Rightarrow> wal_rec replay_result" where
  "replay_wal_loop bs =
     (case replay_wal_next bs of
       Eof \<Rightarrow> ([], None)
     | Bad e \<Rightarrow> ([], Some e)
     | Got r rest \<Rightarrow> (r # fst (replay_wal_loop rest), snd (replay_wal_loop rest)))"
  by pat_completeness auto
termination
  by (relation "measure length") (auto simp: replay_wal_next_shrinks)

declare replay_wal_loop.simps [simp del]

definition replay_wal :: "bytes \<Rightarrow> wal_rec replay_result" where
  "replay_wal bs =
     (case read_exact 4 bs of
       None \<Rightarrow> ([], None)
     | Some (magic, rest) \<Rightarrow>
         if magic \<noteq> WAL_MAGIC then ([], Some (InvalidData ''bad wal magic''))
         else replay_wal_loop rest)"

section \<open>The thread\<close>

text \<open>
  \<open>flush_and_sync\<close> prints the errors of the three calls and goes on: their results are
  dropped here as they are there, and the buffer is cleared in any case.
\<close>

definition flush_and_sync :: "wal_sys \<Rightarrow> wal_sys" where
  "flush_and_sync s =
     (if ws_buffer s = [] then s
      else
        let w1 = snd (bw_write_all (ws_buffer s) (ws_writer s));
            w2 = snd (bw_flush w1);
            w3 = (if fsync_on (ws_cfg s) then snd (bw_sync_all w2) else w2)
        in s\<lparr>ws_writer := w3, ws_pending := 0, ws_buffer := []\<rparr>)"

definition sync_if_due :: "nat \<Rightarrow> wal_sys \<Rightarrow> wal_sys" where
  "sync_if_due now s =
     (let buffer_full = length (ws_buffer s) \<ge> unat (batch_size (ws_cfg s));
          timed_out = now - ws_last_sync s \<ge> fsync_timeout (ws_cfg s)
      in if (buffer_full \<or> timed_out) \<and> ws_buffer s \<noteq> []
         then (flush_and_sync s)\<lparr>ws_last_sync := now\<rparr> else s)"

text \<open>
  One iteration of \<open>wal_loop\<close>: \<open>recv_timeout\<close> gives the head of the channel, or runs into
  its time limit when the channel is empty. A thread that has returned does nothing.
\<close>

definition wal_loop_iter :: "nat \<Rightarrow> wal_sys \<Rightarrow> wal_sys" where
  "wal_loop_iter now s =
     (if \<not> ws_alive s then s
      else case ws_chan s of
        [] \<Rightarrow>
          if \<not> ws_running s \<and> ws_buffer s = [] then s\<lparr>ws_alive := False\<rparr>
          else sync_if_due now s
      | cmd # rest \<Rightarrow>
          let s0 = s\<lparr>ws_chan := rest\<rparr>;
              s1 = s0\<lparr>ws_received := ws_received s @ [cmd]\<rparr>
          in if \<not> ws_running s then (flush_and_sync s0)\<lparr>ws_alive := False\<rparr>
             else (case cmd of
               Insert i rec \<Rightarrow>
                 sync_if_due now (s1\<lparr>ws_buffer := encode_insert (ws_buffer s) i rec\<rparr>)
             | Delete i \<Rightarrow>
                 sync_if_due now (s1\<lparr>ws_buffer := encode_delete (ws_buffer s) i\<rparr>)
             | Flush reply \<Rightarrow>
                 (flush_and_sync s1)\<lparr>ws_last_sync := now, ws_acks := ws_acks s @ [reply]\<rparr>
             | Shutdown reply \<Rightarrow>
                 (flush_and_sync s1)\<lparr>ws_acks := ws_acks s @ [reply], ws_alive := False\<rparr>))"

section \<open>The calls of the stores\<close>

text \<open>
  \<open>usize\<close> multiplication with and without overflow checks (debug and release builds), and the
  size test of \<open>Vec::with_capacity\<close>, which panics above \<open>isize::MAX\<close> bytes.
\<close>

definition usize_mul :: "bool \<Rightarrow> u64 \<Rightarrow> u64 \<Rightarrow> u64 option" where
  "usize_mul checks a b =
     (if checks \<and> unat a * unat b \<ge> 2 ^ 64 then None else Some (a * b))"

definition vec_capacity_ok :: "u64 \<Rightarrow> bool" where
  "vec_capacity_ok n \<longleftrightarrow> unat n < 2 ^ 63"

definition wal_write_magic :: "bufw \<Rightarrow> bool \<times> bufw" where
  "wal_write_magic w =
     (let (ok1, w1) = bw_write_all WAL_MAGIC w;
          (ok2, w2) = (if ok1 then bw_flush w1 else (False, w1))
      in if ok2 then bw_sync_all w2 else (False, w2))"

text \<open>
  \<open>WalThread::spawn\<close> on the file at \<open>log_path\<close> (no bytes: the file is new or empty). The
  second allocation is the loop's own buffer; its panic kills the thread, not the caller.
\<close>

definition wal_spawn :: "bool \<Rightarrow> nat \<Rightarrow> ofile \<Rightarrow> Durability \<Rightarrow> u64 \<Rightarrow> wal_sys outcome" where
  "wal_spawn checks now f d channel_cap =
     (case usize_mul checks (batch_bytes d) 2 of
       None \<Rightarrow> Panicked
     | Some cap \<Rightarrow>
         if \<not> vec_capacity_ok cap then Panicked
         else
           let exists = f_data f \<noteq> [];
               w = bw_new (unat cap) f;
               (ok, w') = (if exists then (True, w) else wal_write_magic w)
           in if \<not> ok then Err StorageFull
              else Ok \<lparr>ws_cfg = \<lparr>batch_size = batch_bytes d, fsync_timeout = batch_timeout d,
                          fsync_on = fsync_enabled d\<rparr>,
                       ws_chan = [], ws_cap = unat channel_cap, ws_running = True,
                       ws_pending = 0, ws_writer = w', ws_buffer = [], ws_last_sync = now,
                       ws_alive = vec_capacity_ok (batch_bytes d),
                       ws_acks = [], ws_next_reply = 0, ws_sent = [], ws_received = []\<rparr>)"

definition wal_send :: "wal_cmd \<Rightarrow> wal_sys \<Rightarrow> wal_sys" where
  "wal_send cmd s =
     (if ws_alive s then s\<lparr>ws_chan := ws_chan s @ [cmd], ws_sent := ws_sent s @ [cmd]\<rparr> else s)"

definition wal_send_insert :: "u64 \<Rightarrow> bytes \<Rightarrow> wal_sys \<Rightarrow> wal_sys" where
  "wal_send_insert i rec s =
     wal_send (Insert i rec) (s\<lparr>ws_pending := ws_pending s + (of_nat (length rec) + 9)\<rparr>)"

definition wal_send_delete :: "u64 \<Rightarrow> wal_sys \<Rightarrow> wal_sys" where
  "wal_send_delete i s = wal_send (Delete i) (s\<lparr>ws_pending := ws_pending s + 9\<rparr>)"

text \<open>
  The two halves of \<open>flush\<close>: the request, and what the caller does once the reply (or the
  closing of the reply channel) has woken it. In between the thread empties the channel.
\<close>

definition wal_flush_request :: "wal_sys \<Rightarrow> wal_sys" where
  "wal_flush_request s =
     (wal_send (Flush (ws_next_reply s)) s)\<lparr>ws_next_reply := Suc (ws_next_reply s)\<rparr>"

definition wal_drain :: "nat \<Rightarrow> wal_sys \<Rightarrow> wal_sys" where
  "wal_drain now s = (wal_loop_iter now ^^ length (ws_chan s)) s"

definition wal_flush :: "nat \<Rightarrow> wal_sys \<Rightarrow> wal_sys" where
  "wal_flush now s = (wal_drain now (wal_flush_request s))\<lparr>ws_pending := 0\<rparr>"

definition wal_pending_bytes :: "wal_sys \<Rightarrow> u64" where
  "wal_pending_bytes s = ws_pending s"

definition wal_shutdown_request :: "wal_sys \<Rightarrow> wal_sys" where
  "wal_shutdown_request s =
     (wal_send (Shutdown (ws_next_reply s)) (s\<lparr>ws_running := False\<rparr>))
       \<lparr>ws_next_reply := Suc (ws_next_reply s)\<rparr>"

definition wal_shutdown :: "nat \<Rightarrow> wal_sys \<Rightarrow> wal_sys" where
  "wal_shutdown now s = wal_loop_iter now (wal_shutdown_request s)"

text \<open>\<open>Drop\<close>: the flag, a wake-up command if the channel has room, and the join.\<close>

definition wal_drop_request :: "wal_sys \<Rightarrow> wal_sys" where
  "wal_drop_request s =
     (let s1 = s\<lparr>ws_running := False\<rparr>
      in if length (ws_chan s) < ws_cap s then wal_send (Delete 0xFFFFFFFFFFFFFFFF) s1 else s1)"

definition wal_drop :: "nat \<Rightarrow> wal_sys \<Rightarrow> wal_sys" where
  "wal_drop now s = wal_loop_iter now (wal_drop_request s)"

section \<open>All interleavings\<close>

text \<open>
  Business threads send (the blocking \<open>send\<close> waits for room), the WAL thread iterates, and
  the owner of the handle may stop it; any order of these is a run.
\<close>

inductive wal_step :: "wal_sys \<Rightarrow> wal_sys \<Rightarrow> bool" where
  send_insert: "length (ws_chan s) < ws_cap s \<Longrightarrow> wal_step s (wal_send_insert i rec s)"
| send_delete: "length (ws_chan s) < ws_cap s \<Longrightarrow> wal_step s (wal_send_delete i s)"
| request_flush: "length (ws_chan s) < ws_cap s \<Longrightarrow> wal_step s (wal_flush_request s)"
| end_flush: "wal_step s (s\<lparr>ws_pending := 0\<rparr>)"
| request_shutdown: "length (ws_chan s) < ws_cap s \<Longrightarrow> wal_step s (wal_shutdown_request s)"
| request_drop: "wal_step s (wal_drop_request s)"
| thread: "wal_step s (wal_loop_iter now s)"

inductive wal_reach :: "wal_sys \<Rightarrow> wal_sys \<Rightarrow> bool" for s0 where
  start: "wal_reach s0 s0"
| step: "wal_reach s0 s \<Longrightarrow> wal_step s t \<Longrightarrow> wal_reach s0 t"

section \<open>Lemmas: the record format\<close>

text \<open>
  A record as \<open>replay_wal\<close> hands it on, written as the two encoders write it. It fits when
  its length, cast to \<open>u32\<close>, is its length.
\<close>

definition wal_frame :: "wal_rec \<Rightarrow> bytes" where
  "wal_frame r =
     (case r of (opcode, i, payload) \<Rightarrow>
       u32_to_le_bytes (of_nat (9 + length payload)) @ opcode # u64_to_le_bytes i @ payload)"

definition wal_fits :: "wal_rec \<Rightarrow> bool" where
  "wal_fits r \<longleftrightarrow> 9 + length (snd (snd r)) < 2 ^ 32"

fun wal_recs :: "wal_cmd list \<Rightarrow> wal_rec list" where
  "wal_recs [] = []"
| "wal_recs (Insert i rec # cs) = (1, i, rec) # wal_recs cs"
| "wal_recs (Delete i # cs) = (2, i, []) # wal_recs cs"
| "wal_recs (Flush r # cs) = wal_recs cs"
| "wal_recs (Shutdown r # cs) = wal_recs cs"

lemma wal_recs_append [simp]: "wal_recs (cs @ ds) = wal_recs cs @ wal_recs ds"
  by (induction cs rule: wal_recs.induct) auto

lemma encode_insert_frame: "encode_insert buf i rec = buf @ wal_frame (1, i, rec)"
  by (simp add: encode_insert_def wal_frame_def)

lemma encode_delete_frame: "encode_delete buf i = buf @ wal_frame (2, i, [])"
  by (simp add: encode_delete_def wal_frame_def)

lemma length_wal_frame: "length (wal_frame r) = 13 + length (snd (snd r))"
  by (simp add: wal_frame_def split: prod.splits)

lemma unat_frame_total:
  "9 + length p < 2 ^ 32 \<Longrightarrow> unat (of_nat (9 + length p) :: u32) = 9 + length p"
  by (rule unat_of_nat_u32)

lemma replay_wal_next_frame:
  assumes "wal_fits r"
  shows "replay_wal_next (wal_frame r @ rest) = Got r rest"
proof -
  obtain opcode i p where r: "r = (opcode, i, p)" by (cases r)
  have total: "unat (of_nat (9 + length p) :: u32) = 9 + length p"
    using assms by (intro unat_frame_total) (simp add: wal_fits_def r)
  have header: "read_exact 9 ((opcode # u64_to_le_bytes i) @ (p @ rest)) =
      Some (opcode # u64_to_le_bytes i, p @ rest)"
    by (rule read_exact_append) simp
  show ?thesis
    using le32.read_enc [of "of_nat (9 + length p)" "opcode # u64_to_le_bytes i @ p @ rest"] header total
    by (simp add: replay_wal_next_def wal_frame_def r Let_def del: of_nat_add)
qed

lemma replay_wal_next_short: "length p < 4 \<Longrightarrow> replay_wal_next p = Eof"
  by (simp add: replay_wal_next_def)

lemma replay_wal_next_torn:
  assumes "wal_fits r" and "strict_prefix q (wal_frame r)" and "4 \<le> length q"
  shows "replay_wal_next q = Bad UnexpectedEof"
proof -
  obtain opcode i p where r: "r = (opcode, i, p)" by (cases r)
  let ?len = "u32_to_le_bytes (of_nat (9 + length p))"
  let ?body = "opcode # u64_to_le_bytes i @ p"
  have total: "unat (of_nat (9 + length p) :: u32) = 9 + length p"
    using assms(1) by (intro unat_frame_total) (simp add: wal_fits_def r)
  have frame: "wal_frame r = ?len @ ?body"
    by (simp add: wal_frame_def r)
  obtain b where q: "q = ?len @ b" and b: "strict_prefix b ?body"
    using assms(2,3) unfolding frame by (auto elim!: strict_prefix_appendE)
  have short: "length b < 9 + length p"
    using prefix_length_less [OF b] by simp
  have len: "read_exact 4 q = Some (?len, b)"
    by (simp add: q)
  show ?thesis
  proof (cases "length b < 9")
    case True
    with len total show ?thesis
      by (simp add: replay_wal_next_def Let_def del: of_nat_add)
  next
    case False
    then have "read_exact 9 b = Some (take 9 b, drop 9 b)"
      by (simp add: read_exact_def)
    moreover have "read_exact (length p) (drop 9 b) = None"
      using short False by (intro read_exact_short) simp
    moreover have "0 < length p"
      using short False by arith
    ultimately show ?thesis
      using len total by (simp add: replay_wal_next_def Let_def del: of_nat_add)
  qed
qed

interpretation wl: record_log wal_frame replay_wal_next replay_wal_loop "\<lambda>_. True" wal_fits
proof
  fix bs
  show "replay_wal_loop bs =
    (case replay_wal_next bs of Eof \<Rightarrow> ([], None) | Bad e \<Rightarrow> ([], Some e)
      | Got r rest \<Rightarrow> (if True then r # fst (replay_wal_loop rest) else fst (replay_wal_loop rest),
          snd (replay_wal_loop rest)))"
    by (subst replay_wal_loop.simps) (simp split: next_result.split)
qed (simp_all add: replay_wal_next_frame replay_wal_next_short replay_wal_next_torn)

lemma replay_wal_magic [simp]: "replay_wal (WAL_MAGIC @ bs) = replay_wal_loop bs"
proof -
  have "read_exact 4 (WAL_MAGIC @ bs) = Some (WAL_MAGIC, bs)"
    by (rule read_exact_append) (simp add: WAL_MAGIC_def)
  then show ?thesis by (simp add: replay_wal_def)
qed

section \<open>Lemmas: the thread\<close>

definition wal_clean :: "wal_sys \<Rightarrow> bool" where
  "wal_clean s \<longleftrightarrow> healthy (ws_file s) \<and> bw_buf (ws_writer s) = [] \<and>
     (fsync_on (ws_cfg s) \<longrightarrow> f_synced (ws_file s) = length (f_data (ws_file s)))"

lemma flush_and_sync_frame [simp]:
  "ws_cfg (flush_and_sync s) = ws_cfg s" "ws_chan (flush_and_sync s) = ws_chan s"
  "ws_cap (flush_and_sync s) = ws_cap s" "ws_running (flush_and_sync s) = ws_running s"
  "ws_alive (flush_and_sync s) = ws_alive s" "ws_acks (flush_and_sync s) = ws_acks s"
  "ws_next_reply (flush_and_sync s) = ws_next_reply s" "ws_sent (flush_and_sync s) = ws_sent s"
  "ws_received (flush_and_sync s) = ws_received s" "ws_buffer (flush_and_sync s) = []"
  by (simp_all add: flush_and_sync_def Let_def)

lemma flush_and_sync_clean:
  assumes "wal_clean s"
  shows "wal_clean (flush_and_sync s)"
    and "f_data (ws_file (flush_and_sync s)) = f_data (ws_file s) @ ws_buffer s"
proof -
  obtain ok w where w: "bw_write_all (ws_buffer s) (ws_writer s) = (ok, w)" by fastforce
  have h: "healthy (ws_file s)" and e: "bw_buf (ws_writer s) = []"
    using assms by (simp_all add: wal_clean_def)
  note wr = bw_write_all_healthy [OF h _ w]
  show "f_data (ws_file (flush_and_sync s)) = f_data (ws_file s) @ ws_buffer s"
    using wr(2,5) w e
    by (simp add: flush_and_sync_def Let_def bw_flush_def bw_flush_buf_healthy bw_sync_all_def
        file_sync_all_def healthy_def)
  show "wal_clean (flush_and_sync s)"
    using wr(2) w e assms
    by (simp add: flush_and_sync_def Let_def bw_flush_def bw_flush_buf_healthy bw_sync_all_def
        file_sync_all_def healthy_def wal_clean_def)
qed

lemma sync_if_due_cases:
  obtains "sync_if_due now s = s" | "sync_if_due now s = (flush_and_sync s)\<lparr>ws_last_sync := now\<rparr>"
proof -
  have "sync_if_due now s = s \<or> sync_if_due now s = (flush_and_sync s)\<lparr>ws_last_sync := now\<rparr>"
    by (simp add: sync_if_due_def Let_def)
  with that show thesis by blast
qed

lemma sync_if_due_frame [simp]:
  "ws_cfg (sync_if_due now s) = ws_cfg s" "ws_chan (sync_if_due now s) = ws_chan s"
  "ws_cap (sync_if_due now s) = ws_cap s" "ws_running (sync_if_due now s) = ws_running s"
  "ws_alive (sync_if_due now s) = ws_alive s" "ws_acks (sync_if_due now s) = ws_acks s"
  "ws_next_reply (sync_if_due now s) = ws_next_reply s" "ws_sent (sync_if_due now s) = ws_sent s"
  "ws_received (sync_if_due now s) = ws_received s"
  by (simp_all add: sync_if_due_def Let_def)

lemma sync_if_due_clean:
  assumes "wal_clean s"
  shows "wal_clean (sync_if_due now s)"
    and "f_data (ws_file (sync_if_due now s)) @ ws_buffer (sync_if_due now s) =
      f_data (ws_file s) @ ws_buffer s"
    and "prefix (f_data (ws_file s)) (f_data (ws_file (sync_if_due now s)))"
  using flush_and_sync_clean [OF assms] assms
  by (cases rule: sync_if_due_cases [of now s]; simp add: wal_clean_def)+

text \<open>
  The invariant: what is in the file and in the thread's buffer is the initial file followed
  by the records of the received commands, in the order received; the commands received, one
  lost at a stop at most, and the channel make up what was sent; and a reply is sent only when
  everything received before its request has reached the file.
\<close>

definition wal_log :: "bytes \<Rightarrow> wal_cmd list \<Rightarrow> bytes" where
  "wal_log init cs = init @ concat (map wal_frame (wal_recs cs))"

definition wal_acked :: "bytes \<Rightarrow> wal_sys \<Rightarrow> nat \<Rightarrow> bool" where
  "wal_acked init s t \<longleftrightarrow> (\<exists>pre c post. ws_received s = pre @ c # post \<and> c \<in> {Flush t, Shutdown t} \<and>
     prefix (wal_log init pre) (f_data (ws_file s)))"

definition wal_inv :: "bytes \<Rightarrow> wal_sys \<Rightarrow> bool" where
  "wal_inv init s \<longleftrightarrow> wal_clean s \<and>
     f_data (ws_file s) @ ws_buffer s = wal_log init (ws_received s) \<and>
     (\<exists>lost. ws_sent s = ws_received s @ lost @ ws_chan s \<and> (ws_alive s \<longrightarrow> lost = [])) \<and>
     (\<forall>t\<in>set (ws_acks s). wal_acked init s t)"

lemma wal_log_snoc [simp]:
  "wal_log init (cs @ [Insert i rec]) = wal_log init cs @ wal_frame (1, i, rec)"
  "wal_log init (cs @ [Delete i]) = wal_log init cs @ wal_frame (2, i, [])"
  "wal_log init (cs @ [Flush t]) = wal_log init cs"
  "wal_log init (cs @ [Shutdown t]) = wal_log init cs"
  by (simp_all add: wal_log_def)

lemma wal_acked_mono:
  assumes "wal_acked init s t" and "prefix (ws_received s) (ws_received s')"
    and "prefix (f_data (ws_file s)) (f_data (ws_file s'))"
  shows "wal_acked init s' t"
  using assms by (fastforce simp: wal_acked_def prefix_def)

definition wal_accounted :: "wal_sys \<Rightarrow> bool" where
  "wal_accounted s \<longleftrightarrow>
     (\<exists>lost. ws_sent s = ws_received s @ lost @ ws_chan s \<and> (ws_alive s \<longrightarrow> lost = []))"

lemma wal_invI:
  assumes "wal_clean s" and "f_data (ws_file s) @ ws_buffer s = wal_log init (ws_received s)"
    and "wal_accounted s" and "\<And>t. t \<in> set (ws_acks s) \<Longrightarrow> wal_acked init s t"
  shows "wal_inv init s"
  using assms by (simp add: wal_inv_def wal_accounted_def)

lemma wal_invD:
  assumes "wal_inv init s"
  shows "wal_clean s" and "f_data (ws_file s) @ ws_buffer s = wal_log init (ws_received s)"
    and "wal_accounted s" and "t \<in> set (ws_acks s) \<Longrightarrow> wal_acked init s t"
  using assms by (simp_all add: wal_inv_def wal_accounted_def)

lemma wal_accounted_receive:
  assumes "wal_accounted s" and "ws_alive s" and "ws_chan s = cmd # rest"
    and "ws_chan t = rest" and "ws_sent t = ws_sent s" and "ws_received t = ws_received s @ [cmd]"
  shows "wal_accounted t"
  using assms by (simp add: wal_accounted_def)

text \<open>Appending a record to the buffer and syncing if due keeps the invariant.\<close>

lemma wal_inv_buffered:
  assumes inv: "wal_inv init s" and chan: "ws_chan s = cmd # rest" and alive: "ws_alive s"
    and log: "wal_log init (ws_received s @ [cmd]) = wal_log init (ws_received s) @ b"
  defines "s1 \<equiv> s\<lparr>ws_chan := rest, ws_received := ws_received s @ [cmd], ws_buffer := ws_buffer s @ b\<rparr>"
  shows "wal_inv init (sync_if_due now s1)"
proof (rule wal_invI)
  have clean: "wal_clean s1"
    using wal_invD(1) [OF inv] by (simp add: wal_clean_def s1_def)
  note sd = sync_if_due_clean [OF clean, of now]
  show "wal_clean (sync_if_due now s1)"
    by (rule sd(1))
  have "f_data (ws_file s1) @ ws_buffer s1 = wal_log init (ws_received s @ [cmd])"
    using wal_invD(2) [OF inv] by (simp add: s1_def log flip: append_assoc)
  with sd(2) show "f_data (ws_file (sync_if_due now s1)) @ ws_buffer (sync_if_due now s1) =
      wal_log init (ws_received (sync_if_due now s1))"
    by (simp add: s1_def)
  show "wal_accounted (sync_if_due now s1)"
    by (rule wal_accounted_receive [OF wal_invD(3) [OF inv] alive chan]) (simp_all add: s1_def)
  fix t
  assume "t \<in> set (ws_acks (sync_if_due now s1))"
  then have "wal_acked init s t"
    using wal_invD(4) [OF inv] by (simp add: s1_def)
  then show "wal_acked init (sync_if_due now s1) t"
    by (rule wal_acked_mono) (use sd(3) in \<open>simp_all add: s1_def\<close>)
qed

text \<open>Writing the buffer out and replying keeps it.\<close>

lemma wal_inv_replied:
  assumes inv: "wal_inv init s" and chan: "ws_chan s = cmd # rest" and alive: "ws_alive s"
    and cmd: "cmd \<in> {Flush r, Shutdown r}"
    and t: "t = (flush_and_sync (s\<lparr>ws_chan := rest, ws_received := ws_received s @ [cmd]\<rparr>))
      \<lparr>ws_last_sync := n, ws_acks := ws_acks s @ [r], ws_alive := a\<rparr>"
  shows "wal_inv init t"
proof (rule wal_invI)
  let ?s1 = "s\<lparr>ws_chan := rest, ws_received := ws_received s @ [cmd]\<rparr>"
  have clean: "wal_clean ?s1"
    using wal_invD(1) [OF inv] by (simp add: wal_clean_def)
  note fs = flush_and_sync_clean [OF clean]
  have data: "f_data (ws_file t) = wal_log init (ws_received s)"
    using wal_invD(2) [OF inv] fs(2) by (simp add: t)
  have log: "wal_log init (ws_received s @ [cmd]) = wal_log init (ws_received s)"
    using cmd by auto
  show "wal_clean t"
    using fs(1) by (simp add: t wal_clean_def)
  show "f_data (ws_file t) @ ws_buffer t = wal_log init (ws_received t)"
    using data log by (simp add: t)
  show "wal_accounted t"
    by (rule wal_accounted_receive [OF wal_invD(3) [OF inv] alive chan]) (simp_all add: t)
  fix k
  assume "k \<in> set (ws_acks t)"
  then consider "k \<in> set (ws_acks s)" | "k = r" by (auto simp: t)
  then show "wal_acked init t k"
  proof cases
    case 1
    with wal_invD(4) [OF inv] have "wal_acked init s k" .
    then show ?thesis
      by (rule wal_acked_mono) (use data wal_invD(2) [OF inv] in \<open>simp_all add: t prefix_def\<close>, metis)
  next
    case 2
    then show ?thesis
      using cmd data unfolding wal_acked_def by (intro exI [of _ "ws_received s"]) (auto simp: t)
  qed
qed

lemma wal_inv_flush_and_stop:
  assumes inv: "wal_inv init s" and chan: "ws_chan s = cmd # rest" and alive: "ws_alive s"
    and t: "t = (flush_and_sync (s\<lparr>ws_chan := rest\<rparr>))\<lparr>ws_alive := False\<rparr>"
  shows "wal_inv init t"
proof (rule wal_invI)
  have clean: "wal_clean (s\<lparr>ws_chan := rest\<rparr>)"
    using wal_invD(1) [OF inv] by (simp add: wal_clean_def)
  note fs = flush_and_sync_clean [OF clean]
  show "wal_clean t"
    using fs(1) by (simp add: t wal_clean_def)
  show "f_data (ws_file t) @ ws_buffer t = wal_log init (ws_received t)"
    using wal_invD(2) [OF inv] fs(2) by (simp add: t)
  show "wal_accounted t"
    using wal_invD(3) [OF inv] chan alive by (auto simp: wal_accounted_def t)
  fix k
  assume "k \<in> set (ws_acks t)"
  then have "wal_acked init s k"
    using wal_invD(4) [OF inv] by (simp add: t)
  then show "wal_acked init t k"
    by (rule wal_acked_mono) (use fs(2) in \<open>simp_all add: t\<close>)
qed

lemma wal_inv_sync_if_due:
  assumes inv: "wal_inv init s"
  shows "wal_inv init (sync_if_due now s)"
proof (rule wal_invI)
  note sd = sync_if_due_clean [OF wal_invD(1) [OF inv], of now]
  show "wal_clean (sync_if_due now s)"
    by (rule sd(1))
  show "f_data (ws_file (sync_if_due now s)) @ ws_buffer (sync_if_due now s) =
      wal_log init (ws_received (sync_if_due now s))"
    using sd(2) wal_invD(2) [OF inv] by simp
  show "wal_accounted (sync_if_due now s)"
    using wal_invD(3) [OF inv] by (simp add: wal_accounted_def)
  fix k
  assume "k \<in> set (ws_acks (sync_if_due now s))"
  then have "wal_acked init s k"
    using wal_invD(4) [OF inv] by simp
  then show "wal_acked init (sync_if_due now s) k"
    by (rule wal_acked_mono) (use sd(3) in simp_all)
qed

text \<open>A change of the channel, the flags or the counters keeps it if the commands add up.\<close>

lemma wal_inv_cong:
  assumes "wal_inv init s" and "ws_cfg s' = ws_cfg s" and "ws_writer s' = ws_writer s"
    and "ws_buffer s' = ws_buffer s" and "ws_received s' = ws_received s" and "ws_acks s' = ws_acks s"
    and "wal_accounted s'"
  shows "wal_inv init s'"
  using assms by (simp add: wal_inv_def wal_clean_def wal_acked_def wal_accounted_def)

lemma wal_inv_iter:
  assumes inv: "wal_inv init s"
  shows "wal_inv init (wal_loop_iter now s)"
proof (cases "ws_alive s")
  case False
  with inv show ?thesis by (simp add: wal_loop_iter_def)
next
  case alive: True
  show ?thesis
  proof (cases "ws_chan s")
    case Nil
    have "wal_inv init (s\<lparr>ws_alive := False\<rparr>)"
      by (rule wal_inv_cong [OF inv]) (use wal_invD(3) [OF inv] in \<open>auto simp: wal_accounted_def\<close>)
    with Nil alive wal_inv_sync_if_due [OF inv] show ?thesis
      by (simp add: wal_loop_iter_def)
  next
    case (Cons cmd rest)
    note chan = Cons
    show ?thesis
    proof (cases "ws_running s")
      case False
      with chan alive show ?thesis
        by (intro wal_inv_flush_and_stop [OF inv chan alive]) (simp add: wal_loop_iter_def Let_def)
    next
      case True
      have reply: "wal_inv init (wal_loop_iter now s)" if "cmd \<in> {Flush r, Shutdown r}" for r
        by (rule wal_inv_replied [OF inv chan alive that, where n = "ws_last_sync (wal_loop_iter now s)"
              and a = "ws_alive (wal_loop_iter now s)"])
          (use True chan alive that in \<open>auto simp: wal_loop_iter_def Let_def\<close>)
      show ?thesis
      proof (cases cmd)
        case (Insert i rec)
        with wal_inv_buffered [OF inv chan alive, of "wal_frame (1, i, rec)" now] True chan alive
        show ?thesis by (simp add: wal_loop_iter_def Let_def encode_insert_frame)
      next
        case (Delete i)
        with wal_inv_buffered [OF inv chan alive, of "wal_frame (2, i, [])" now] True chan alive
        show ?thesis by (simp add: wal_loop_iter_def Let_def encode_delete_frame)
      qed (use reply in auto)
    qed
  qed
qed

lemma wal_accounted_send [simp]: "wal_accounted s \<Longrightarrow> wal_accounted (wal_send cmd s)"
  by (auto simp: wal_accounted_def wal_send_def)

lemma wal_send_frame [simp]:
  "ws_cfg (wal_send c s) = ws_cfg s" "ws_writer (wal_send c s) = ws_writer s"
  "ws_buffer (wal_send c s) = ws_buffer s" "ws_received (wal_send c s) = ws_received s"
  "ws_acks (wal_send c s) = ws_acks s" "ws_alive (wal_send c s) = ws_alive s"
  "ws_running (wal_send c s) = ws_running s" "ws_cap (wal_send c s) = ws_cap s"
  "ws_next_reply (wal_send c s) = ws_next_reply s"
  by (simp_all add: wal_send_def)

lemmas wal_call_defs =
  wal_send_insert_def wal_send_delete_def wal_flush_request_def wal_shutdown_request_def
  wal_drop_request_def Let_def

lemma wal_accounted_calls:
  assumes "wal_accounted s"
  shows "wal_accounted (wal_send_insert i rec s)" and "wal_accounted (wal_send_delete i s)"
    and "wal_accounted (wal_flush_request s)" and "wal_accounted (wal_shutdown_request s)"
    and "wal_accounted (wal_drop_request s)"
  using assms by (auto simp: wal_call_defs wal_send_def wal_accounted_def)

lemma wal_inv_calls:
  assumes "wal_inv init s"
  shows "wal_inv init (wal_send_insert i rec s)" and "wal_inv init (wal_send_delete i s)"
    and "wal_inv init (wal_flush_request s)" and "wal_inv init (wal_shutdown_request s)"
    and "wal_inv init (wal_drop_request s)"
  using wal_accounted_calls [OF wal_invD(3) [OF assms]]
  by (auto intro!: wal_inv_cong [OF assms]) (simp_all add: wal_call_defs)

lemma wal_step_inv:
  assumes "wal_step s t" and "wal_inv init s"
  shows "wal_inv init t"
  using assms
proof (induction rule: wal_step.induct)
  case (thread s now)
  then show ?case by (intro wal_inv_iter)
next
  case (end_flush s)
  then show ?case
    by (intro wal_inv_cong [OF end_flush]) (auto dest: wal_invD(3) simp: wal_accounted_def)
qed (auto intro!: wal_inv_calls)

lemma wal_reach_inv: "wal_reach s0 s \<Longrightarrow> wal_inv init s0 \<Longrightarrow> wal_inv init s"
  by (induction rule: wal_reach.induct) (auto intro: wal_step_inv)

text \<open>The bytes a log starts from: an empty file gets the magic number.\<close>

definition wal_base :: "bytes \<Rightarrow> bytes" where
  "wal_base bs = (if bs = [] then WAL_MAGIC else bs)"

lemma wal_write_magic_healthy:
  assumes "healthy (bw_file w)" and "bw_buf w = []" and "wal_write_magic w = (ok, w')"
  shows "ok" and "healthy (bw_file w')" and "bw_buf w' = []"
    and "f_data (bw_file w') = f_data (bw_file w) @ WAL_MAGIC"
    and "f_synced (bw_file w') = length (f_data (bw_file w'))"
proof -
  obtain ok1 w1 where w1: "bw_write_all WAL_MAGIC w = (ok1, w1)" by fastforce
  note wr = bw_write_all_healthy [OF assms(1) _ w1]
  have "wal_write_magic w = (True, w1\<lparr>bw_buf := [], bw_file := (bw_file w1)
      \<lparr>f_data := f_data (bw_file w1) @ bw_buf w1, f_synced := length (f_data (bw_file w1) @ bw_buf w1)\<rparr>\<rparr>)"
    using wr(1,2) assms(2)
    by (simp add: wal_write_magic_def w1 bw_flush_def bw_flush_buf_healthy bw_sync_all_def
        file_sync_all_def healthy_def)
  with assms wr(2,5) show "ok" and "healthy (bw_file w')" and "bw_buf w' = []"
    and "f_data (bw_file w') = f_data (bw_file w) @ WAL_MAGIC"
    and "f_synced (bw_file w') = length (f_data (bw_file w'))"
    by (auto simp: healthy_def)
qed

lemma wal_spawn_OkD:
  assumes "wal_spawn checks now (file_of bs) d cap = Ok s0"
  shows "bw_buf (ws_writer s0) = []" and "healthy (ws_file s0)" and "f_data (ws_file s0) = wal_base bs"
    and "f_synced (ws_file s0) = length (wal_base bs)" and "ws_buffer s0 = []"
    and "fsync_on (ws_cfg s0) = fsync_enabled d" and "ws_sent s0 = []" and "ws_received s0 = []"
    and "ws_chan s0 = []" and "ws_acks s0 = []" and "ws_running s0"
    and "ws_cfg s0 = \<lparr>batch_size = batch_bytes d, fsync_timeout = batch_timeout d, fsync_on = fsync_enabled d\<rparr>"
proof -
  obtain c where c: "usize_mul checks (batch_bytes d) 2 = Some c" and cap: "vec_capacity_ok c"
    using assms by (auto simp: wal_spawn_def split: option.splits if_splits)
  define w where "w = bw_new (unat c) (file_of bs)"
  obtain ok w' where m: "wal_write_magic w = (ok, w')" by fastforce
  have w: "healthy (bw_file w)" "bw_buf w = []"
    by (simp_all add: w_def bw_new_def)
  note wm = wal_write_magic_healthy [OF w m]
  have "s0 = \<lparr>ws_cfg = \<lparr>batch_size = batch_bytes d, fsync_timeout = batch_timeout d, fsync_on = fsync_enabled d\<rparr>,
      ws_chan = [], ws_cap = unat cap, ws_running = True, ws_pending = 0,
      ws_writer = (if bs = [] then w' else w), ws_buffer = [], ws_last_sync = now,
      ws_alive = vec_capacity_ok (batch_bytes d), ws_acks = [], ws_next_reply = 0, ws_sent = [], ws_received = []\<rparr>"
    using assms c cap m wm(1) by (auto simp: wal_spawn_def Let_def w_def)
  with w wm show "bw_buf (ws_writer s0) = []" and "healthy (ws_file s0)" and "f_data (ws_file s0) = wal_base bs"
    and "f_synced (ws_file s0) = length (wal_base bs)" and "ws_buffer s0 = []"
    and "fsync_on (ws_cfg s0) = fsync_enabled d" and "ws_sent s0 = []" and "ws_received s0 = []"
    and "ws_chan s0 = []" and "ws_acks s0 = []" and "ws_running s0"
    and "ws_cfg s0 = \<lparr>batch_size = batch_bytes d, fsync_timeout = batch_timeout d, fsync_on = fsync_enabled d\<rparr>"
    by (auto simp: wal_base_def w_def bw_new_def)
qed

lemma wal_spawn_inv:
  assumes "wal_spawn checks now (file_of bs) d cap = Ok s0"
  shows "wal_inv (wal_base bs) s0"
  using wal_spawn_OkD [OF assms]
  by (intro wal_invI) (simp_all add: wal_clean_def wal_log_def wal_accounted_def)

text \<open>While the running flag is up the thread lives and nobody has asked it to stop.\<close>

definition wal_up :: "wal_sys \<Rightarrow> bool" where
  "wal_up s \<longleftrightarrow> (ws_running s \<longrightarrow> ws_alive s \<and> (\<forall>t. Shutdown t \<notin> set (ws_sent s)))"

lemma wal_iter_frame [simp]:
  "ws_sent (wal_loop_iter now s) = ws_sent s" "ws_running (wal_loop_iter now s) = ws_running s"
  "ws_cfg (wal_loop_iter now s) = ws_cfg s" "ws_cap (wal_loop_iter now s) = ws_cap s"
  "ws_next_reply (wal_loop_iter now s) = ws_next_reply s"
  by (auto simp: wal_loop_iter_def Let_def split: list.split wal_cmd.split)

lemma wal_accounted_subset: "wal_accounted s \<Longrightarrow> set (ws_chan s) \<subseteq> set (ws_sent s)"
  by (auto simp: wal_accounted_def)

lemma wal_up_iter:
  assumes "wal_up s" and "wal_accounted s"
  shows "wal_up (wal_loop_iter now s)"
proof -
  have "\<forall>t. Shutdown t \<notin> set (ws_chan s)" if "ws_running s"
    using assms that wal_accounted_subset [OF assms(2)] by (auto simp: wal_up_def)
  then show ?thesis
    using assms(1)
    by (auto simp: wal_up_def wal_loop_iter_def Let_def split: list.split wal_cmd.split)
qed

lemma wal_up_calls:
  assumes "wal_up s"
  shows "wal_up (wal_send_insert i rec s)" and "wal_up (wal_send_delete i s)"
    and "wal_up (wal_flush_request s)" and "wal_up (wal_shutdown_request s)" and "wal_up (wal_drop_request s)"
  using assms by (auto simp: wal_up_def wal_call_defs wal_send_def)

lemma wal_step_up: "wal_step s t \<Longrightarrow> wal_inv init s \<Longrightarrow> wal_up s \<Longrightarrow> wal_up t"
  by (induction rule: wal_step.induct)
    (auto simp: wal_up_calls wal_up_iter dest: wal_invD(3), simp add: wal_up_def)

lemma wal_reach_up:
  assumes "wal_reach s0 s" and "wal_inv init s0" and "wal_up s0"
  shows "wal_up s"
  using assms by (induction rule: wal_reach.induct) (auto intro: wal_step_up wal_reach_inv)

lemma wal_spawn_up:
  assumes "wal_spawn checks now (file_of bs) d cap = Ok s0" and "vec_capacity_ok (batch_bytes d)"
  shows "wal_up s0"
proof -
  have "ws_alive s0 = vec_capacity_ok (batch_bytes d)"
    using assms by (auto simp: wal_spawn_def Let_def split: option.splits if_splits prod.splits)
  with assms wal_spawn_OkD [OF assms(1)] show ?thesis by (simp add: wal_up_def)
qed

lemma wal_spawn_ok:
  assumes "unat (batch_bytes d) < 2 ^ 62"
  shows "\<exists>s0. wal_spawn checks now (file_of bs) d cap = Ok s0" and "vec_capacity_ok (batch_bytes d)"
proof -
  have "unat (batch_bytes d * 2) = unat (batch_bytes d) * 2"
    using assms by (simp add: unat_word_ariths)
  with assms have "vec_capacity_ok (batch_bytes d * 2)" and "usize_mul checks (batch_bytes d) 2 = Some (batch_bytes d * 2)"
    by (simp_all add: vec_capacity_ok_def usize_mul_def)
  then show "\<exists>s0. wal_spawn checks now (file_of bs) d cap = Ok s0"
    using wal_write_magic_healthy(1) [of "bw_new (unat (batch_bytes d * 2)) (file_of bs)"]
    by (fastforce simp: wal_spawn_def Let_def bw_new_def split: prod.split)
  show "vec_capacity_ok (batch_bytes d)"
    using assms by (simp add: vec_capacity_ok_def)
qed

text \<open>Running the thread as often as there are commands empties the channel.\<close>

lemma wal_iter_receive:
  assumes "ws_alive s" and "ws_running s" and "ws_chan s = c # cs" and "\<forall>t. c \<noteq> Shutdown t"
  shows "ws_chan (wal_loop_iter now s) = cs" and "ws_received (wal_loop_iter now s) = ws_received s @ [c]"
    and "ws_alive (wal_loop_iter now s)"
  using assms by (cases c; simp add: wal_loop_iter_def Let_def)+

lemma wal_iters_frame [simp]:
  "ws_sent ((wal_loop_iter now ^^ n) s) = ws_sent s" "ws_cfg ((wal_loop_iter now ^^ n) s) = ws_cfg s"
  "ws_running ((wal_loop_iter now ^^ n) s) = ws_running s"
  by (induction n) simp_all

lemma wal_iter_drains:
  assumes "ws_alive s" and "ws_running s" and "ws_chan s = p @ q" and "\<forall>t. Shutdown t \<notin> set p"
  shows "ws_chan ((wal_loop_iter now ^^ length p) s) = q \<and>
    ws_received ((wal_loop_iter now ^^ length p) s) = ws_received s @ p \<and>
    ws_alive ((wal_loop_iter now ^^ length p) s)"
  using assms
proof (induction p arbitrary: s)
  case Nil
  then show ?case by simp
next
  case (Cons c p)
  then have r: "ws_chan s = c # p @ q" "\<forall>t. c \<noteq> Shutdown t" by auto
  note it = wal_iter_receive [OF Cons.prems(1,2) r, of now]
  have "\<forall>t. Shutdown t \<notin> set p" using Cons.prems(4) by auto
  from Cons.IH [OF it(3) _ it(1) this] Cons.prems(2) it(2) show ?case
    by (simp add: funpow_swap1)
qed

text \<open>The iteration that meets a flush request leaves an empty buffer and the reply.\<close>

lemma wal_drain_flush:
  assumes "ws_alive s" and "ws_running s" and "ws_chan s = p @ [Flush r]" and "\<forall>t. Shutdown t \<notin> set p"
  shows "ws_chan (wal_drain now s) = []" and "ws_received (wal_drain now s) = ws_received s @ p @ [Flush r]"
    and "ws_buffer (wal_drain now s) = []" and "r \<in> set (ws_acks (wal_drain now s))"
    and "ws_alive (wal_drain now s)"
proof -
  let ?t = "(wal_loop_iter now ^^ length p) s"
  have t: "ws_chan ?t = [Flush r]" "ws_received ?t = ws_received s @ p" "ws_alive ?t" "ws_running ?t"
    using wal_iter_drains [OF assms, of now] assms(2) by simp_all
  have "wal_drain now s = wal_loop_iter now ?t"
    by (simp add: wal_drain_def assms(3))
  with t show "ws_chan (wal_drain now s) = []" and "ws_received (wal_drain now s) = ws_received s @ p @ [Flush r]"
    and "ws_buffer (wal_drain now s) = []" and "r \<in> set (ws_acks (wal_drain now s))"
    and "ws_alive (wal_drain now s)"
    by (simp_all add: wal_loop_iter_def Let_def)
qed

lemma wal_inv_iters: "wal_inv init s \<Longrightarrow> wal_inv init ((wal_loop_iter now ^^ n) s)"
  by (induction n) (simp_all add: wal_inv_iter)

lemma wal_iter_grows:
  assumes "wal_clean s"
  shows "prefix (f_data (ws_file s)) (f_data (ws_file (wal_loop_iter now s)))"
proof -
  have clean: "wal_clean (s\<lparr>ws_chan := c, ws_received := r, ws_buffer := b\<rparr>)" for c r b
    using assms by (simp add: wal_clean_def)
  have clean': "wal_clean (s\<lparr>ws_chan := c, ws_received := r\<rparr>)" "wal_clean (s\<lparr>ws_chan := c\<rparr>)" for c r
    using assms by (simp_all add: wal_clean_def)
  show ?thesis
    using flush_and_sync_clean(2) [OF clean'(1)] flush_and_sync_clean(2) [OF clean'(2)]
      sync_if_due_clean(3) [OF clean] sync_if_due_clean(3) [OF assms]
    by (auto simp: wal_loop_iter_def Let_def split: list.split wal_cmd.split)
qed

lemma wal_reach_grows:
  assumes "wal_reach s0 s" and "wal_inv init s0"
  shows "prefix (f_data (ws_file s0)) (f_data (ws_file s)) \<and> ws_cfg s = ws_cfg s0"
  using assms
proof (induction rule: wal_reach.induct)
  case start
  then show ?case by simp
next
  case (step s t)
  have "wal_clean s"
    using step.prems step.hyps(1) by (blast intro: wal_reach_inv wal_invD(1))
  with step.hyps(2) have "prefix (f_data (ws_file s)) (f_data (ws_file t)) \<and> ws_cfg t = ws_cfg s"
    by (induction rule: wal_step.induct) (auto simp: wal_iter_grows wal_call_defs)
  with step.IH step.prems show ?case by (auto intro: prefix_order.trans)
qed

lemma wal_clean_durable:
  "wal_clean s \<Longrightarrow> fsync_on (ws_cfg s) \<Longrightarrow> durable (ws_file s) = f_data (ws_file s)"
  by (simp add: wal_clean_def durable_def)

lemma wal_accounted_prefix: "wal_accounted s \<Longrightarrow> prefix (ws_received s) (ws_sent s)"
  by (auto simp: wal_accounted_def)

lemma wal_log_prefix: "prefix cs ds \<Longrightarrow> prefix (wal_log init cs) (wal_log init ds)"
  by (auto simp: wal_log_def prefix_def)

text \<open>What the loop appends to its buffer for a run of commands.\<close>

fun encode_cmd :: "wal_cmd \<Rightarrow> bytes \<Rightarrow> bytes" where
  "encode_cmd (Insert i rec) buf = encode_insert buf i rec"
| "encode_cmd (Delete i) buf = encode_delete buf i"
| "encode_cmd (Flush r) buf = buf"
| "encode_cmd (Shutdown r) buf = buf"

lemma fold_encode_cmd: "fold encode_cmd cs buf = wal_log buf cs"
proof (induction cs arbitrary: buf)
  case Nil
  then show ?case by (simp add: wal_log_def)
next
  case (Cons c cs)
  then show ?case
    by (cases c) (simp_all add: wal_log_def encode_insert_frame encode_delete_frame)
qed

section \<open>A started thread\<close>

text \<open>The state of a thread started on a new file at level \<open>Immediate\<close>, for the witnesses.\<close>

definition wal_example :: wal_sys where
  "wal_example =
     \<lparr>ws_cfg = \<lparr>batch_size = 1, fsync_timeout = 0, fsync_on = True\<rparr>, ws_chan = [], ws_cap = 1024,
      ws_running = True, ws_pending = 0,
      ws_writer = \<lparr>bw_cap = 2, bw_buf = [], bw_file = file_of WAL_MAGIC\<rparr>, ws_buffer = [],
      ws_last_sync = 0, ws_alive = True, ws_acks = [], ws_next_reply = 0, ws_sent = [],
      ws_received = []\<rparr>"

lemma wal_example_spawned: "wal_spawn False 0 (file_of []) Immediate 1024 = Ok wal_example"
  by code_simp

lemma wal_example_capacity: "vec_capacity_ok (batch_bytes Immediate)"
  by code_simp

text \<open>Two commands sent, a flush requested, and the thread run over the first command.\<close>

definition wal_example_queued :: wal_sys where
  "wal_example_queued = wal_send_delete 9 (wal_send_insert 7 [1] wal_example)"

lemma wal_example_queued_reach: "wal_reach wal_example wal_example_queued"
proof -
  have "wal_reach wal_example (wal_send_insert 7 [1] wal_example)"
    by (rule wal_reach.step [OF wal_reach.start]) (rule wal_step.send_insert, code_simp)
  then show ?thesis
    unfolding wal_example_queued_def
    by (rule wal_reach.step) (rule wal_step.send_delete, code_simp)
qed

lemma wal_example_iter_reach: "wal_reach wal_example (wal_loop_iter 0 wal_example_queued)"
  by (rule wal_reach.step [OF wal_example_queued_reach wal_step.thread])

lemma wal_example_acked_reach:
  "wal_reach wal_example (wal_loop_iter 0 (wal_flush_request (wal_loop_iter 0 (wal_loop_iter 0 wal_example_queued))))"
proof -
  have "wal_reach wal_example (wal_loop_iter 0 (wal_loop_iter 0 wal_example_queued))"
    by (rule wal_reach.step [OF wal_example_iter_reach wal_step.thread])
  then have "wal_reach wal_example (wal_flush_request (wal_loop_iter 0 (wal_loop_iter 0 wal_example_queued)))"
    by (rule wal_reach.step) (rule wal_step.request_flush, code_simp)
  then show ?thesis
    by (rule wal_reach.step [OF _ wal_step.thread])
qed

text \<open>With a batch size of one the buffer is written out in the iteration that fills it.\<close>

lemma sync_if_due_one: "batch_size (ws_cfg s) = 1 \<Longrightarrow> ws_buffer (sync_if_due now s) = []"
  by (cases "ws_buffer s") (simp_all add: sync_if_due_def Let_def)

lemma wal_iter_unbuffered:
  "batch_size (ws_cfg s) = 1 \<Longrightarrow> ws_buffer s = [] \<Longrightarrow> ws_buffer (wal_loop_iter now s) = []"
  by (auto simp: wal_loop_iter_def Let_def sync_if_due_one split: list.split wal_cmd.split)

lemma wal_reach_unbuffered:
  "wal_reach s0 s \<Longrightarrow> batch_size (ws_cfg s0) = 1 \<Longrightarrow> ws_buffer s0 = [] \<Longrightarrow>
    ws_buffer s = [] \<and> ws_cfg s = ws_cfg s0"
proof (induction rule: wal_reach.induct)
  case (step s t)
  from step.hyps(2) show ?case
    using step.IH step.prems by cases (auto simp: wal_iter_unbuffered wal_call_defs)
qed simp

text \<open>The whole of \<open>flush\<close>, from any state that satisfies the invariant.\<close>

lemma wal_flush_from:
  assumes inv: "wal_inv base s" and "ws_alive s" and "ws_running s"
    and "\<forall>t. Shutdown t \<notin> set (ws_sent s)"
  shows "f_data (ws_file (wal_flush n s)) = wal_log base (ws_sent s)"
    and "fsync_on (ws_cfg s) \<Longrightarrow> durable (ws_file (wal_flush n s)) = wal_log base (ws_sent s)"
    and "ws_next_reply s \<in> set (ws_acks (wal_flush n s))"
    and "wal_inv base (wal_flush n s)" and "ws_alive (wal_flush n s)"
    and "ws_sent (wal_flush n s) = ws_sent s @ [Flush (ws_next_reply s)]"
proof -
  let ?t = "wal_drain n (wal_flush_request s)"
  have split: "ws_sent s = ws_received s @ ws_chan s"
    using wal_invD(3) [OF inv] assms(2) by (simp add: wal_accounted_def)
  have r: "ws_alive (wal_flush_request s)" "ws_running (wal_flush_request s)"
    "ws_chan (wal_flush_request s) = ws_chan s @ [Flush (ws_next_reply s)]" "\<forall>t. Shutdown t \<notin> set (ws_chan s)"
    using assms split by (simp_all add: wal_flush_request_def wal_send_def)
  note drained = wal_drain_flush [OF r, of n]
  have inv_t: "wal_inv base ?t"
    unfolding wal_drain_def by (intro wal_inv_iters wal_inv_calls inv)
  have data: "f_data (ws_file ?t) = wal_log base (ws_sent s)"
    using wal_invD(2) [OF inv_t] drained(2,3)
    by (simp add: split wal_flush_request_def flip: append_assoc)
  then show "f_data (ws_file (wal_flush n s)) = wal_log base (ws_sent s)"
    by (simp add: wal_flush_def)
  show "durable (ws_file (wal_flush n s)) = wal_log base (ws_sent s)" if "fsync_on (ws_cfg s)"
    using wal_clean_durable [OF wal_invD(1) [OF inv_t]] that data
    by (simp add: wal_flush_def wal_drain_def wal_flush_request_def)
  show "ws_next_reply s \<in> set (ws_acks (wal_flush n s))" and "ws_alive (wal_flush n s)"
    using drained(4,5) by (simp_all add: wal_flush_def)
  show "ws_sent (wal_flush n s) = ws_sent s @ [Flush (ws_next_reply s)]"
    using assms(2) by (simp add: wal_flush_def wal_drain_def wal_flush_request_def wal_send_def)
  show "wal_inv base (wal_flush n s)"
    by (rule wal_inv_cong [OF inv_t]) (use wal_invD(3) [OF inv_t] in \<open>simp_all add: wal_flush_def wal_accounted_def\<close>)
qed

text \<open>What the properties below share about a reachable state.\<close>

lemma wal_reach_facts:
  assumes "wal_spawn checks now (file_of bs) d cap = Ok s0" and "wal_reach s0 s"
  shows "wal_inv (wal_base bs) s" and "prefix (wal_base bs) (f_data (ws_file s))"
    and "prefix (ws_received s) (ws_sent s)" and "ws_cfg s = ws_cfg s0"
    and "d \<noteq> Async \<Longrightarrow> durable (ws_file s) = f_data (ws_file s)"
    and "vec_capacity_ok (batch_bytes d) \<Longrightarrow> wal_up s"
proof -
  have inv0: "wal_inv (wal_base bs) s0"
    by (rule wal_spawn_inv [OF assms(1)])
  show inv: "wal_inv (wal_base bs) s"
    by (rule wal_reach_inv [OF assms(2) inv0])
  show "prefix (wal_base bs) (f_data (ws_file s))" and cfg: "ws_cfg s = ws_cfg s0"
    using wal_reach_grows [OF assms(2) inv0] wal_spawn_OkD(3) [OF assms(1)] by simp_all
  show "prefix (ws_received s) (ws_sent s)"
    by (rule wal_accounted_prefix [OF wal_invD(3) [OF inv]])
  show "durable (ws_file s) = f_data (ws_file s)" if "d \<noteq> Async"
    using that cfg wal_spawn_OkD(6) [OF assms(1)] wal_clean_durable [OF wal_invD(1) [OF inv]]
    by (simp add: fsync_enabled_iff)
  show "wal_up s" if "vec_capacity_ok (batch_bytes d)"
    by (rule wal_reach_up [OF assms(2) inv0 wal_spawn_up [OF assms(1) that]])
qed

lemma wal_reach_acked:
  assumes "wal_spawn checks now (file_of bs) d cap = Ok s0" and "wal_reach s0 s"
    and "d \<noteq> Async" and "t \<in> set (ws_acks s)"
  shows "\<exists>pre c post. ws_sent s = pre @ c # post \<and> c \<in> {Flush t, Shutdown t} \<and>
    prefix (wal_log (wal_base bs) pre) (durable (ws_file s))"
  using wal_invD(4) [OF wal_reach_facts(1) [OF assms(1,2)] assms(4)]
    wal_reach_facts(3) [OF assms(1,2)] wal_reach_facts(5) [OF assms(1,2,3)]
  by (fastforce simp: wal_acked_def prefix_def)

text \<open>
  Recovery after a crash, from any state in which nothing has been lost: the file found
  afterwards is any extension of its durable part by bytes that were being written.
\<close>

lemma wal_base_log: "wal_base (fold encode_cmd cs WAL_MAGIC) = wal_log WAL_MAGIC cs"
  by (simp add: wal_base_def fold_encode_cmd wal_log_def WAL_MAGIC_def)

lemma wal_log_records:
  "wal_log (wal_log WAL_MAGIC cs) ds = WAL_MAGIC @ concat (map wal_frame (wal_recs (cs @ ds)))"
  by (simp add: wal_log_def)

lemma wal_acked_kept:
  assumes inv: "wal_inv (wal_log WAL_MAGIC cs) s" and "t \<in> set (ws_acks s)"
    and p: "prefix (f_data (ws_file s)) (WAL_MAGIC @ q)"
    and fits: "\<forall>r\<in>set (wal_recs (cs @ ws_sent s)). wal_fits r"
  shows "\<exists>pre c post. ws_sent s = pre @ c # post \<and> c \<in> {Flush t, Shutdown t} \<and>
    prefix (wal_recs (cs @ pre)) (fst (replay_wal (WAL_MAGIC @ q)))"
proof -
  from wal_invD(4) [OF inv assms(2)] obtain pre c post
    where recv: "ws_received s = pre @ c # post" "c \<in> {Flush t, Shutdown t}"
      and "prefix (wal_log (wal_log WAL_MAGIC cs) pre) (f_data (ws_file s))"
    by (auto simp: wal_acked_def)
  with p have "prefix (wal_log (wal_log WAL_MAGIC cs) pre) (WAL_MAGIC @ q)"
    by (blast intro: prefix_order.trans)
  then have "prefix (concat (map wal_frame (wal_recs (cs @ pre)))) q"
    by (simp only: wal_log_records same_prefix_prefix)
  moreover obtain more where sent: "ws_sent s = ws_received s @ more"
    using wal_invD(3) [OF inv] by (auto simp: wal_accounted_def)
  moreover have "\<forall>r\<in>set (wal_recs (cs @ pre)). wal_fits r"
    using fits by (auto simp: sent recv(1))
  ultimately have "prefix (wal_recs (cs @ pre)) (fst (replay_wal (WAL_MAGIC @ q)))"
    using wl.replay_keeps by fastforce
  with sent recv show ?thesis by auto
qed

lemma wal_crash_from:
  assumes inv: "wal_inv (wal_log WAL_MAGIC cs) s"
    and grown: "prefix (wal_log WAL_MAGIC cs) (f_data (ws_file s))"
    and dur: "durable (ws_file s) = f_data (ws_file s)"
    and fits: "\<forall>r\<in>set (wal_recs (cs @ ws_sent s)). wal_fits r"
    and crash: "prefix (durable (ws_file s)) p" "prefix p (f_data (ws_file s) @ ws_buffer s)"
  shows "\<exists>k e. replay_wal p = (take k (wal_recs (cs @ ws_sent s)), e) \<and>
    e \<in> {None, Some UnexpectedEof} \<and>
    (\<forall>t\<in>set (ws_acks s). \<exists>pre c post. ws_sent s = pre @ c # post \<and> c \<in> {Flush t, Shutdown t} \<and>
       length (wal_recs (cs @ pre)) \<le> k)"
proof -
  let ?all = "wal_recs (cs @ ws_sent s)"
  have "prefix WAL_MAGIC p"
    using grown crash(1) dur by (auto simp: wal_log_def elim!: prefix_order.trans prefixE)
  then obtain q where p: "p = WAL_MAGIC @ q" by (auto elim: prefixE)
  have "prefix (ws_received s) (ws_sent s)"
    using wal_accounted_prefix [OF wal_invD(3) [OF inv]] .
  then have "prefix p (wal_log (wal_log WAL_MAGIC cs) (ws_sent s))"
    using crash(2) wal_invD(2) [OF inv] wal_log_prefix by (metis prefix_order.trans)
  then have "prefix q (concat (map wal_frame ?all))"
    by (simp only: p wal_log_records same_prefix_prefix)
  from wl.replay_prefix [OF fits this] obtain k e
    where k: "replay_wal p = (take k ?all, e)" "e \<in> {None, Some UnexpectedEof}" "k \<le> length ?all"
    by (auto simp: p)
  have "\<exists>pre c post. ws_sent s = pre @ c # post \<and> c \<in> {Flush t, Shutdown t} \<and> length (wal_recs (cs @ pre)) \<le> k"
    if t: "t \<in> set (ws_acks s)" for t
  proof -
    obtain pre c post where split: "ws_sent s = pre @ c # post" "c \<in> {Flush t, Shutdown t}"
      "prefix (wal_recs (cs @ pre)) (fst (replay_wal p))"
      using wal_acked_kept [OF inv t _ fits, of q] crash(1) dur by (auto simp: p)
    have "length (wal_recs (cs @ pre)) \<le> length (take k ?all)"
      using split(3) unfolding k(1) fst_conv by (rule prefix_length_le)
    then have "length (wal_recs (cs @ pre)) \<le> k" by simp
    with split show ?thesis by blast
  qed
  with k show ?thesis by blast
qed

text \<open>A thread whose device is full, with bytes to write and a flush request.\<close>

definition wal_example_full :: wal_sys where
  "wal_example_full =
     wal_example\<lparr>ws_buffer := [1, 2, 3], ws_chan := [Flush 5],
       ws_writer := (ws_writer wal_example)\<lparr>bw_file := (file_of WAL_MAGIC)\<lparr>f_space := Some 0\<rparr>\<rparr>\<rparr>"

section \<open>Properties\<close>

text \<open>
  C22. G1, write ordering: in every state that any interleaving of business threads and the WAL
  thread can reach, on a device without errors, the log file followed by the thread's buffer is
  the file the thread was started on followed by the encoded records of an initial run of the
  commands sent, in the order they were sent; nothing is reordered, duplicated or dropped.
\<close>

theorem wal_write_order:
  assumes "wal_spawn checks now (file_of bs) d cap = Ok s0" and "wal_reach s0 s"
  shows "\<exists>pre. prefix pre (ws_sent s) \<and>
    f_data (ws_file s) @ ws_buffer s = wal_log (wal_base bs) pre"
  using wal_reach_facts(1,3) [OF assms] wal_invD(2) by blast

theorem wal_write_order_witness:
  "wal_spawn False 0 (file_of []) Immediate 1024 = Ok wal_example \<and>
   wal_reach wal_example (wal_loop_iter 0 wal_example_queued) \<and>
   (\<exists>pre. prefix pre (ws_sent (wal_loop_iter 0 wal_example_queued)) \<and>
     f_data (ws_file (wal_loop_iter 0 wal_example_queued)) @ ws_buffer (wal_loop_iter 0 wal_example_queued) =
       wal_log (wal_base []) pre)"
  using wal_write_order [OF wal_example_spawned wal_example_iter_reach]
    wal_example_spawned wal_example_iter_reach by blast

text \<open>
  G2, \<open>flush\<close> is the sync point: whenever the thread has answered a flush (or shutdown)
  request, everything sent before that request is in the durable part of the file, as long as
  the durability level is not \<open>Async\<close>.
\<close>

theorem wal_flush_durable:
  assumes "wal_spawn checks now (file_of bs) d cap = Ok s0" and "wal_reach s0 s"
    and "d \<noteq> Async" and "t \<in> set (ws_acks s)"
  shows "\<exists>pre c post. ws_sent s = pre @ c # post \<and> c \<in> {Flush t, Shutdown t} \<and>
    prefix (wal_log (wal_base bs) pre) (durable (ws_file s))"
  by (rule wal_reach_acked [OF assms])

theorem wal_flush_durable_witness:
  "\<exists>s. wal_reach wal_example s \<and> 0 \<in> set (ws_acks s) \<and> ws_sent s = [Insert 7 [1], Delete 9, Flush 0] \<and>
   (\<exists>pre c post. ws_sent s = pre @ c # post \<and> c \<in> {Flush 0, Shutdown 0} \<and>
     prefix (wal_log (wal_base []) pre) (durable (ws_file s)))"
proof -
  let ?s = "wal_loop_iter 0 (wal_flush_request (wal_loop_iter 0 (wal_loop_iter 0 wal_example_queued)))"
  have ack: "0 \<in> set (ws_acks ?s)" and sent: "ws_sent ?s = [Insert 7 [1], Delete 9, Flush 0]"
    by code_simp+
  show ?thesis
    using wal_flush_durable [OF wal_example_spawned wal_example_acked_reach _ ack] ack sent
      wal_example_acked_reach by (intro exI [of _ ?s]) simp
qed

text \<open>
  C7. The call \<open>flush\<close> as a whole: from every reachable state in which the handle has not
  been stopped, the thread answers after as many iterations as the channel holds commands, and
  then the durable file is the starting file followed by all commands ever sent.
\<close>

theorem wal_flush_complete:
  assumes "wal_spawn checks now (file_of bs) d cap = Ok s0" and "vec_capacity_ok (batch_bytes d)"
    and "wal_reach s0 s" and "ws_running s" and "d \<noteq> Async"
  shows "durable (ws_file (wal_flush n s)) = wal_log (wal_base bs) (ws_sent s) \<and>
    ws_next_reply s \<in> set (ws_acks (wal_flush n s))"
proof -
  have up: "ws_alive s" "\<forall>t. Shutdown t \<notin> set (ws_sent s)"
    using wal_reach_facts(6) [OF assms(1,3,2)] assms(4) by (simp_all add: wal_up_def)
  note inv = wal_reach_facts(1) [OF assms(1,3)]
  have "fsync_on (ws_cfg s)"
    using wal_reach_facts(4) [OF assms(1,3)] wal_spawn_OkD(6) [OF assms(1)] assms(5)
    by (simp add: fsync_enabled_iff)
  with wal_flush_from [OF inv up(1) assms(4) up(2), of n] show ?thesis by simp
qed

theorem wal_flush_complete_witness:
  "ws_running wal_example_queued \<and>
   durable (ws_file (wal_flush 0 wal_example_queued)) =
     WAL_MAGIC @ [10, 0, 0, 0, 1, 7, 0, 0, 0, 0, 0, 0, 0, 1] @ [9, 0, 0, 0, 2, 9, 0, 0, 0, 0, 0, 0, 0]"
proof -
  have run: "ws_running wal_example_queued" by code_simp
  have log: "wal_log (wal_base []) (ws_sent wal_example_queued) =
      WAL_MAGIC @ [10, 0, 0, 0, 1, 7, 0, 0, 0, 0, 0, 0, 0, 1] @ [9, 0, 0, 0, 2, 9, 0, 0, 0, 0, 0, 0, 0]"
    by code_simp
  show ?thesis
    using wal_flush_complete [OF wal_example_spawned wal_example_capacity wal_example_queued_reach run, of 0]
      run by (simp only: log) simp
qed

text \<open>
  Round trip of the log: what the encoders append to the magic number for any sequence of
  commands is replayed as exactly the records of those commands, in order and without error,
  provided every payload is shorter than \<open>2 ^ 32 - 9\<close> bytes (the length is cast to \<open>u32\<close>).
\<close>

theorem replay_wal_roundtrip:
  assumes "\<forall>r\<in>set (wal_recs cs). wal_fits r"
  shows "replay_wal (fold encode_cmd cs WAL_MAGIC) = (wal_recs cs, None)"
  using wl.replay_frames [OF assms] by (simp add: fold_encode_cmd wal_log_def)

theorem replay_wal_roundtrip_witness:
  "replay_wal (fold encode_cmd [Insert 7 [1], Flush 0, Delete 9] WAL_MAGIC) =
     ([(1, 7, [1]), (2, 9, [])], None)"
proof -
  have fits: "\<forall>r\<in>set (wal_recs [Insert 7 [1], Flush 0, Delete 9]). wal_fits r"
    by code_simp
  show ?thesis
    using replay_wal_roundtrip [OF fits] by simp
qed

text \<open>
  C38. A log cut inside its last record, whether it is an insertion or a deletion, whose records are
  all shorter than \<open>2 ^ 32 - 9\<close> bytes: if fewer than four bytes of the last record are there (inside
  its length field), replay ends normally with the records before it; if four or more are there,
  replay hands on the records before it and then fails with \<open>UnexpectedEof\<close>.
\<close>

theorem replay_wal_torn_tail:
  assumes "\<forall>r\<in>set (wal_recs (cs @ [cmd])). wal_fits r" and "strict_prefix q (encode_cmd cmd [])"
  shows "replay_wal (fold encode_cmd cs WAL_MAGIC @ q) =
    (wal_recs cs, if length q < 4 then None else Some UnexpectedEof)"
proof -
  obtain r where r: "wal_recs [cmd] = [r]" "encode_cmd cmd [] = wal_frame r"
    using assms(2) by (cases cmd) (auto simp: encode_insert_frame encode_delete_frame)
  then show ?thesis
    using wl.replay_torn [of "wal_recs cs" r q] assms by (simp add: fold_encode_cmd wal_log_def)
qed

theorem replay_wal_torn_tail_witness:
  "strict_prefix [9, 0, 0, 0, 2, 7] (encode_cmd (Delete 7) []) \<and>
   replay_wal (fold encode_cmd [Insert 9 [1], Flush 0] WAL_MAGIC @ [9, 0, 0, 0, 2, 7]) =
     ([(1, 9, [1])], Some UnexpectedEof) \<and>
   replay_wal (fold encode_cmd [Insert 9 [1], Flush 0] WAL_MAGIC @ [10, 0, 0]) = ([(1, 9, [1])], None)"
proof -
  have fits: "\<forall>r\<in>set (wal_recs ([Insert 9 [1], Flush 0] @ [Delete 7])). wal_fits r"
    "\<forall>r\<in>set (wal_recs ([Insert 9 [1], Flush 0] @ [Insert 7 [1]])). wal_fits r"
    by code_simp+
  have cut: "strict_prefix [9, 0, 0, 0, 2, 7] (encode_cmd (Delete 7) [])"
    "strict_prefix [10, 0, 0] (encode_cmd (Insert 7 [1]) [])"
    by code_simp+
  show ?thesis
    using replay_wal_torn_tail [OF fits(1) cut(1)] replay_wal_torn_tail [OF fits(2) cut(2)] cut(1) by simp
qed

lemma wal_example_respawned: "wal_spawn False 0 (file_of (fold encode_cmd [] WAL_MAGIC)) Immediate 1024 = Ok wal_example"
  by code_simp


text \<open>
  The crash window of level \<open>Immediate\<close> is exactly the channel: in every reachable state
  all commands the thread has received are durable. A call such as \<open>insert_node\<close> returns when
  its command has entered the channel, so what is still in the channel is not yet durable.
\<close>

theorem wal_immediate_window:
  assumes "wal_spawn checks now (file_of bs) Immediate cap = Ok s0" and "wal_reach s0 s"
  shows "durable (ws_file s) = wal_log (wal_base bs) (ws_received s)"
proof -
  have "batch_size (ws_cfg s0) = 1"
    using wal_spawn_OkD(12) [OF assms(1)] by simp
  then have "ws_buffer s = []"
    using wal_reach_unbuffered [OF assms(2)] wal_spawn_OkD(5) [OF assms(1)] by simp
  then show ?thesis
    using wal_reach_facts(1,5) [OF assms] wal_invD(2) by fastforce
qed

theorem wal_immediate_window_witness:
  "ws_chan wal_example_queued = [Insert 7 [1], Delete 9] \<and>
   durable (ws_file wal_example_queued) = wal_log (wal_base []) (ws_received wal_example_queued)"
proof -
  have "ws_chan wal_example_queued = [Insert 7 [1], Delete 9]" by code_simp
  then show ?thesis
    using wal_immediate_window [OF wal_example_spawned wal_example_queued_reach] by blast
qed

text \<open>
  Dropping the handle does not drain the channel: the thread sees the cleared flag at the
  next command, writes out its buffer and returns. What reached the file is what it had received
  before; every command still in the channel is lost.
\<close>

theorem wal_drop_discards_channel:
  assumes "wal_spawn checks now (file_of bs) d cap = Ok s0" and "wal_reach s0 s"
    and "ws_alive s" and "0 < ws_cap s"
  shows "\<not> ws_alive (wal_drop n s) \<and>
    f_data (ws_file (wal_drop n s)) = wal_log (wal_base bs) (ws_received s)"
proof -
  have "ws_chan (wal_drop_request s) \<noteq> []"
    using assms(3,4) by (auto simp: wal_drop_request_def wal_send_def Let_def)
  then obtain c cs where chan: "ws_chan (wal_drop_request s) = c # cs"
    by (auto simp: neq_Nil_conv)
  have stop: "wal_drop n s = (flush_and_sync ((wal_drop_request s)\<lparr>ws_chan := cs\<rparr>))\<lparr>ws_alive := False\<rparr>"
    using chan assms(3) by (simp add: wal_drop_def wal_loop_iter_def Let_def) (simp add: wal_call_defs)
  have "wal_clean ((wal_drop_request s)\<lparr>ws_chan := cs\<rparr>)"
    using wal_invD(1) [OF wal_reach_facts(1) [OF assms(1,2)]] by (simp add: wal_clean_def wal_call_defs)
  from flush_and_sync_clean(2) [OF this] show ?thesis
    using wal_invD(2) [OF wal_reach_facts(1) [OF assms(1,2)]] by (simp add: stop) (simp add: wal_call_defs)
qed

theorem wal_drop_discards_channel_witness:
  "ws_sent wal_example_queued = [Insert 7 [1], Delete 9] \<and>
   f_data (ws_file (wal_drop 0 wal_example_queued)) = WAL_MAGIC"
proof -
  have h: "ws_alive wal_example_queued" "0 < ws_cap wal_example_queued"
    "ws_sent wal_example_queued = [Insert 7 [1], Delete 9]"
    "wal_log (wal_base []) (ws_received wal_example_queued) = WAL_MAGIC"
    by code_simp+
  show ?thesis
    using wal_drop_discards_channel [OF wal_example_spawned wal_example_queued_reach h(1,2), of 0] h(3,4)
    by simp
qed

text \<open>
  Starting a WAL thread panics exactly when twice the batch size does not fit: with overflow
  checks from \<open>2 ^ 63\<close> on, and in both build profiles from \<open>2 ^ 62\<close> up to \<open>2 ^ 63\<close> (the
  capacity would exceed \<open>isize::MAX\<close>); without checks the product wraps. Level \<open>Async\<close>, whose
  batch size is \<open>usize::MAX\<close>, panics in both.
\<close>

theorem wal_spawn_panics_iff:
  "(wal_spawn checks now f d cap = Panicked \<longleftrightarrow>
     (checks \<and> 2 ^ 63 \<le> unat (batch_bytes d)) \<or> 2 ^ 62 \<le> unat (batch_bytes d) mod 2 ^ 63) \<and>
   wal_spawn checks now f (durability consistency_high_throughput) cap = Panicked"
proof -
  have iff: "wal_spawn checks now f d cap = Panicked \<longleftrightarrow>
      (checks \<and> 2 ^ 63 \<le> unat (batch_bytes d)) \<or> 2 ^ 62 \<le> unat (batch_bytes d) mod 2 ^ 63" for d
  proof -
    have "2 * (unat (batch_bytes d) mod 2 ^ 63) = 2 * unat (batch_bytes d) mod (2 * 2 ^ 63)"
      by (rule mult_mod_right)
    then have "unat (batch_bytes d * 2) = 2 * (unat (batch_bytes d) mod 2 ^ 63)"
      by (simp add: unat_word_ariths mult.commute)
    then show ?thesis
      by (auto simp: wal_spawn_def usize_mul_def vec_capacity_ok_def Let_def split: prod.split)
  qed
  show ?thesis
    using iff [of d] iff [of Async] by (simp add: consistency_defs USIZE_MAX_def)
qed

text \<open>
  C40. A full device goes unnoticed by callers: when the device has no space left, the buffer holds records and
  a flush request is next in the channel, the thread's next iteration clears the buffer, resets the
  counter of pending bytes and answers the request, although the file holds only what it held before.
\<close>

theorem wal_flush_acks_on_full_disk:
  assumes "ws_alive s" and "ws_running s" and "ws_chan s = Flush r # cmds"
    and "f_space (ws_file s) = Some 0" and "ws_buffer s \<noteq> []"
  shows "r \<in> set (ws_acks (wal_loop_iter now s)) \<and> ws_buffer (wal_loop_iter now s) = [] \<and>
    ws_pending (wal_loop_iter now s) = 0 \<and>
    f_data (ws_file (wal_loop_iter now s)) = f_data (ws_file s)"
proof -
  note full = bw_flush_buf_full [OF conjunct2 [OF bw_write_all_full [OF assms(4), of "ws_buffer s"]]]
  show ?thesis
    using assms full bw_write_all_full [OF assms(4), of "ws_buffer s"]
    by (simp add: wal_loop_iter_def flush_and_sync_def bw_flush_def bw_sync_all_def file_sync_all_def Let_def)
qed

theorem wal_flush_acks_on_full_disk_witness:
  "5 \<in> set (ws_acks (wal_loop_iter 0 wal_example_full)) \<and> ws_buffer wal_example_full \<noteq> [] \<and>
   f_data (ws_file (wal_loop_iter 0 wal_example_full)) = WAL_MAGIC"
proof -
  have h: "ws_alive wal_example_full" "ws_running wal_example_full" "ws_chan wal_example_full = [Flush 5]"
    "f_space (ws_file wal_example_full) = Some 0" "ws_buffer wal_example_full \<noteq> []"
    "f_data (ws_file wal_example_full) = WAL_MAGIC"
    by code_simp+
  show ?thesis
    using wal_flush_acks_on_full_disk [OF h(1-5), of 0] h(5,6) by simp
qed

end
