(* ===== verification/Logged_Store.thy ===== *)
theory Logged_Store
  imports Wal_Thread
begin

text \<open>
  The interface between a store and its write-ahead log, shared by \<^verbatim>\<open>node_store.rs\<close>,
  \<^verbatim>\<open>edge_store.rs\<close> and \<^verbatim>\<open>prop_store.rs\<close>. Each store keeps its contents in memory,
  sends every change to its WAL thread and rebuilds the contents from the log when it is opened.
  The locale \<open>recoverable_store\<close> states that contract: what an operation does to the contents
  is what replaying the commands it sent would do, and opening replays. Recovery after a flush
  and recovery after a crash follow once for all stores. The locale \<open>id_allocator\<close> is the
  second interface the stores share: the free list and the counter behind \<open>alloc_id\<close>.

  A store's operation and the sends in it are one step here; the blocking \<open>send\<close> on a full
  channel is a step that happens once the thread has made room, so that iterations of the
  thread can fall between any two operations.
\<close>

section \<open>What a store does to its log\<close>

inductive wal_does :: "wal_sys \<Rightarrow> wal_cmd list \<Rightarrow> wal_sys \<Rightarrow> bool" for w where
  nothing: "wal_does w [] w"
| insert: "wal_does w cs v \<Longrightarrow> wal_does w (cs @ [Insert i rec]) (wal_send_insert i rec v)"
| delete: "wal_does w cs v \<Longrightarrow> wal_does w (cs @ [Delete i]) (wal_send_delete i v)"
| request: "wal_does w cs v \<Longrightarrow> wal_does w (cs @ [Flush (ws_next_reply v)]) (wal_flush_request v)"
| reset: "wal_does w cs v \<Longrightarrow> wal_does w cs (v\<lparr>ws_pending := 0\<rparr>)"
| iterate: "wal_does w cs v \<Longrightarrow> wal_does w cs (wal_loop_iter now v)"

lemma wal_does_trans: "wal_does v ds x \<Longrightarrow> wal_does w cs v \<Longrightarrow> wal_does w (cs @ ds) x"
  by (induction rule: wal_does.induct)
    (simp, simp_all add: wal_does.intros append_assoc [symmetric] del: append_assoc)

lemma wal_does_iterate: "wal_does w cs v \<Longrightarrow> wal_does w cs ((wal_loop_iter now ^^ n) v)"
  by (induction n) (simp_all add: wal_does.iterate)

lemma wal_does_flush: "wal_does w [Flush (ws_next_reply w)] (wal_flush now w)"
proof -
  have "wal_does w ([] @ [Flush (ws_next_reply w)]) (wal_flush_request w)"
    by (rule wal_does.request [OF wal_does.nothing])
  then show ?thesis
    unfolding wal_flush_def wal_drain_def by (intro wal_does.reset wal_does_iterate) simp
qed

text \<open>A log whose handle has not been stopped stays so and loses nothing.\<close>

definition wal_open :: "bytes \<Rightarrow> wal_sys \<Rightarrow> bool" where
  "wal_open base w \<longleftrightarrow> wal_inv base w \<and> ws_running w \<and> wal_up w \<and> prefix base (f_data (ws_file w))"

lemma wal_open_alive: "wal_open base w \<Longrightarrow> ws_alive w"
  by (simp add: wal_open_def wal_up_def)

lemma wal_open_reset: "wal_open base v \<Longrightarrow> wal_open base (v\<lparr>ws_pending := 0\<rparr>)"
  using wal_inv_cong [of base v "v\<lparr>ws_pending := 0\<rparr>"] wal_invD(3) [of base v]
  by (simp add: wal_open_def wal_up_def wal_accounted_def)

lemma wal_open_iter: "wal_open base v \<Longrightarrow> wal_open base (wal_loop_iter now v)"
  using wal_invD(3) [of base v] wal_iter_grows [OF wal_invD(1) [of base v], of now]
  by (auto simp: wal_open_def wal_inv_iter wal_up_iter intro: prefix_order.trans)

lemma wal_open_calls:
  assumes "wal_open base v"
  shows "wal_open base (wal_send_insert i rec v)" and "wal_open base (wal_send_delete i v)"
    and "wal_open base (wal_flush_request v)"
    and "ws_sent (wal_send_insert i rec v) = ws_sent v @ [Insert i rec]"
    and "ws_sent (wal_send_delete i v) = ws_sent v @ [Delete i]"
    and "ws_sent (wal_flush_request v) = ws_sent v @ [Flush (ws_next_reply v)]"
    and "ws_cfg (wal_send_insert i rec v) = ws_cfg v" and "ws_cfg (wal_send_delete i v) = ws_cfg v"
    and "ws_cfg (wal_flush_request v) = ws_cfg v"
  using assms wal_open_alive [OF assms]
  by (simp_all add: wal_open_def wal_inv_calls wal_up_calls) (simp_all add: wal_call_defs wal_send_def)

lemma wal_does_open:
  assumes "wal_does w cs v" and "wal_open base w"
  shows "wal_open base v \<and> ws_sent v = ws_sent w @ cs \<and> ws_cfg v = ws_cfg w"
  using assms
  by (induction rule: wal_does.induct) (simp_all add: wal_open_calls [where base = base] wal_open_reset wal_open_iter)

lemma wal_spawn_open:
  assumes "wal_spawn checks now (file_of bs) d cap = Ok w" and "vec_capacity_ok (batch_bytes d)"
  shows "wal_open (wal_base bs) w"
  using wal_spawn_inv [OF assms(1)] wal_spawn_up [OF assms] wal_spawn_OkD(3,11) [OF assms(1)]
  by (simp add: wal_open_def)

text \<open>A thread that could be started once can be started again on the file it left.\<close>

lemma wal_spawn_again:
  assumes "wal_spawn checks now f d cap = Ok w" and "bs \<noteq> []"
  shows "\<exists>w'. wal_spawn checks now (file_of bs) d cap = Ok w'"
  using assms by (auto simp: wal_spawn_def Let_def split: option.splits if_splits)

section \<open>Logged changes\<close>

text \<open>
  The change from \<open>s\<close> to \<open>s'\<close> is logged: the commands sent on the way, replayed on the
  contents before, give the contents after.
\<close>

definition logged ::
  "('s \<Rightarrow> 'm) \<Rightarrow> ('s \<Rightarrow> wal_sys option) \<Rightarrow> (wal_rec \<Rightarrow> 'm \<Rightarrow> 'm) \<Rightarrow> 's \<Rightarrow> 's \<Rightarrow> bool" where
  "logged contents wal_of apply_rec s s' \<longleftrightarrow>
     (\<forall>w. wal_of s = Some w \<longrightarrow>
       (\<exists>w' cs. wal_of s' = Some w' \<and> wal_does w cs w' \<and>
         contents s' = fold apply_rec (wal_recs cs) (contents s)))"

lemma loggedI:
  assumes "\<And>w. wal_of s = Some w \<Longrightarrow> \<exists>w' cs. wal_of s' = Some w' \<and> wal_does w cs w' \<and>
    contents s' = fold apply_rec (wal_recs cs) (contents s)"
  shows "logged contents wal_of apply_rec s s'"
  using assms by (simp add: logged_def)

lemma logged_refl: "contents s' = contents s \<Longrightarrow> wal_of s' = wal_of s \<Longrightarrow> logged contents wal_of f s s'"
  by (auto simp: logged_def intro!: exI [of _ "[]"] wal_does.nothing)

lemma logged_trans:
  assumes "logged contents wal_of f s t" and "logged contents wal_of f t u"
  shows "logged contents wal_of f s u"
proof (rule loggedI)
  fix w assume "wal_of s = Some w"
  with assms(1) obtain w' cs where 1: "wal_of t = Some w'" "wal_does w cs w'"
    "contents t = fold f (wal_recs cs) (contents s)" by (auto simp: logged_def)
  with assms(2) obtain w'' ds where "wal_of u = Some w''" "wal_does w' ds w''"
    "contents u = fold f (wal_recs ds) (contents t)" by (auto simp: logged_def)
  with 1 wal_does_trans [of w' ds w'' w cs]
  show "\<exists>w' cs. wal_of u = Some w' \<and> wal_does w cs w' \<and> contents u = fold f (wal_recs cs) (contents s)"
    by (intro exI [of _ w''] exI [of _ "cs @ ds"]) simp
qed

lemma logged_fold:
  assumes "\<And>x s. logged contents wal_of f s (step x s)"
  shows "logged contents wal_of f s (fold step xs s)"
  by (induction xs arbitrary: s) (auto intro: logged_refl logged_trans assms)

text \<open>The records of a store of keyed values: insert replaces, delete removes.\<close>

definition kv_apply :: "'v codec \<Rightarrow> wal_rec \<Rightarrow> (u64 \<rightharpoonup> 'v) \<Rightarrow> (u64 \<rightharpoonup> 'v)" where
  "kv_apply c r m =
     (case r of (opcode, i, payload) \<Rightarrow>
       if opcode = 1 then (case de c payload of Some v \<Rightarrow> m(i \<mapsto> v) | None \<Rightarrow> m)
       else if opcode = 2 then m(i := None)
       else m)"

lemma kv_logged_put:
  assumes "codec_ok c" and "contents s' = (contents s)(i \<mapsto> v)"
    and "\<And>w b. wal_of s = Some w \<Longrightarrow> ser c v = Some b \<Longrightarrow> wal_of s' = Some (wal_send_insert i b w)"
  shows "logged contents wal_of (kv_apply c) s s'"
proof (rule loggedI)
  fix w assume w: "wal_of s = Some w"
  obtain b where b: "ser c v = Some b" "de c b = Some v"
    using codec_okD [OF assms(1)] by blast
  have "wal_does w [Insert i b] (wal_send_insert i b w)"
    using wal_does.insert [OF wal_does.nothing] by simp
  then show "\<exists>w' cs. wal_of s' = Some w' \<and> wal_does w cs w' \<and>
      contents s' = fold (kv_apply c) (wal_recs cs) (contents s)"
    using assms(2,3) b w
    by (intro exI [of _ "wal_send_insert i b w"] exI [of _ "[Insert i b]"]) (simp add: kv_apply_def)
qed

lemma kv_logged_del:
  assumes "contents s' = (contents s)(i := None)"
    and "\<And>w. wal_of s = Some w \<Longrightarrow> wal_of s' = Some (wal_send_delete i w)"
  shows "logged contents wal_of (kv_apply c) s s'"
proof (rule loggedI)
  fix w assume w: "wal_of s = Some w"
  have "wal_does w [Delete i] (wal_send_delete i w)"
    using wal_does.delete [OF wal_does.nothing] by simp
  then show "\<exists>w' cs. wal_of s' = Some w' \<and> wal_does w cs w' \<and>
      contents s' = fold (kv_apply c) (wal_recs cs) (contents s)"
    using assms w
    by (intro exI [of _ "wal_send_delete i w"] exI [of _ "[Delete i]"]) (simp add: kv_apply_def)
qed

text \<open>Flushing and an iteration of the thread leave the contents as they are.\<close>

lemma logged_flush:
  assumes "contents s' = contents s" and "wal_of s' = map_option (wal_flush now) (wal_of s)"
  shows "logged contents wal_of f s s'"
  using assms wal_does_flush by (fastforce intro!: loggedI)

lemma logged_thread:
  assumes "contents s' = contents s" and "wal_of s' = map_option (wal_loop_iter now) (wal_of s)"
  shows "logged contents wal_of f s s'"
  using assms wal_does.iterate [OF wal_does.nothing] by (fastforce intro!: loggedI)

section \<open>Changes that log what they touch\<close>

text \<open>
  A stronger contract, for contents that are maps: whatever the log said before (\<open>l\<close>), at every key the
  change either makes the log say what memory says or leaves both as they are. Such changes stay right when
  memory has been written behind the log's back.
\<close>

definition synced ::
  "('s \<Rightarrow> 'k \<rightharpoonup> 'v) \<Rightarrow> ('s \<Rightarrow> wal_sys option) \<Rightarrow> (wal_rec \<Rightarrow> ('k \<rightharpoonup> 'v) \<Rightarrow> ('k \<rightharpoonup> 'v)) \<Rightarrow> 's \<Rightarrow> 's \<Rightarrow> bool" where
  "synced contents wal_of apply_rec s s' \<longleftrightarrow>
     (\<forall>w. wal_of s = Some w \<longrightarrow>
       (\<exists>w' cs. wal_of s' = Some w' \<and> wal_does w cs w' \<and>
         (\<forall>l i. fold apply_rec (wal_recs cs) l i = contents s' i \<or>
           fold apply_rec (wal_recs cs) l i = l i \<and> contents s' i = contents s i)))"

lemma synced_logged: "synced contents wal_of f s s' \<Longrightarrow> logged contents wal_of f s s'"
proof (rule loggedI)
  fix w assume "synced contents wal_of f s s'" and "wal_of s = Some w"
  then obtain w' cs where w': "wal_of s' = Some w'" "wal_does w cs w'"
    and l: "\<forall>l i. fold f (wal_recs cs) l i = contents s' i \<or> fold f (wal_recs cs) l i = l i \<and> contents s' i = contents s i"
    unfolding synced_def by blast
  have "contents s' i = fold f (wal_recs cs) (contents s) i" for i
    using spec [OF spec [OF l, of "contents s"], of i] by auto
  with w' show "\<exists>w' cs. wal_of s' = Some w' \<and> wal_does w cs w' \<and> contents s' = fold f (wal_recs cs) (contents s)"
    by blast
qed

lemma synced_refl: "contents s' = contents s \<Longrightarrow> wal_of s' = wal_of s \<Longrightarrow> synced contents wal_of f s s'"
  by (auto simp: synced_def intro!: exI [of _ "[]"] wal_does.nothing)

lemma synced_trans:
  assumes "synced contents wal_of f s t" and "synced contents wal_of f t u"
  shows "synced contents wal_of f s u"
  unfolding synced_def
proof (intro allI impI)
  fix w assume "wal_of s = Some w"
  with assms(1) obtain w' cs where 1: "wal_of t = Some w'" "wal_does w cs w'"
    "\<forall>l i. fold f (wal_recs cs) l i = contents t i \<or> fold f (wal_recs cs) l i = l i \<and> contents t i = contents s i"
    unfolding synced_def by blast
  with assms(2) obtain w'' ds where 2: "wal_of u = Some w''" "wal_does w' ds w''"
    "\<forall>l i. fold f (wal_recs ds) l i = contents u i \<or> fold f (wal_recs ds) l i = l i \<and> contents u i = contents t i"
    unfolding synced_def by blast
  have "fold f (wal_recs (cs @ ds)) l i = contents u i \<or>
      fold f (wal_recs (cs @ ds)) l i = l i \<and> contents u i = contents s i" for l i
    using spec [OF spec [OF 1(3), of l], of i] spec [OF spec [OF 2(3), of "fold f (wal_recs cs) l"], of i] by auto
  with 2(1) wal_does_trans [OF 2(2) 1(2)] show "\<exists>w' cs. wal_of u = Some w' \<and> wal_does w cs w' \<and>
      (\<forall>l i. fold f (wal_recs cs) l i = contents u i \<or> fold f (wal_recs cs) l i = l i \<and> contents u i = contents s i)"
    by blast
qed

lemma synced_fold:
  assumes "\<And>x s. synced contents wal_of f s (step x s)"
  shows "synced contents wal_of f s (fold step xs s)"
  by (induction xs arbitrary: s) (auto intro: synced_refl synced_trans assms)

lemma kv_synced_put:
  assumes "codec_ok c" and "contents s' = (contents s)(i \<mapsto> v)"
    and "\<And>w b. wal_of s = Some w \<Longrightarrow> ser c v = Some b \<Longrightarrow> wal_of s' = Some (wal_send_insert i b w)"
  shows "synced contents wal_of (kv_apply c) s s'"
  unfolding synced_def
proof (intro allI impI)
  fix w assume w: "wal_of s = Some w"
  obtain b where b: "ser c v = Some b" "de c b = Some v"
    using codec_okD [OF assms(1)] by blast
  have "wal_does w [Insert i b] (wal_send_insert i b w)"
    using wal_does.insert [OF wal_does.nothing] by simp
  then show "\<exists>w' cs. wal_of s' = Some w' \<and> wal_does w cs w' \<and>
      (\<forall>l j. fold (kv_apply c) (wal_recs cs) l j = contents s' j \<or>
        fold (kv_apply c) (wal_recs cs) l j = l j \<and> contents s' j = contents s j)"
    using assms(2,3) b w
    by (intro exI [of _ "wal_send_insert i b w"] exI [of _ "[Insert i b]"]) (simp add: kv_apply_def)
qed

lemma kv_synced_del:
  assumes "contents s' = (contents s)(i := None)"
    and "\<And>w. wal_of s = Some w \<Longrightarrow> wal_of s' = Some (wal_send_delete i w)"
  shows "synced contents wal_of (kv_apply c) s s'"
  unfolding synced_def
proof (intro allI impI)
  fix w assume w: "wal_of s = Some w"
  have "wal_does w [Delete i] (wal_send_delete i w)"
    using wal_does.delete [OF wal_does.nothing] by simp
  then show "\<exists>w' cs. wal_of s' = Some w' \<and> wal_does w cs w' \<and>
      (\<forall>l j. fold (kv_apply c) (wal_recs cs) l j = contents s' j \<or>
        fold (kv_apply c) (wal_recs cs) l j = l j \<and> contents s' j = contents s j)"
    using assms w
    by (intro exI [of _ "wal_send_delete i w"] exI [of _ "[Delete i]"]) (simp add: kv_apply_def)
qed

lemma synced_flush:
  assumes "contents s' = contents s" and "wal_of s' = map_option (wal_flush now) (wal_of s)"
  shows "synced contents wal_of f s s'"
  using assms wal_does_flush by (fastforce simp: synced_def)

lemma synced_thread:
  assumes "contents s' = contents s" and "wal_of s' = map_option (wal_loop_iter now) (wal_of s)"
  shows "synced contents wal_of f s s'"
  using assms wal_does.iterate [OF wal_does.nothing] by (fastforce simp: synced_def)

text \<open>
  A client's use of a store: calls of its operations, and writes through the references that \<open>get_mut\<close>
  hands out, which nothing logs.
\<close>

datatype ('op, 'k, 'v) store_use = Call 'op | GetMut 'k "'v \<Rightarrow> 'v"

primrec use_exec :: "('op \<Rightarrow> 's \<Rightarrow> 's) \<Rightarrow> ('k \<Rightarrow> ('v \<Rightarrow> 'v) \<Rightarrow> 's \<Rightarrow> 's) \<Rightarrow> ('op, 'k, 'v) store_use \<Rightarrow> 's \<Rightarrow> 's" where
  "use_exec exec get_mut (Call op) s = exec op s"
| "use_exec exec get_mut (GetMut i f) s = get_mut i f s"

definition get_mut_keys :: "('op, 'k, 'v) store_use list \<Rightarrow> 'k set" where
  "get_mut_keys us = {i. \<exists>f. GetMut i f \<in> set us}"

lemma get_mut_keys_simps [simp]:
  "get_mut_keys [] = {}" "get_mut_keys (Call op # us) = get_mut_keys us"
  "get_mut_keys (GetMut i f # us) = insert i (get_mut_keys us)" "get_mut_keys (us @ vs) = get_mut_keys us \<union> get_mut_keys vs"
  by (auto simp: get_mut_keys_def)

lemma get_mut_keys_Call [simp]: "get_mut_keys (map Call ops) = {}"
  by (auto simp: get_mut_keys_def)

lemma fold_use_Call [simp]: "fold (use_exec exec gm) (map Call ops) s = fold exec ops s"
  by (induction ops arbitrary: s) simp_all

section \<open>Recoverable stores\<close>

text \<open>
  \<open>exec\<close> is the store's operations (the thread's iterations among them), \<open>opn bs\<close> its
  \<open>open\<close> on a directory whose log file holds \<open>bs\<close>, with the durability level and channel
  capacity \<open>d\<close> and \<open>cap\<close>. \<open>good\<close> stands for what is assumed of the serialiser, and
  \<open>openable\<close> for the records whose replay does not panic.
\<close>

locale recoverable_store =
  fixes contents :: "'s \<Rightarrow> 'm"
    and wal_of :: "'s \<Rightarrow> wal_sys option"
    and apply_rec :: "wal_rec \<Rightarrow> 'm \<Rightarrow> 'm"
    and none :: 'm
    and exec :: "'op \<Rightarrow> 's \<Rightarrow> 's"
    and opn :: "bytes \<Rightarrow> 's outcome"
    and checks :: bool and now :: nat and d :: Durability and cap :: u64
    and good :: bool
    and openable :: "wal_rec list \<Rightarrow> bool"
  assumes exec_logged: "good \<Longrightarrow> logged contents wal_of apply_rec s (exec op s)"
    and open_Ok: "opn bs = Ok s \<Longrightarrow>
      \<exists>w. wal_spawn checks now (file_of bs) d cap = Ok w \<and> wal_of s = Some w \<and>
        (if 4 < length bs then snd (replay_wal bs) = None \<and> contents s = fold apply_rec (fst (replay_wal bs)) none
         else contents s = none)"
    and open_total: "wal_spawn checks now (file_of bs) d cap = Ok w \<Longrightarrow>
      4 < length bs \<Longrightarrow> snd (replay_wal bs) = None \<and> openable (fst (replay_wal bs)) \<Longrightarrow>
      \<exists>s. opn bs = Ok s"
    and open_total_new: "wal_spawn checks now (file_of bs) d cap = Ok w \<Longrightarrow>
      length bs \<le> 4 \<Longrightarrow> \<exists>s. opn bs = Ok s"
begin

lemma log_longer: "4 < length (WAL_MAGIC @ concat (map wal_frame rs)) \<longleftrightarrow> rs \<noteq> []"
  by (cases rs) (simp_all add: WAL_MAGIC_def length_wal_frame)

lemma open_log:
  assumes "opn (WAL_MAGIC @ concat (map wal_frame rs)) = Ok s" and "\<forall>r\<in>set rs. wal_fits r"
  shows "contents s = fold apply_rec rs none"
  using open_Ok [OF assms(1)] wl.replay_frames [OF assms(2)] 
  by (auto simp: log_longer simp del: length_append split: if_splits)

lemma open_log_total:
  assumes "wal_spawn checks now (file_of bs) d cap = Ok w"
    and "bs = WAL_MAGIC @ concat (map wal_frame rs)"
    and "\<forall>r\<in>set rs. wal_fits r" and "openable rs"
  shows "\<exists>s. opn bs = Ok s \<and> contents s = fold apply_rec rs none"
proof -
  have "replay_wal bs = (rs, None)"
    using wl.replay_frames [OF assms(3)] by (simp add: assms(2))
  then have "\<exists>s. opn bs = Ok s"
    using open_total [OF assms(1)] open_total_new [OF assms(1)] assms(4) by (cases "4 < length bs") auto
  with assms(2,3) open_log show ?thesis by blast
qed

lemma open_base:
  assumes "opn bs = Ok s" and "wal_base bs = fold encode_cmd cs WAL_MAGIC"
    and "\<forall>r\<in>set (wal_recs cs). wal_fits r"
  shows "contents s = fold apply_rec (wal_recs cs) none"
proof -
  have log: "wal_base bs = WAL_MAGIC @ concat (map wal_frame (wal_recs cs))"
    using assms(2) by (simp add: fold_encode_cmd wal_log_def)
  show ?thesis
  proof (cases "bs = []")
    case True
    have "\<not> 4 < length (WAL_MAGIC @ concat (map wal_frame (wal_recs cs)))"
      unfolding log [symmetric] using True by (simp add: wal_base_def WAL_MAGIC_def)
    then have "wal_recs cs = []" by (simp only: log_longer not_not)
    with True open_Ok [OF assms(1)] show ?thesis by auto
  next
    case False
    with log assms(1) have "opn (WAL_MAGIC @ concat (map wal_frame (wal_recs cs))) = Ok s"
      by (simp add: wal_base_def)
    from open_log [OF this assms(3)] show ?thesis .
  qed
qed

lemma does_contents:
  assumes "opn bs = Ok s" and "wal_of s = Some w0" and "wal_does w0 ds w" and "vec_capacity_ok (batch_bytes d)"
    and "\<forall>r\<in>set (wal_recs cs). wal_fits r" and base: "wal_base bs = fold encode_cmd cs WAL_MAGIC"
  shows "wal_open (wal_log WAL_MAGIC cs) w" and "fsync_on (ws_cfg w) = fsync_enabled d" and "ws_sent w = ds"
    and "fold apply_rec (wal_recs (cs @ ws_sent w)) none = fold apply_rec (wal_recs ds) (contents s)"
proof -
  from open_Ok [OF assms(1)] assms(2) have w0: "wal_spawn checks now (file_of bs) d cap = Ok w0" by auto
  have open0: "wal_open (wal_log WAL_MAGIC cs) w0"
    using wal_spawn_open [OF w0 assms(4)] by (simp add: base fold_encode_cmd)
  show "wal_open (wal_log WAL_MAGIC cs) w" and sent: "ws_sent w = ds"
    using wal_does_open [OF assms(3) open0] wal_spawn_OkD(7) [OF w0] by auto
  show "fsync_on (ws_cfg w) = fsync_enabled d"
    using wal_does_open [OF assms(3) open0] wal_spawn_OkD(6) [OF w0] by auto
  show "fold apply_rec (wal_recs (cs @ ws_sent w)) none = fold apply_rec (wal_recs ds) (contents s)"
    using open_base [OF assms(1) base assms(5)] by (simp add: sent)
qed

text \<open>
  In any state that logged changes lead to, the contents are what replaying the whole log would give.
\<close>

lemma logged_contents:
  assumes "opn bs = Ok s" and "logged contents wal_of apply_rec s s'" and "vec_capacity_ok (batch_bytes d)"
    and "\<forall>r\<in>set (wal_recs cs). wal_fits r" and base: "wal_base bs = fold encode_cmd cs WAL_MAGIC"
  shows "\<exists>w. wal_of s' = Some w \<and> wal_open (wal_log WAL_MAGIC cs) w \<and>
    fsync_on (ws_cfg w) = fsync_enabled d \<and>
    contents s' = fold apply_rec (wal_recs (cs @ ws_sent w)) none"
proof -
  from open_Ok [OF assms(1)] obtain w0 where w0: "wal_of s = Some w0" by blast
  with assms(2) obtain w ds where w: "wal_of s' = Some w" "wal_does w0 ds w"
    "contents s' = fold apply_rec (wal_recs ds) (contents s)"
    by (auto simp: logged_def)
  with does_contents [OF assms(1) w0 w(2) assms(3,4) base] show ?thesis by auto
qed

lemma run_logged: "good \<Longrightarrow> logged contents wal_of apply_rec s (fold exec ops s)"
  by (rule logged_fold) (rule exec_logged)

text \<open>Recovery after \<open>flush\<close>: reopening the durable file gives the contents back.\<close>

lemma recover_does:
  assumes s: "opn bs = Ok s" and base: "wal_base bs = fold encode_cmd cs WAL_MAGIC"
    and l: "wal_of s = Some w0" "wal_does w0 ds w"
    and d: "vec_capacity_ok (batch_bytes d)" "d \<noteq> Async"
    and fits: "\<forall>r\<in>set (wal_recs (cs @ ws_sent w)). wal_fits r"
    and "openable (wal_recs (cs @ ws_sent w))"
  shows "\<exists>r. opn (durable (ws_file (wal_flush n w))) = Ok r \<and> contents r = fold apply_rec (wal_recs ds) (contents s)"
proof -
  have "\<forall>r\<in>set (wal_recs cs). wal_fits r" using fits by auto
  note c = does_contents [OF s l d(1) this base]
  have o: "wal_open (wal_log WAL_MAGIC cs) w" "fsync_on (ws_cfg w)" using c(1,2) d(2) by (auto simp: fsync_enabled_iff)
  from o(1) have up: "wal_inv (wal_log WAL_MAGIC cs) w" "ws_alive w" "ws_running w"
    "\<forall>t. Shutdown t \<notin> set (ws_sent w)"
    by (auto simp: wal_open_def wal_up_def)
  let ?bs = "durable (ws_file (wal_flush n w))"
  have bs: "?bs = WAL_MAGIC @ concat (map wal_frame (wal_recs (cs @ ws_sent w)))"
    using wal_flush_from(2) [OF up o(2), of n] by (simp only: wal_log_records)
  then have "?bs \<noteq> []" by (simp add: WAL_MAGIC_def)
  with open_Ok [OF s] obtain w' where "wal_spawn checks now (file_of ?bs) d cap = Ok w'"
    using wal_spawn_again by blast
  from open_log_total [OF this bs fits assms(8)] c(4) show ?thesis by simp
qed

lemma recover_logged:
  assumes s: "opn bs = Ok s" and base: "wal_base bs = fold encode_cmd cs WAL_MAGIC"
    and l: "logged contents wal_of apply_rec s s'"
    and d: "vec_capacity_ok (batch_bytes d)" "d \<noteq> Async" and w: "wal_of s' = Some w"
    and fits: "\<forall>r\<in>set (wal_recs (cs @ ws_sent w)). wal_fits r"
    and "openable (wal_recs (cs @ ws_sent w))"
  shows "\<exists>r. opn (durable (ws_file (wal_flush n w))) = Ok r \<and> contents r = contents s'"
proof -
  obtain w0 where w0: "wal_of s = Some w0" using open_Ok [OF s] by blast
  with l w obtain ds where "wal_does w0 ds w" "contents s' = fold apply_rec (wal_recs ds) (contents s)"
    by (auto simp: logged_def)
  with recover_does [OF s base w0 this(1) d fits assms(8)] show ?thesis by simp
qed

lemma recover_after_flush:
  assumes "opn bs = Ok s" and "wal_base bs = fold encode_cmd cs WAL_MAGIC" and good
    and "vec_capacity_ok (batch_bytes d)" "d \<noteq> Async"
    and "wal_of (fold exec ops s) = Some w"
    and "\<forall>r\<in>set (wal_recs (cs @ ws_sent w)). wal_fits r"
    and "openable (wal_recs (cs @ ws_sent w))"
  shows "\<exists>r. opn (durable (ws_file (wal_flush n w))) = Ok r \<and> contents r = contents (fold exec ops s)"
  by (rule recover_logged [OF assms(1,2) run_logged [OF assms(3)] assms(4-8)])

text \<open>
  Recovery after a crash at any point: if the file opens, the contents are those of an initial
  run of the records sent, which includes everything sent before an answered flush.
\<close>

lemma crash_logged:
  assumes s: "opn bs = Ok s" and base: "wal_base bs = fold encode_cmd cs WAL_MAGIC"
    and l: "logged contents wal_of apply_rec s s'"
    and d: "vec_capacity_ok (batch_bytes d)" "d \<noteq> Async"
    and w: "wal_of s' = Some w"
    and fits: "\<forall>r\<in>set (wal_recs (cs @ ws_sent w)). wal_fits r"
    and crash: "prefix (durable (ws_file w)) p" "prefix p (f_data (ws_file w) @ ws_buffer w)"
    and r: "opn p = Ok r"
  shows "\<exists>k. contents r = fold apply_rec (take k (wal_recs (cs @ ws_sent w))) none \<and>
    (\<forall>t\<in>set (ws_acks w). \<exists>pre c post. ws_sent w = pre @ c # post \<and> c \<in> {Flush t, Shutdown t} \<and>
       length (wal_recs (cs @ pre)) \<le> k)"
proof -
  have "\<forall>r\<in>set (wal_recs cs). wal_fits r" using fits by auto
  from logged_contents [OF s l d(1) this base] w
  have o: "wal_open (wal_log WAL_MAGIC cs) w" "fsync_on (ws_cfg w)"
    using d(2) by (auto simp: fsync_enabled_iff)
  from o have inv: "wal_inv (wal_log WAL_MAGIC cs) w"
    and grown: "prefix (wal_log WAL_MAGIC cs) (f_data (ws_file w))"
    by (auto simp: wal_open_def)
  have dur: "durable (ws_file w) = f_data (ws_file w)"
    using wal_clean_durable [OF wal_invD(1) [OF inv] o(2)] .
  from wal_crash_from [OF inv grown dur fits crash] obtain k e
    where k: "replay_wal p = (take k (wal_recs (cs @ ws_sent w)), e)"
    "\<forall>t\<in>set (ws_acks w). \<exists>pre c post. ws_sent w = pre @ c # post \<and> c \<in> {Flush t, Shutdown t} \<and>
       length (wal_recs (cs @ pre)) \<le> k" by blast
  have "contents r = fold apply_rec (fst (replay_wal p)) none"
  proof (cases "4 < length p")
    case True
    with open_Ok [OF r] show ?thesis by auto
  next
    case False
    have "prefix (wal_log WAL_MAGIC cs) p"
      using grown crash(1) dur by (auto intro: prefix_order.trans)
    then have "p = WAL_MAGIC"
      using False by (auto simp: wal_log_def WAL_MAGIC_def prefix_def)
    with False open_Ok [OF r] wl.replay_short [of "[]"] replay_wal_magic [of "[]"] show ?thesis by auto
  qed
  with k show ?thesis by auto
qed

lemma recover_after_crash:
  assumes "opn bs = Ok s" and "wal_base bs = fold encode_cmd cs WAL_MAGIC" and good
    and "vec_capacity_ok (batch_bytes d)" "d \<noteq> Async" and "wal_of (fold exec ops s) = Some w"
    and "\<forall>r\<in>set (wal_recs (cs @ ws_sent w)). wal_fits r"
    and "prefix (durable (ws_file w)) p" "prefix p (f_data (ws_file w) @ ws_buffer w)" and "opn p = Ok r"
  shows "\<exists>k. contents r = fold apply_rec (take k (wal_recs (cs @ ws_sent w))) none \<and>
    (\<forall>t\<in>set (ws_acks w). \<exists>pre c post. ws_sent w = pre @ c # post \<and> c \<in> {Flush t, Shutdown t} \<and>
       length (wal_recs (cs @ pre)) \<le> k)"
  by (rule crash_logged [OF assms(1,2) run_logged [OF assms(3)] assms(4-10)])

end

text \<open>
  A store whose contents are a map, whose operations log what they touch, and which has \<open>get_mut\<close>. After any
  use of it and a flush, opening gives back every entry that was not written through \<open>get_mut\<close>.
\<close>

locale keyed_store = recoverable_store contents wal_of apply_rec none exec opn checks now d cap good openable
  for contents :: "'s \<Rightarrow> 'k \<rightharpoonup> 'v" and wal_of and apply_rec and none and exec :: "'op \<Rightarrow> 's \<Rightarrow> 's"
    and opn and checks and now and d and cap and good and openable +
  fixes get_mut :: "'k \<Rightarrow> ('v \<Rightarrow> 'v) \<Rightarrow> 's \<Rightarrow> 's"
  assumes exec_synced: "good \<Longrightarrow> synced contents wal_of apply_rec s (exec op s)"
    and get_mut_wal: "wal_of (get_mut i f s) = wal_of s"
    and get_mut_other: "j \<noteq> i \<Longrightarrow> contents (get_mut i f s) j = contents s j"
begin

lemma use_synced:
  assumes good and "wal_of s = Some w" and "\<forall>i. i \<notin> K \<longrightarrow> l i = contents s i" and "get_mut_keys us \<subseteq> K"
  shows "\<exists>w' cs. wal_of (fold (use_exec exec get_mut) us s) = Some w' \<and> wal_does w cs w' \<and>
    (\<forall>i. i \<notin> K \<longrightarrow> fold apply_rec (wal_recs cs) l i = contents (fold (use_exec exec get_mut) us s) i)"
  using assms(2-4)
proof (induction us arbitrary: s w l)
  case Nil
  then show ?case by (auto intro!: exI [of _ "[]"] wal_does.nothing)
next
  case (Cons u us)
  show ?case
  proof (cases u)
    case (Call op)
    obtain v cs where v: "wal_of (exec op s) = Some v" "wal_does w cs v"
      "\<forall>l i. fold apply_rec (wal_recs cs) l i = contents (exec op s) i \<or>
        fold apply_rec (wal_recs cs) l i = l i \<and> contents (exec op s) i = contents s i"
      using exec_synced [OF assms(1), of s op] Cons.prems(1) unfolding synced_def by blast
    have "\<forall>i. i \<notin> K \<longrightarrow> fold apply_rec (wal_recs cs) l i = contents (exec op s) i"
      using spec [OF v(3), of l] Cons.prems(2) by metis
    from Cons.IH [OF v(1) this] Cons.prems(3) Call obtain w' ds where
      "wal_of (fold (use_exec exec get_mut) us (exec op s)) = Some w'" "wal_does v ds w'"
      "\<forall>i. i \<notin> K \<longrightarrow> fold apply_rec (wal_recs ds) (fold apply_rec (wal_recs cs) l) i =
        contents (fold (use_exec exec get_mut) us (exec op s)) i" by auto
    with wal_does_trans [OF this(2) v(2)] Call show ?thesis by (intro exI [of _ w'] exI [of _ "cs @ ds"]) simp
  next
    case (GetMut i f)
    with Cons.prems(3) have i: "i \<in> K" "get_mut_keys us \<subseteq> K" by simp_all
    have "\<forall>j. j \<notin> K \<longrightarrow> l j = contents (get_mut i f s) j" using Cons.prems(2) i(1) get_mut_other by metis
    from Cons.IH [OF _ this i(2)] Cons.prems(1) get_mut_wal GetMut show ?thesis by simp
  qed
qed

lemma recover_use:
  assumes "opn bs = Ok s" and "wal_base bs = fold encode_cmd cs WAL_MAGIC" and good
    and "vec_capacity_ok (batch_bytes d)" "d \<noteq> Async" and w: "wal_of (fold (use_exec exec get_mut) us s) = Some w"
    and "\<forall>r\<in>set (wal_recs (cs @ ws_sent w)). wal_fits r" and "openable (wal_recs (cs @ ws_sent w))"
  shows "\<exists>r. opn (durable (ws_file (wal_flush n w))) = Ok r \<and>
    (\<forall>i. i \<notin> get_mut_keys us \<longrightarrow> contents r i = contents (fold (use_exec exec get_mut) us s) i)"
proof -
  obtain w0 where w0: "wal_of s = Some w0" using open_Ok [OF assms(1)] by blast
  from use_synced [OF assms(3) w0, of "get_mut_keys us" "contents s" us] w obtain ds where "wal_does w0 ds w"
    and l: "\<forall>i. i \<notin> get_mut_keys us \<longrightarrow> fold apply_rec (wal_recs ds) (contents s) i = contents (fold (use_exec exec get_mut) us s) i"
    by auto
  with recover_does [OF assms(1,2) w0 this(1) assms(4,5,7,8), of n] show ?thesis by auto
qed

end

section \<open>Identifiers\<close>

text \<open>No record inserts under the last identifier, the one whose successor overflows.\<close>

definition no_max_id :: "wal_rec list \<Rightarrow> bool" where
  "no_max_id rs \<longleftrightarrow> (\<forall>r\<in>set rs. fst r = 1 \<longrightarrow> fst (snd r) \<noteq> - 1)"

text \<open>
  \<open>alloc_id\<close> takes the oldest identifier of the free list, or the counter's next value. The
  identifiers in use are the live ones and those handed out and not yet inserted (\<open>reserved\<close>).
\<close>

definition ids_ok :: "u64 set \<Rightarrow> u64 set \<Rightarrow> u64 list \<Rightarrow> u64 \<Rightarrow> bool" where
  "ids_ok reserved live free next \<longleftrightarrow>
     distinct free \<and> set free \<inter> live = {} \<and> reserved \<inter> (live \<union> set free) = {} \<and>
     (\<forall>i \<in> live \<union> set free \<union> reserved. i < next)"

lemma u64_less_Suc:
  fixes n :: u64
  assumes "n \<noteq> - 1" and "i \<le> n"
  shows "i < n + 1"
proof -
  have "1 + n \<noteq> 0" using assms(1) by (metis add.commute eq_neg_iff_add_eq_0)
  with assms(2) show ?thesis
    by (simp add: word_less_nat_alt word_le_nat_alt add.commute [of n] unatSuc)
qed

lemma ids_ok_pop:
  "ids_ok reserved live (i # fs) next \<Longrightarrow>
    i \<notin> live \<and> i \<notin> reserved \<and> ids_ok (insert i reserved) live fs next"
  by (auto simp: ids_ok_def)

lemma ids_ok_next:
  assumes "ids_ok reserved live [] next" and "next \<noteq> - 1"
  shows "next \<notin> live \<and> next \<notin> reserved \<and> ids_ok (insert next reserved) live [] (next + 1)"
  using assms(1) u64_less_Suc [OF assms(2)] by (auto simp: ids_ok_def dest: order.strict_implies_order)

locale id_allocator =
  fixes live :: "'s \<Rightarrow> u64 set"
    and free_list :: "'s \<Rightarrow> u64 list"
    and next_id :: "'s \<Rightarrow> u64"
    and alloc :: "'s \<Rightarrow> u64 \<times> 's"
  assumes alloc_free: "free_list s = i # fs \<Longrightarrow>
      fst (alloc s) = i \<and> free_list (snd (alloc s)) = fs \<and> next_id (snd (alloc s)) = next_id s"
    and alloc_next: "free_list s = [] \<Longrightarrow>
      fst (alloc s) = next_id s \<and> free_list (snd (alloc s)) = [] \<and> next_id (snd (alloc s)) = next_id s + 1"
    and alloc_live: "live (snd (alloc s)) = live s"
begin

abbreviation ok :: "u64 set \<Rightarrow> 's \<Rightarrow> bool" where
  "ok reserved s \<equiv> ids_ok reserved (live s) (free_list s) (next_id s)"

lemma alloc_fresh:
  assumes "ok reserved s" and "next_id s \<noteq> - 1"
  shows "fst (alloc s) \<notin> live s" and "fst (alloc s) \<notin> reserved"
    and "ok (insert (fst (alloc s)) reserved) (snd (alloc s))"
proof -
  have "fst (alloc s) \<notin> live s \<and> fst (alloc s) \<notin> reserved \<and>
    ok (insert (fst (alloc s)) reserved) (snd (alloc s))"
  proof (cases "free_list s")
    case Nil
    with assms alloc_next [OF Nil] show ?thesis
      using ids_ok_next [of reserved "live s" "next_id s"] by (simp add: alloc_live)
  next
    case (Cons i fs)
    with assms alloc_free [OF Cons] show ?thesis
      using ids_ok_pop [of reserved "live s" i fs "next_id s"] by (simp add: alloc_live)
  qed
  then show "fst (alloc s) \<notin> live s" and "fst (alloc s) \<notin> reserved"
    and "ok (insert (fst (alloc s)) reserved) (snd (alloc s))"
    by blast+
qed

end

lemma ids_ok_insert:
  "ids_ok reserved live free next \<Longrightarrow> i \<in> reserved \<Longrightarrow> ids_ok (reserved - {i}) (insert i live) free next"
  by (auto simp: ids_ok_def)

lemma ids_ok_delete:
  "ids_ok reserved live free next \<Longrightarrow> i \<in> live \<Longrightarrow> ids_ok reserved (live - {i}) (free @ [i]) next"
  by (auto simp: ids_ok_def)

end
