(* ===== verification/Edge_Store.thy ===== *)
theory Edge_Store
  imports Storage_Types Logged_Store
begin

text \<open>
  \<^verbatim>\<open>src/src/storage/edge_store.rs\<close>: the edge map with its identifiers and log, and the
  adjacency chains. An edge carries the next edge of its source's outgoing chain and of its
  target's incoming chain; the heads are kept by the caller, who passes them by reference. The
  walks along a chain end only if the chain does, so they are partial: \<open>None\<close> is a loop that
  does not end. \<open>c\<close> is the serialiser of edges.
\<close>

section \<open>State\<close>

record edge_store =
  es_edges :: "EdgeId \<rightharpoonup> edge"
  es_next_id :: u64
  es_free_list :: "EdgeId list"
  es_free_count :: u64
  es_wal :: "wal_sys option"

definition es_new :: edge_store where
  "es_new = \<lparr>es_edges = Map.empty, es_next_id = 0, es_free_list = [], es_free_count = 0, es_wal = None\<rparr>"

definition es_with_capacity :: "u64 \<Rightarrow> edge_store" where
  "es_with_capacity cap =
     \<lparr>es_edges = Map.empty, es_next_id = 0, es_free_list = [], es_free_count = 0, es_wal = None\<rparr>"

section \<open>Opening\<close>

definition es_replay_record :: "edge codec \<Rightarrow> wal_rec \<Rightarrow> u64 \<times> edge_store \<Rightarrow> u64 \<times> edge_store" where
  "es_replay_record c r st =
     (case (r, st) of ((opcode, i, payload), (max_id, s)) \<Rightarrow>
       if opcode = 1 then
         (case de c payload of
           Some e \<Rightarrow> (max max_id i, s\<lparr>es_edges := (es_edges s)(i \<mapsto> e)\<rparr>)
         | None \<Rightarrow> (max_id, s))
       else if opcode = 2 then
         (case es_edges s i of
           Some _ \<Rightarrow> (max_id, s\<lparr>es_edges := (es_edges s)(i := None), es_free_list := es_free_list s @ [i],
                       es_free_count := es_free_count s + 1\<rparr>)
         | None \<Rightarrow> (max_id, s))
       else (max_id, s))"

definition es_open :: "edge codec \<Rightarrow> bool \<Rightarrow> nat \<Rightarrow> ofile \<Rightarrow> Consistency \<Rightarrow> edge_store outcome" where
  "es_open c checks now f consistency =
     (let replayed =
        (if length (f_data f) > 4 then
           (case replay_wal (f_data f) of (rs, err) \<Rightarrow>
             let (max_id, s) = fold (es_replay_record c) rs (0, es_new) in
             (case err of
               Some e \<Rightarrow> Err e
             | None \<Rightarrow> if checks \<and> max_id = - 1 then Panicked else Ok (s\<lparr>es_next_id := max_id + 1\<rparr>)))
         else Ok es_new)
      in case replayed of
        Err e \<Rightarrow> Err e
      | Panicked \<Rightarrow> Panicked
      | Ok s \<Rightarrow>
          (case wal_spawn checks now f (durability consistency) (wal_channel_capacity consistency) of
            Err e \<Rightarrow> Err e
          | Panicked \<Rightarrow> Panicked
          | Ok w \<Rightarrow> Ok (s\<lparr>es_wal := Some w\<rparr>)))"

section \<open>Operations\<close>

definition es_wal_insert :: "edge codec \<Rightarrow> EdgeId \<Rightarrow> edge \<Rightarrow> edge_store \<Rightarrow> edge_store" where
  "es_wal_insert c i e s =
     (case es_wal s of
       None \<Rightarrow> s
     | Some w \<Rightarrow>
         (case ser c e of
           None \<Rightarrow> s
         | Some data \<Rightarrow> s\<lparr>es_wal := Some (wal_send_insert i data w)\<rparr>))"

definition es_wal_delete :: "EdgeId \<Rightarrow> edge_store \<Rightarrow> edge_store" where
  "es_wal_delete i s =
     (case es_wal s of None \<Rightarrow> s | Some w \<Rightarrow> s\<lparr>es_wal := Some (wal_send_delete i w)\<rparr>)"

definition es_alloc_id :: "edge_store \<Rightarrow> EdgeId \<times> edge_store" where
  "es_alloc_id s =
     (case es_free_list s of
       i # rest \<Rightarrow> (i, s\<lparr>es_free_list := rest, es_free_count := es_free_count s - 1\<rparr>)
     | [] \<Rightarrow> (es_next_id s, s\<lparr>es_next_id := es_next_id s + 1\<rparr>))"

definition es_alloc_id_direct :: "edge_store \<Rightarrow> EdgeId \<times> edge_store" where
  "es_alloc_id_direct s = es_alloc_id s"

definition es_insert_with_id ::
  "edge codec \<Rightarrow> EdgeId \<Rightarrow> NodeId \<Rightarrow> NodeId \<Rightarrow> TypeId \<Rightarrow> u32 \<Rightarrow> TxId \<Rightarrow> edge_store \<Rightarrow> edge_store" where
  "es_insert_with_id c i src dst etype props_row tx_id s =
     (let e = edge_new i src dst etype props_row tx_id
      in es_wal_insert c i e (s\<lparr>es_edges := (es_edges s)(i \<mapsto> e)\<rparr>))"

definition es_insert_edge ::
  "edge codec \<Rightarrow> NodeId \<Rightarrow> NodeId \<Rightarrow> TypeId \<Rightarrow> u32 \<Rightarrow> TxId \<Rightarrow> edge_store \<Rightarrow> EdgeId \<times> edge_store" where
  "es_insert_edge c src dst etype props_row tx_id s =
     (let (i, s1) = es_alloc_id s;
          e = edge_new i src dst etype props_row tx_id
      in (i, es_wal_insert c i e (s1\<lparr>es_edges := (es_edges s1)(i \<mapsto> e)\<rparr>)))"

definition es_get :: "EdgeId \<Rightarrow> edge_store \<Rightarrow> edge option" where
  "es_get i s = es_edges s i"

definition es_get_mut :: "EdgeId \<Rightarrow> (edge \<Rightarrow> edge) \<Rightarrow> edge_store \<Rightarrow> edge_store" where
  "es_get_mut i f s =
     (case es_edges s i of None \<Rightarrow> s | Some e \<Rightarrow> s\<lparr>es_edges := (es_edges s)(i \<mapsto> f e)\<rparr>)"

text \<open>Linking returns the store and the two heads, which the code updates through references.\<close>

definition es_link_into_chains ::
  "edge codec \<Rightarrow> EdgeId \<Rightarrow> EdgeId \<Rightarrow> EdgeId \<Rightarrow> edge_store \<Rightarrow> edge_store \<times> EdgeId \<times> EdgeId" where
  "es_link_into_chains c new_edge src_first_out dst_first_in s =
     (let s1 = es_get_mut new_edge (\<lambda>e. e\<lparr>e_next_out := src_first_out\<rparr>) s;
          s2 = es_get_mut new_edge (\<lambda>e. e\<lparr>e_next_in := dst_first_in\<rparr>) s1;
          s3 = (case es_edges s2 new_edge of Some e \<Rightarrow> es_wal_insert c new_edge e s2 | None \<Rightarrow> s2)
      in (s3, new_edge, new_edge))"

text \<open>
  The two search loops of \<open>unlink_from_chains\<close>: from \<open>cur\<close> on, the edge whose successor is
  \<open>edge_id\<close> gets the successor \<open>succ\<close>; the result has the map and that predecessor, if there is one.
\<close>

partial_function (option) es_unlink_out_loop ::
  "EdgeId \<Rightarrow> EdgeId \<Rightarrow> (EdgeId \<rightharpoonup> edge) \<Rightarrow> EdgeId \<Rightarrow> ((EdgeId \<rightharpoonup> edge) \<times> EdgeId option) option" where
  "es_unlink_out_loop edge_id succ m cur =
     (if cur = NULL_EDGE then Some (m, None)
      else (case m cur of
        None \<Rightarrow> Some (m, None)
      | Some e \<Rightarrow>
          if e_next_out e = edge_id then Some (m(cur \<mapsto> e\<lparr>e_next_out := succ\<rparr>), Some cur)
          else es_unlink_out_loop edge_id succ m (e_next_out e)))"

partial_function (option) es_unlink_in_loop ::
  "EdgeId \<Rightarrow> EdgeId \<Rightarrow> (EdgeId \<rightharpoonup> edge) \<Rightarrow> EdgeId \<Rightarrow> ((EdgeId \<rightharpoonup> edge) \<times> EdgeId option) option" where
  "es_unlink_in_loop edge_id succ m cur =
     (if cur = NULL_EDGE then Some (m, None)
      else (case m cur of
        None \<Rightarrow> Some (m, None)
      | Some e \<Rightarrow>
          if e_next_in e = edge_id then Some (m(cur \<mapsto> e\<lparr>e_next_in := succ\<rparr>), Some cur)
          else es_unlink_in_loop edge_id succ m (e_next_in e)))"

definition es_persist :: "edge codec \<Rightarrow> EdgeId option \<Rightarrow> edge_store \<Rightarrow> edge_store" where
  "es_persist c pred s =
     (case pred of
       None \<Rightarrow> s
     | Some i \<Rightarrow> (case es_edges s i of Some e \<Rightarrow> es_wal_insert c i e s | None \<Rightarrow> s))"

definition es_unlink_from_chains ::
  "edge codec \<Rightarrow> EdgeId \<Rightarrow> EdgeId \<Rightarrow> EdgeId \<Rightarrow> edge_store \<Rightarrow>
    (bool \<times> edge_store \<times> EdgeId \<times> EdgeId) option" where
  "es_unlink_from_chains c edge_id src_first_out dst_first_in s =
     (case es_edges s edge_id of
       None \<Rightarrow> Some (False, s, src_first_out, dst_first_in)
     | Some edge \<Rightarrow>
         (case (if src_first_out = edge_id then Some (es_edges s, None)
                else es_unlink_out_loop edge_id (e_next_out edge) (es_edges s) src_first_out) of
           None \<Rightarrow> None
         | Some (m1, src_pred) \<Rightarrow>
             (case (if dst_first_in = edge_id then Some (m1, None)
                    else es_unlink_in_loop edge_id (e_next_in edge) m1 dst_first_in) of
               None \<Rightarrow> None
             | Some (m2, dst_pred) \<Rightarrow>
                 Some (True, es_persist c dst_pred (es_persist c src_pred (s\<lparr>es_edges := m2\<rparr>)),
                   if src_first_out = edge_id then e_next_out edge else src_first_out,
                   if dst_first_in = edge_id then e_next_in edge else dst_first_in))))"

definition es_soft_delete :: "edge codec \<Rightarrow> EdgeId \<Rightarrow> TxId \<Rightarrow> edge_store \<Rightarrow> bool \<times> edge_store" where
  "es_soft_delete c i tx_id s =
     (case es_edges s i of
       Some e \<Rightarrow>
         let e' = e\<lparr>e_deleted_tx := tx_id\<rparr>;
             s1 = s\<lparr>es_edges := (es_edges s)(i \<mapsto> e')\<rparr>
         in (True,
             case es_wal s1 of
               None \<Rightarrow> s1
             | Some w \<Rightarrow>
                 (case ser c e' of None \<Rightarrow> s1 | Some data \<Rightarrow> s1\<lparr>es_wal := Some (wal_send_insert i data w)\<rparr>))
     | None \<Rightarrow> (False, s))"

definition es_hard_delete :: "EdgeId \<Rightarrow> edge_store \<Rightarrow> bool \<times> edge_store" where
  "es_hard_delete i s =
     (let s1 = es_wal_delete i s in
      case es_edges s1 i of
        Some _ \<Rightarrow>
          (True, s1\<lparr>es_edges := (es_edges s1)(i := None), es_free_list := es_free_list s1 @ [i],
             es_free_count := es_free_count s1 + 1\<rparr>)
      | None \<Rightarrow> (False, s1))"

section \<open>Traversal\<close>

partial_function (option) es_out_edges_loop ::
  "(EdgeId \<rightharpoonup> edge) \<Rightarrow> EdgeId \<Rightarrow> EdgeId list \<Rightarrow> EdgeId list option" where
  "es_out_edges_loop m cur r =
     (if cur = NULL_EDGE then Some r
      else (case m cur of Some e \<Rightarrow> es_out_edges_loop m (e_next_out e) (r @ [cur]) | None \<Rightarrow> Some r))"

definition es_out_edges :: "EdgeId \<Rightarrow> edge_store \<Rightarrow> EdgeId list option" where
  "es_out_edges start s = es_out_edges_loop (es_edges s) start []"

partial_function (option) es_in_edges_loop ::
  "(EdgeId \<rightharpoonup> edge) \<Rightarrow> EdgeId \<Rightarrow> EdgeId list \<Rightarrow> EdgeId list option" where
  "es_in_edges_loop m cur r =
     (if cur = NULL_EDGE then Some r
      else (case m cur of Some e \<Rightarrow> es_in_edges_loop m (e_next_in e) (r @ [cur]) | None \<Rightarrow> Some r))"

definition es_in_edges :: "EdgeId \<Rightarrow> edge_store \<Rightarrow> EdgeId list option" where
  "es_in_edges start s = es_in_edges_loop (es_edges s) start []"

partial_function (option) es_out_edges_visible_loop ::
  "TxId \<Rightarrow> (EdgeId \<rightharpoonup> edge) \<Rightarrow> EdgeId \<Rightarrow> EdgeId list \<Rightarrow> EdgeId list option" where
  "es_out_edges_visible_loop tx m cur r =
     (if cur = NULL_EDGE then Some r
      else (case m cur of
        Some e \<Rightarrow> es_out_edges_visible_loop tx m (e_next_out e) (if edge_is_alive e tx then r @ [cur] else r)
      | None \<Rightarrow> Some r))"

definition es_out_edges_visible :: "EdgeId \<Rightarrow> TxId \<Rightarrow> edge_store \<Rightarrow> EdgeId list option" where
  "es_out_edges_visible start tx s = es_out_edges_visible_loop tx (es_edges s) start []"

definition es_contains :: "EdgeId \<Rightarrow> edge_store \<Rightarrow> bool" where
  "es_contains i s \<longleftrightarrow> es_edges s i \<noteq> None"

definition es_len :: "edge_store \<Rightarrow> nat" where
  "es_len s = card (dom (es_edges s))"

definition es_flush :: "nat \<Rightarrow> edge_store \<Rightarrow> edge_store" where
  "es_flush now s = (case es_wal s of None \<Rightarrow> s | Some w \<Rightarrow> s\<lparr>es_wal := Some (wal_flush now w)\<rparr>)"

section \<open>Runs\<close>

text \<open>An unlinking whose search does not end never comes back and counts as no step.\<close>

datatype edge_op =
    EAlloc
  | EInsertWithId EdgeId NodeId NodeId TypeId u32 TxId
  | EInsert NodeId NodeId TypeId u32 TxId
  | ELink EdgeId EdgeId EdgeId
  | EUnlink EdgeId EdgeId EdgeId
  | ESoftDelete EdgeId TxId
  | EHardDelete EdgeId
  | EFlush nat
  | EThread nat

primrec es_exec :: "edge codec \<Rightarrow> edge_op \<Rightarrow> edge_store \<Rightarrow> edge_store" where
  "es_exec c EAlloc s = snd (es_alloc_id_direct s)"
| "es_exec c (EInsertWithId i src dst y row tx) s = es_insert_with_id c i src dst y row tx s"
| "es_exec c (EInsert src dst y row tx) s = snd (es_insert_edge c src dst y row tx s)"
| "es_exec c (ELink i fo fi) s = fst (es_link_into_chains c i fo fi s)"
| "es_exec c (EUnlink i fo fi) s =
     (case es_unlink_from_chains c i fo fi s of Some (_, s', _) \<Rightarrow> s' | None \<Rightarrow> s)"
| "es_exec c (ESoftDelete i tx) s = snd (es_soft_delete c i tx s)"
| "es_exec c (EHardDelete i) s = snd (es_hard_delete i s)"
| "es_exec c (EFlush now) s = es_flush now s"
| "es_exec c (EThread now) s = s\<lparr>es_wal := map_option (wal_loop_iter now) (es_wal s)\<rparr>"

text \<open>The calls, and writes through the references of \<open>get_mut\<close>.\<close>

definition es_use :: "edge codec \<Rightarrow> (edge_op, EdgeId, edge) store_use \<Rightarrow> edge_store \<Rightarrow> edge_store" where
  "es_use c = use_exec (es_exec c) es_get_mut"

section \<open>Lemmas: chains\<close>

fun chain :: "(edge \<Rightarrow> EdgeId) \<Rightarrow> (EdgeId \<rightharpoonup> edge) \<Rightarrow> EdgeId \<Rightarrow> EdgeId list \<Rightarrow> bool" where
  "chain nxt m cur [] \<longleftrightarrow> cur = NULL_EDGE"
| "chain nxt m cur (i # is) \<longleftrightarrow>
     cur = i \<and> i \<noteq> NULL_EDGE \<and> (case m i of None \<Rightarrow> False | Some e \<Rightarrow> chain nxt m (nxt e) is)"

lemma chain_cong:
  "(\<And>i. i \<in> set is \<Longrightarrow> map_option nxt (m i) = map_option nxt (m' i)) \<Longrightarrow>
    chain nxt m cur is \<longleftrightarrow> chain nxt m' cur is"
proof (induction "is" arbitrary: cur)
  case Nil
  then show ?case by simp
next
  case (Cons i "is")
  have "map_option nxt (m i) = map_option nxt (m' i)" by (rule Cons.prems) simp
  with Cons show ?case by (cases "m i"; cases "m' i") auto
qed

lemma chain_det: "chain nxt m cur is \<Longrightarrow> chain nxt m cur js \<Longrightarrow> is = js"
  by (induction "is" arbitrary: cur js) (case_tac js; auto split: option.splits)+

lemma chain_suffix: "chain nxt m cur (xs @ i # ys) \<Longrightarrow> chain nxt m i (i # ys)"
proof (induction xs arbitrary: cur)
  case Nil
  then show ?case by simp
next
  case (Cons a xs)
  then obtain e where "chain nxt m (nxt e) (xs @ i # ys)" by (auto split: option.splits)
  then show ?case by (rule Cons.IH)
qed

lemma chain_distinct:
  assumes "chain nxt m cur is"
  shows "distinct is"
proof (rule ccontr)
  assume "\<not> distinct is"
  then obtain xs i ys zs where s: "is = xs @ [i] @ ys @ [i] @ zs"
    using not_distinct_decomp by blast
  have "chain nxt m i (i # ys @ [i] @ zs)" "chain nxt m i (i # zs)"
    using chain_suffix [of nxt m cur xs i "ys @ i # zs"] chain_suffix [of nxt m cur "xs @ i # ys" i zs] assms
    by (simp_all add: s)
  from chain_det [OF this] show False by simp
qed

lemma chain_mem: "chain nxt m cur is \<Longrightarrow> i \<in> set is \<Longrightarrow> i \<noteq> NULL_EDGE \<and> i \<in> dom m"
  by (induction "is" arbitrary: cur) (auto split: option.splits)

text \<open>
  The interface of one chain direction: the field, the walk and the search loop, each with the
  equation of its code. Outgoing and incoming chains are its two interpretations.
\<close>

locale chain_dir =
  fixes nxt :: "edge \<Rightarrow> EdgeId"
    and set_nxt :: "EdgeId \<Rightarrow> edge \<Rightarrow> edge"
    and walk :: "(EdgeId \<rightharpoonup> edge) \<Rightarrow> EdgeId \<Rightarrow> EdgeId list \<Rightarrow> EdgeId list option"
    and search :: "EdgeId \<Rightarrow> EdgeId \<Rightarrow> (EdgeId \<rightharpoonup> edge) \<Rightarrow> EdgeId \<Rightarrow> ((EdgeId \<rightharpoonup> edge) \<times> EdgeId option) option"
  assumes nxt_set: "nxt (set_nxt v e) = v"
    and walk_eq: "walk m cur r = (if cur = NULL_EDGE then Some r
      else (case m cur of Some e \<Rightarrow> walk m (nxt e) (r @ [cur]) | None \<Rightarrow> Some r))"
    and search_eq: "search x v m cur = (if cur = NULL_EDGE then Some (m, None)
      else (case m cur of None \<Rightarrow> Some (m, None)
        | Some e \<Rightarrow> if nxt e = x then Some (m(cur \<mapsto> set_nxt v e), Some cur) else search x v m (nxt e)))"
begin

lemma walk_chain: "chain nxt m cur is \<Longrightarrow> walk m cur r = Some (r @ is)"
  by (induction "is" arbitrary: cur r) (subst walk_eq, auto split: option.splits)+

lemma search_absent:
  "chain nxt m cur is \<Longrightarrow> x \<notin> set is \<Longrightarrow> x \<noteq> NULL_EDGE \<Longrightarrow> search x v m cur = Some (m, None)"
proof (induction "is" arbitrary: cur)
  case Nil
  then show ?case by (subst search_eq) simp
next
  case (Cons i "is")
  then obtain e where e: "m i = Some e" "chain nxt m (nxt e) is" "cur = i" "i \<noteq> NULL_EDGE"
    by (auto split: option.splits)
  have "nxt e \<noteq> x"
    using e(2) Cons.prems by (cases "is") auto
  with e Cons show ?case by (subst search_eq) simp
qed

lemma search_unlinks:
  assumes "chain nxt m cur is" and "x \<in> set is" and "x \<noteq> cur" and "m x = Some ex"
  shows "\<exists>p e. m p = Some e \<and> p \<in> set is \<and> p \<noteq> x \<and>
    search x (nxt ex) m cur = Some (m(p \<mapsto> set_nxt (nxt ex) e), Some p) \<and>
    chain nxt (m(p \<mapsto> set_nxt (nxt ex) e)) cur (remove1 x is)"
  using assms
proof (induction "is" arbitrary: cur)
  case Nil
  then show ?case by simp
next
  case (Cons i "is")
  obtain e where e: "m i = Some e" "chain nxt m (nxt e) is" "cur = i" "i \<noteq> NULL_EDGE"
    using Cons.prems(1) by (auto split: option.splits)
  have dist: "distinct (i # is)" by (rule chain_distinct [OF Cons.prems(1)])
  have x: "x \<in> set is" "x \<noteq> i" using Cons.prems e(3) by auto
  show ?case
  proof (cases "nxt e = x")
    case True
    then obtain js where js: "is = x # js" "chain nxt m (nxt ex) js"
      using e(2) x(1) Cons.prems(4) by (cases "is") (auto split: option.splits)
    have "chain nxt (m(i \<mapsto> set_nxt (nxt ex) e)) (nxt ex) js"
      using js dist chain_cong [of js nxt m "m(i \<mapsto> set_nxt (nxt ex) e)" "nxt ex"] by fastforce
    moreover have "search x (nxt ex) m i = Some (m(i \<mapsto> set_nxt (nxt ex) e), Some i)"
      using True e by (subst search_eq) simp
    ultimately show ?thesis
      using e x js by (intro exI [of _ i] exI [of _ e]) (simp add: nxt_set fun_upd_def)
  next
    case False
    obtain p e' where p: "m p = Some e'" "p \<in> set is" "p \<noteq> x"
      "search x (nxt ex) m (nxt e) = Some (m(p \<mapsto> set_nxt (nxt ex) e'), Some p)"
      "chain nxt (m(p \<mapsto> set_nxt (nxt ex) e')) (nxt e) (remove1 x is)"
      using Cons.IH [OF e(2) x(1) False [symmetric] Cons.prems(4)] by blast
    have "p \<noteq> i" using p(2) dist by auto
    moreover have "search x (nxt ex) m i = search x (nxt ex) m (nxt e)"
      using False e by (subst search_eq) simp
    ultimately show ?thesis
      using p e x by (intro exI [of _ p] exI [of _ e']) (simp add: fun_upd_def)
  qed
qed

lemma search_within:
  "chain nxt m cur is \<Longrightarrow> search x v m cur = Some (m', p) \<Longrightarrow> i \<notin> set is \<Longrightarrow> m' i = m i"
proof (induction "is" arbitrary: cur)
  case Nil
  then show ?case by (subst (asm) search_eq) simp
next
  case (Cons j "is")
  then show ?case by (subst (asm) (2) search_eq) (auto split: option.splits if_splits)
qed

text \<open>One direction of unlinking as a whole: the head moves on, or the predecessor is found.\<close>

lemma unlink_dir:
  assumes "chain nxt m cur is" and "x \<in> set is" and "m x = Some ex"
  shows "\<exists>m' p. (if cur = x then Some (m, None) else search x (nxt ex) m cur) = Some (m', p) \<and>
    chain nxt m' (if cur = x then nxt ex else cur) (remove1 x is) \<and> m' x = Some ex \<and>
    (\<forall>i. m' i = m i \<or> m' i = map_option (set_nxt (nxt ex)) (m i))"
proof (cases "cur = x")
  case True
  with assms show ?thesis by (cases "is") auto
next
  case False
  from search_unlinks [OF assms(1,2) False [symmetric] assms(3)] obtain p e
    where p: "m p = Some e" "p \<noteq> x"
      "search x (nxt ex) m cur = Some (m(p \<mapsto> set_nxt (nxt ex) e), Some p)"
      "chain nxt (m(p \<mapsto> set_nxt (nxt ex) e)) cur (remove1 x is)" by blast
  show ?thesis
    by (rule exI [of _ "m(p \<mapsto> set_nxt (nxt ex) e)"], rule exI [of _ "Some p"])
      (use p assms(3) False in simp)
qed

end

interpretation oc: chain_dir e_next_out "\<lambda>v e. e\<lparr>e_next_out := v\<rparr>" es_out_edges_loop es_unlink_out_loop
  by standard (simp, rule es_out_edges_loop.simps, rule es_unlink_out_loop.simps)

interpretation ic: chain_dir e_next_in "\<lambda>v e. e\<lparr>e_next_in := v\<rparr>" es_in_edges_loop es_unlink_in_loop
  by standard (simp, rule es_in_edges_loop.simps, rule es_unlink_in_loop.simps)

section \<open>Lemmas: operations on chains\<close>

lemma es_wal_insert_simps [simp]:
  "es_edges (es_wal_insert c i e s) = es_edges s" "es_free_list (es_wal_insert c i e s) = es_free_list s"
  "es_next_id (es_wal_insert c i e s) = es_next_id s" "es_free_count (es_wal_insert c i e s) = es_free_count s"
  by (simp_all add: es_wal_insert_def split: option.split)

lemma es_persist_edges [simp]: "es_edges (es_persist c p s) = es_edges s"
  by (simp add: es_persist_def split: option.split)

lemma es_link_edges:
  "es_edges (fst (es_link_into_chains c i fo fi s)) =
    (es_edges s)(i := map_option (\<lambda>e. e\<lparr>e_next_out := fo, e_next_in := fi\<rparr>) (es_edges s i))"
  by (auto simp: es_link_into_chains_def es_get_mut_def Let_def fun_upd_idem split: option.split)

lemma es_persist_frame [simp]:
  "es_next_id (es_persist c p s) = es_next_id s" "es_free_list (es_persist c p s) = es_free_list s"
  by (simp_all add: es_persist_def split: option.split)

text \<open>What the chains do not see of an edge, and what only the chains do.\<close>

abbreviation unlinked :: "edge \<Rightarrow> edge" where
  "unlinked e \<equiv> e\<lparr>e_next_out := 0, e_next_in := 0\<rparr>"

lemma es_unlink_chains:
  assumes "chain e_next_out (es_edges s) fo outs" and "chain e_next_in (es_edges s) fi ins"
    and "x \<in> set outs" and "x \<in> set ins" and "es_edges s x = Some e"
  shows "\<exists>s'. es_unlink_from_chains c x fo fi s =
      Some (True, s', if fo = x then e_next_out e else fo, if fi = x then e_next_in e else fi) \<and>
    chain e_next_out (es_edges s') (if fo = x then e_next_out e else fo) (remove1 x outs) \<and>
    chain e_next_in (es_edges s') (if fi = x then e_next_in e else fi) (remove1 x ins) \<and>
    (\<forall>i. i \<notin> set outs \<longrightarrow> map_option e_next_out (es_edges s' i) = map_option e_next_out (es_edges s i)) \<and>
    (\<forall>i. i \<notin> set ins \<longrightarrow> map_option e_next_in (es_edges s' i) = map_option e_next_in (es_edges s i)) \<and>
    (\<forall>i. map_option unlinked (es_edges s' i) = map_option unlinked (es_edges s i)) \<and>
    es_next_id s' = es_next_id s \<and> es_free_list s' = es_free_list s"
proof -
  from oc.unlink_dir [OF assms(1,3,5)] obtain m1 p where
      1: "(if fo = x then Some (es_edges s, None)
        else es_unlink_out_loop x (e_next_out e) (es_edges s) fo) = Some (m1, p)"
    and out1: "chain e_next_out m1 (if fo = x then e_next_out e else fo) (remove1 x outs)"
    and x1: "m1 x = Some e"
    and d1: "\<And>i. m1 i = es_edges s i \<or> m1 i = map_option (\<lambda>e'. e'\<lparr>e_next_out := e_next_out e\<rparr>) (es_edges s i)"
    by blast
  have same1: "map_option e_next_in (m1 i) = map_option e_next_in (es_edges s i)"
      "map_option unlinked (m1 i) = map_option unlinked (es_edges s i)" for i
    using d1 [of i] by (auto simp: option.map_comp comp_def)
  have in1: "chain e_next_in m1 fi ins"
    using assms(2) chain_cong [of ins e_next_in m1 "es_edges s" fi] same1 by simp
  from ic.unlink_dir [OF this assms(4) x1] obtain m2 q where
      2: "(if fi = x then Some (m1, None) else es_unlink_in_loop x (e_next_in e) m1 fi) = Some (m2, q)"
    and in2: "chain e_next_in m2 (if fi = x then e_next_in e else fi) (remove1 x ins)"
    and d2: "\<And>i. m2 i = m1 i \<or> m2 i = map_option (\<lambda>e'. e'\<lparr>e_next_in := e_next_in e\<rparr>) (m1 i)"
    by blast
  have same2: "map_option e_next_out (m2 i) = map_option e_next_out (m1 i)"
      "map_option unlinked (m2 i) = map_option unlinked (m1 i)" for i
    using d2 [of i] by (auto simp: option.map_comp comp_def)
  have out2: "chain e_next_out m2 (if fo = x then e_next_out e else fo) (remove1 x outs)"
    using out1 chain_cong [of "remove1 x outs" e_next_out m2 m1] same2 by simp
  have "m1 i = es_edges s i" if "i \<notin> set outs" for i
    using 1 oc.search_within [OF assms(1) _ that] by (auto split: if_splits)
  moreover have "m2 i = m1 i" if "i \<notin> set ins" for i
    using 2 ic.search_within [OF in1 _ that] by (auto split: if_splits)
  moreover have "es_unlink_from_chains c x fo fi s =
      Some (True, es_persist c q (es_persist c p (s\<lparr>es_edges := m2\<rparr>)),
        if fo = x then e_next_out e else fo, if fi = x then e_next_in e else fi)"
    unfolding es_unlink_from_chains_def assms(5) option.case 1 prod.case 2 by simp
  ultimately show ?thesis
    using out2 in2 same1 same2 by (intro exI [of _ "es_persist c q (es_persist c p (s\<lparr>es_edges := m2\<rparr>))"]) simp
qed

lemma es_visible_chain:
  "chain e_next_out m cur is \<Longrightarrow> es_out_edges_visible_loop tx m cur r =
    Some (r @ filter (\<lambda>i. case m i of Some e \<Rightarrow> edge_is_alive e tx | None \<Rightarrow> False) is)"
  by (induction "is" arbitrary: cur r) (subst es_out_edges_visible_loop.simps, auto split: option.splits)+

text \<open>A loop in the chain: the walk from an edge that is its own successor never returns.\<close>

lemma es_out_edges_loop_cycle:
  assumes "m i = Some e" and "e_next_out e = i" and "i \<noteq> NULL_EDGE"
  shows "es_out_edges_loop m i r = None"
proof -
  have "\<not> (\<exists>e. m i = Some e \<and> e_next_out e = i \<and> i \<noteq> NULL_EDGE)" if "es_out_edges_loop m i r = Some y" for y
    using that by (rule es_out_edges_loop.raw_induct [rotated]) (auto split: if_splits option.splits)
  with assms show ?thesis by (cases "es_out_edges_loop m i r") auto
qed

section \<open>Lemmas: logging\<close>

abbreviation es_synced :: "edge codec \<Rightarrow> edge_store \<Rightarrow> edge_store \<Rightarrow> bool" where
  "es_synced c \<equiv> synced es_edges es_wal (kv_apply c)"

lemma es_put_synced:
  assumes "codec_ok c" and "es_edges s' = (es_edges s)(i \<mapsto> e)" and "es_wal s' = es_wal (es_wal_insert c i e s)"
  shows "es_synced c s s'"
  by (rule kv_synced_put [OF assms(1), where i = i and v = e])
    (simp_all add: assms(2,3), simp add: es_wal_insert_def)

lemma es_wal_insert_upd: "es_wal (es_wal_insert c i e (s\<lparr>es_edges := m\<rparr>)) = es_wal (es_wal_insert c i e s)"
  by (simp add: es_wal_insert_def split: option.split)

lemma es_insert_with_id_synced: "codec_ok c \<Longrightarrow> es_synced c s (es_insert_with_id c i src dst y row tx s)"
  by (rule es_put_synced [where i = i and e = "edge_new i src dst y row tx"])
    (simp_all add: es_insert_with_id_def Let_def es_wal_insert_upd)

lemma es_alloc_id_frame [simp]:
  "es_edges (snd (es_alloc_id s)) = es_edges s" "es_wal (snd (es_alloc_id s)) = es_wal s"
  by (simp_all add: es_alloc_id_def split: list.split)

lemma es_insert_edge_eq:
  "es_insert_edge c src dst y row tx s =
     (fst (es_alloc_id s), es_insert_with_id c (fst (es_alloc_id s)) src dst y row tx (snd (es_alloc_id s)))"
  by (simp add: es_insert_edge_def es_insert_with_id_def Let_def split_beta)

lemma es_hard_delete_synced: "es_synced c s (snd (es_hard_delete i s))"
  by (rule kv_synced_del) (auto simp: es_hard_delete_def es_wal_delete_def Let_def split: option.split)

lemma es_soft_delete_synced:
  assumes "codec_ok c"
  shows "es_synced c s (snd (es_soft_delete c i tx s))"
proof (cases "es_edges s i")
  case None
  then show ?thesis by (simp add: es_soft_delete_def synced_refl)
next
  case (Some e)
  show ?thesis
    by (rule es_put_synced [OF assms, where i = i and e = "e\<lparr>e_deleted_tx := tx\<rparr>"])
      (simp_all add: Some es_soft_delete_def es_wal_insert_def Let_def split: option.split)
qed

lemma es_link_synced:
  assumes "codec_ok c"
  shows "es_synced c s (fst (es_link_into_chains c i fo fi s))"
proof (cases "es_edges s i")
  case None
  then show ?thesis
    by (simp add: es_link_into_chains_def es_get_mut_def Let_def synced_refl)
next
  case (Some e)
  show ?thesis
    by (rule es_put_synced [OF assms, where i = i and e = "e\<lparr>e_next_out := fo, e_next_in := fi\<rparr>"])
      (simp_all add: Some es_link_into_chains_def es_get_mut_def Let_def es_wal_insert_upd)
qed

text \<open>Unlinking changes at most the two predecessors, and logs both.\<close>

text \<open>\<open>m'\<close> differs from \<open>m\<close> at most at \<open>p\<close>, where it has an edge.\<close>

definition only_at :: "EdgeId option \<Rightarrow> (EdgeId \<rightharpoonup> edge) \<Rightarrow> (EdgeId \<rightharpoonup> edge) \<Rightarrow> bool" where
  "only_at p m m' \<longleftrightarrow> (\<forall>i. Some i \<noteq> p \<longrightarrow> m' i = m i) \<and> (\<forall>i. p = Some i \<longrightarrow> i \<in> dom m')"

definition upd_at :: "EdgeId option \<Rightarrow> (EdgeId \<rightharpoonup> edge) \<Rightarrow> (EdgeId \<rightharpoonup> edge) \<Rightarrow> (EdgeId \<rightharpoonup> edge)" where
  "upd_at p m m' = (case p of None \<Rightarrow> m | Some i \<Rightarrow> m(i := m' i))"

lemma es_unlink_out_loop_result:
  assumes "es_unlink_out_loop x v m cur = Some y"
  shows "only_at (snd y) m (fst y)"
  using assms
  by (rule es_unlink_out_loop.raw_induct [rotated]) (auto simp: only_at_def split: if_splits option.splits)

lemma es_unlink_in_loop_result:
  assumes "es_unlink_in_loop x v m cur = Some y"
  shows "only_at (snd y) m (fst y)"
  using assms
  by (rule es_unlink_in_loop.raw_induct [rotated]) (auto simp: only_at_def split: if_splits option.splits)

lemma upd_at_both: "only_at p m m1 \<Longrightarrow> only_at q m1 m2 \<Longrightarrow> upd_at q (upd_at p m m2) m2 = m2"
  by (rule ext) (auto simp: only_at_def upd_at_def split: option.split)

lemma es_persist_synced:
  assumes "codec_ok c" and "\<And>i. p = Some i \<Longrightarrow> i \<in> dom (es_edges s)"
  shows "es_synced c (s\<lparr>es_edges := m\<rparr>) ((es_persist c p s)\<lparr>es_edges := upd_at p m (es_edges s)\<rparr>)"
proof (cases p)
  case None
  then show ?thesis by (simp add: es_persist_def upd_at_def synced_refl)
next
  case (Some i)
  then obtain e where e: "es_edges s i = Some e" using assms(2) by blast
  show ?thesis
    by (rule es_put_synced [OF assms(1), where i = i and e = e])
      (simp_all add: Some e es_persist_def upd_at_def es_wal_insert_upd)
qed

lemma es_persist_both_synced:
  assumes "codec_ok c" and "es_edges t = m2"
    and "\<And>i. p = Some i \<Longrightarrow> i \<in> dom m2" and "\<And>i. q = Some i \<Longrightarrow> i \<in> dom m2"
    and "upd_at q (upd_at p m m2) m2 = m2"
  shows "es_synced c (t\<lparr>es_edges := m\<rparr>) (es_persist c q (es_persist c p t))"
proof -
  have 1: "es_synced c (t\<lparr>es_edges := m\<rparr>) ((es_persist c p t)\<lparr>es_edges := upd_at p m m2\<rparr>)"
    using es_persist_synced [OF assms(1), of p t m] assms(2,3) by simp
  have 2: "es_synced c ((es_persist c p t)\<lparr>es_edges := upd_at p m m2\<rparr>)
      ((es_persist c q (es_persist c p t))\<lparr>es_edges := m2\<rparr>)"
    using es_persist_synced [OF assms(1), of q "es_persist c p t" "upd_at p m m2"] assms(2,4,5) by simp
  have "(es_persist c q (es_persist c p t))\<lparr>es_edges := m2\<rparr> = es_persist c q (es_persist c p t)"
    using assms(2) by (intro edge_store.equality) simp_all
  with synced_trans [OF 1 2] show ?thesis by simp
qed

lemma es_unlink_result:
  assumes "es_unlink_from_chains c x fo fi s = Some (b, s', fo', fi')" and "es_edges s x = Some e"
  obtains m1 m2 p q where "b" and "s' = es_persist c q (es_persist c p (s\<lparr>es_edges := m2\<rparr>))"
    and "fo' = (if fo = x then e_next_out e else fo)" and "fi' = (if fi = x then e_next_in e else fi)"
    and "(if fo = x then Some (es_edges s, None)
      else es_unlink_out_loop x (e_next_out e) (es_edges s) fo) = Some (m1, p)"
    and "(if fi = x then Some (m1, None) else es_unlink_in_loop x (e_next_in e) m1 fi) = Some (m2, q)"
  using assms by (fastforce simp: es_unlink_from_chains_def split: option.splits prod.splits)

lemma es_unlink_synced:
  assumes "codec_ok c" and "es_unlink_from_chains c x fo fi s = Some (b, s', fo', fi')"
  shows "es_synced c s s'"
proof (cases "es_edges s x")
  case None
  with assms(2) show ?thesis by (simp add: es_unlink_from_chains_def synced_refl)
next
  case (Some e)
  from assms(2) Some obtain m1 m2 p q where s': "s' = es_persist c q (es_persist c p (s\<lparr>es_edges := m2\<rparr>))"
    and 1: "(if fo = x then Some (es_edges s, None)
      else es_unlink_out_loop x (e_next_out e) (es_edges s) fo) = Some (m1, p)"
    and 2: "(if fi = x then Some (m1, None) else es_unlink_in_loop x (e_next_in e) m1 fi) = Some (m2, q)"
    by (rule es_unlink_result)
  have at: "only_at p (es_edges s) m1" "only_at q m1 m2"
    using 1 2 es_unlink_out_loop_result es_unlink_in_loop_result
    by (fastforce simp: only_at_def split: if_splits)+
  then have "\<And>i. p = Some i \<Longrightarrow> i \<in> dom m2" and "\<And>i. q = Some i \<Longrightarrow> i \<in> dom m2"
    unfolding only_at_def by (metis domIff)+
  from es_persist_both_synced [OF assms(1) _ this upd_at_both [OF at], of "s\<lparr>es_edges := m2\<rparr>"]
  show ?thesis by (simp add: s')
qed

lemma es_exec_synced:
  assumes "codec_ok c"
  shows "es_synced c s (es_exec c op s)"
proof (cases op)
  case EAlloc
  then show ?thesis by (simp add: es_alloc_id_direct_def synced_refl)
next
  case (EInsert src dst y row tx)
  have "es_synced c s (snd (es_alloc_id s))" by (rule synced_refl) simp_all
  then show ?thesis
    using es_insert_with_id_synced [OF assms] by (simp add: EInsert es_insert_edge_eq) (rule synced_trans)
next
  case (EUnlink i fo fi)
  then show ?thesis
    using es_unlink_synced [OF assms] by (auto simp: synced_refl split: option.split)
next
  case (EFlush now)
  then show ?thesis by (auto intro!: synced_flush simp: es_flush_def split: option.split)
next
  case (EThread now)
  then show ?thesis by (auto intro!: synced_thread)
qed (simp_all add: assms es_insert_with_id_synced es_hard_delete_synced es_soft_delete_synced es_link_synced)

section \<open>Lemmas: opening and identifiers\<close>

lemma es_replay_edges:
  "es_edges (snd (fold (es_replay_record c) rs (m, s))) = fold (kv_apply c) rs (es_edges s)"
proof (induction rs arbitrary: m s)
  case Nil
  then show ?case by simp
next
  case (Cons r rs)
  have "es_edges (snd (es_replay_record c r (m, s))) = kv_apply c r (es_edges s)"
    by (auto simp: es_replay_record_def kv_apply_def fun_upd_idem split: prod.split option.split)
  with Cons [of "fst (es_replay_record c r (m, s))" "snd (es_replay_record c r (m, s))"]
  show ?case by simp
qed

lemma es_replay_max:
  "no_max_id rs \<Longrightarrow> m \<noteq> - 1 \<Longrightarrow> fst (fold (es_replay_record c) rs (m, s)) \<noteq> - 1"
proof (induction rs arbitrary: m s)
  case Nil
  then show ?case by simp
next
  case (Cons r rs)
  have "fst (es_replay_record c r (m, s)) \<noteq> - 1"
    using Cons.prems
    by (auto simp: es_replay_record_def no_max_id_def max_def split: prod.split option.split)
  with Cons.IH [of "fst (es_replay_record c r (m, s))" "snd (es_replay_record c r (m, s))"] Cons.prems(1)
  show ?case by (simp add: no_max_id_def)
qed

lemma es_open_Ok:
  assumes "es_open c checks now f k = Ok s"
  shows "\<exists>w. wal_spawn checks now f (durability k) (wal_channel_capacity k) = Ok w \<and> es_wal s = Some w \<and>
    (if 4 < length (f_data f) then snd (replay_wal (f_data f)) = None \<and>
       es_edges s = fold (kv_apply c) (fst (replay_wal (f_data f))) Map.empty
     else es_edges s = Map.empty)"
  using assms es_replay_edges [of c "fst (replay_wal (f_data f))" 0 es_new]
  by (auto simp: es_open_def Let_def split_beta es_new_def
      split: if_splits outcome.splits option.splits)

lemma es_open_total:
  assumes "wal_spawn checks now f (durability k) (wal_channel_capacity k) = Ok w"
    and "4 < length (f_data f) \<Longrightarrow> snd (replay_wal (f_data f)) = None \<and> no_max_id (fst (replay_wal (f_data f)))"
  shows "\<exists>s. es_open c checks now f k = Ok s"
  using assms es_replay_max [of "fst (replay_wal (f_data f))" 0 c es_new]
  by (auto simp: es_open_def Let_def split_beta)

interpretation esr: keyed_store es_edges es_wal "kv_apply c" Map.empty "es_exec c"
  "\<lambda>bs. es_open c checks now (file_of bs) k" checks now "durability k" "wal_channel_capacity k"
  "codec_ok c" no_max_id es_get_mut
proof
  show "codec_ok c \<Longrightarrow> es_synced c s (es_exec c op s)" for s op
    by (rule es_exec_synced)
  then show "codec_ok c \<Longrightarrow> logged es_edges es_wal (kv_apply c) s (es_exec c op s)" for s op
    by (rule synced_logged)
  show "es_wal (es_get_mut i f s) = es_wal s" "j \<noteq> i \<Longrightarrow> es_edges (es_get_mut i f s) j = es_edges s j" for i j f s
    by (simp_all add: es_get_mut_def split: option.split)
qed (use es_open_Ok [where f = "file_of bs" for bs] es_open_total [where f = "file_of bs" for bs] in fastforce)+

interpretation esa: id_allocator "\<lambda>s. dom (es_edges s)" es_free_list es_next_id es_alloc_id
  by standard (simp_all add: es_alloc_id_def split: list.split)

section \<open>Example\<close>

text \<open>Two edges out of node 5, linked one after the other; edge 1 ends up in front.\<close>

definition edge_example :: edge_store where
  "edge_example =
     (let (e0, s0) = es_insert_edge edge_example_codec 5 6 0 0 1 (es_with_capacity 8);
          (e1, s1) = es_insert_edge edge_example_codec 5 6 0 0 2 s0;
          (s2, fo, fi) = es_link_into_chains edge_example_codec e0 NULL_EDGE NULL_EDGE s1
      in fst (es_link_into_chains edge_example_codec e1 fo fi s2))"

lemma edge_example_chains_1: "chain e_next_out (es_edges edge_example) 1 [1, 0]"
  by code_simp

lemma edge_example_chains_2: "chain e_next_in (es_edges edge_example) 1 [1, 0]"
  by code_simp

lemmas edge_example_chains = edge_example_chains_1 edge_example_chains_2

text \<open>A third edge, not linked yet.\<close>

definition edge_example_three :: edge_store where
  "edge_example_three = snd (es_insert_edge edge_example_codec 5 6 0 0 3 edge_example)"

lemma edge_example_three_chains_1: "chain e_next_out (es_edges edge_example_three) 1 [1, 0]"
  by code_simp

lemma edge_example_three_chains_2: "chain e_next_in (es_edges edge_example_three) 1 [1, 0]"
  by code_simp

lemma edge_example_three_chains_3: "es_contains 2 edge_example_three" "2 \<noteq> NULL_EDGE"
  by (code_simp, simp add: NULL_EDGE_def)

lemmas edge_example_three_chains = edge_example_three_chains_1 edge_example_three_chains_2 edge_example_three_chains_3

definition edge_example_opened :: edge_store where
  "edge_example_opened =
     (case es_open edge_example_codec False 0 (file_of []) consistency_immediate of Ok s \<Rightarrow> s | _ \<Rightarrow> es_new)"

definition edge_example_ops :: "edge_op list" where
  "edge_example_ops = [EHardDelete 4, EThread 0, EInsert 0 1 0 0 1]"

definition edge_example_wal :: wal_sys where
  "edge_example_wal =
     (case es_wal (fold (es_exec edge_example_codec) edge_example_ops edge_example_opened) of
       Some w \<Rightarrow> w | None \<Rightarrow> wal_example)"

lemma edge_example_run_1: "es_open edge_example_codec False 0 (file_of []) consistency_immediate = Ok edge_example_opened"
  by code_simp

lemma edge_example_run_2: "es_wal (fold (es_exec edge_example_codec) edge_example_ops edge_example_opened) = Some edge_example_wal"
  by code_simp

lemma edge_example_run_3: "\<forall>r\<in>set (wal_recs ([] @ ws_sent edge_example_wal)). wal_fits r"
  by code_simp

lemma edge_example_run_4: "no_max_id (wal_recs ([] @ ws_sent edge_example_wal))"
  by code_simp

lemma edge_example_run_5: "vec_capacity_ok (batch_bytes (durability consistency_immediate))"
  by code_simp

lemma edge_example_run_6: "durability consistency_immediate \<noteq> Async"
  by code_simp

lemma edge_example_run_7: "wal_base [] = fold encode_cmd [] WAL_MAGIC"
  by code_simp

lemmas edge_example_run = edge_example_run_1 edge_example_run_2 edge_example_run_3 edge_example_run_4 edge_example_run_5 edge_example_run_6 edge_example_run_7

section \<open>Properties\<close>

text \<open>
  Linking an edge that is in neither chain puts it in front of its source's outgoing and its
  target's incoming chain: walking from the returned heads gives the new edge and then the old
  chain, in both directions, and the visible walk gives those of them that are alive.
\<close>

theorem edge_link_prepends:
  assumes "chain e_next_out (es_edges s) fo outs" and "chain e_next_in (es_edges s) fi ins"
    and "x \<in> dom (es_edges s)" and "x \<noteq> NULL_EDGE" and "x \<notin> set outs" and "x \<notin> set ins"
    and "es_link_into_chains c x fo fi s = (s', fo', fi')"
  shows "es_out_edges fo' s' = Some (x # outs) \<and> es_in_edges fi' s' = Some (x # ins) \<and>
    es_out_edges_visible fo' tx s' =
      Some (filter (\<lambda>i. case es_edges s' i of Some e \<Rightarrow> edge_is_alive e tx | None \<Rightarrow> False) (x # outs))"
proof -
  obtain e where e: "es_edges s x = Some e" using assms(3) by blast
  have s': "es_edges s' = (es_edges s)(x \<mapsto> e\<lparr>e_next_out := fo, e_next_in := fi\<rparr>)"
    using es_link_edges [of c x fo fi s] assms(7) e by simp
  have heads: "fo' = x" "fi' = x"
    using assms(7) by (auto simp: es_link_into_chains_def Let_def)
  have "chain e_next_out (es_edges s') fo outs"
    using assms(1,5) chain_cong [of outs e_next_out "es_edges s" "es_edges s'" fo] by (fastforce simp: s')
  then have out: "chain e_next_out (es_edges s') x (x # outs)"
    using assms(4) by (simp add: s')
  have "chain e_next_in (es_edges s') fi ins"
    using assms(2,6) chain_cong [of ins e_next_in "es_edges s" "es_edges s'" fi] by (fastforce simp: s')
  then have inn: "chain e_next_in (es_edges s') x (x # ins)"
    using assms(4) by (simp add: s')
  show ?thesis
    using oc.walk_chain [OF out, of "[]"] ic.walk_chain [OF inn, of "[]"] es_visible_chain [OF out, of tx "[]"]
    by (simp add: heads es_out_edges_def es_in_edges_def es_out_edges_visible_def)
qed

theorem edge_link_prepends_witness:
  "\<exists>s' fo' fi'. es_link_into_chains edge_example_codec 2 1 1 edge_example_three = (s', fo', fi') \<and>
     es_out_edges fo' s' = Some [2, 1, 0]"
proof -
  note h = edge_example_three_chains
  then have "2 \<in> dom (es_edges edge_example_three)" by (auto simp: es_contains_def)
  then show ?thesis
    using edge_link_prepends [OF h(1,2) _ h(4), of edge_example_codec]
    by (cases "es_link_into_chains edge_example_codec 2 1 1 edge_example_three") auto
qed

text \<open>
  Unlinking an edge that is in both chains removes exactly that edge from both and keeps the
  order of the others; the search loops end, and the call reports success.
\<close>

theorem edge_unlink_removes:
  assumes "chain e_next_out (es_edges s) fo outs" and "chain e_next_in (es_edges s) fi ins"
    and "x \<in> set outs" and "x \<in> set ins"
  shows "\<exists>s' fo' fi'. es_unlink_from_chains c x fo fi s = Some (True, s', fo', fi') \<and>
    es_out_edges fo' s' = Some (remove1 x outs) \<and> es_in_edges fi' s' = Some (remove1 x ins)"
proof -
  obtain e where e: "es_edges s x = Some e" using chain_mem [OF assms(1,3)] by blast
  from es_unlink_chains [OF assms e, of c] obtain s' fo' fi' where
    "es_unlink_from_chains c x fo fi s = Some (True, s', fo', fi')"
    "chain e_next_out (es_edges s') fo' (remove1 x outs)" "chain e_next_in (es_edges s') fi' (remove1 x ins)" by blast
  with oc.walk_chain [where r = "[]"] ic.walk_chain [where r = "[]"] show ?thesis
    by (fastforce simp: es_out_edges_def es_in_edges_def)
qed

theorem edge_unlink_removes_witness:
  "\<exists>s' fo' fi'. es_unlink_from_chains edge_example_codec 0 1 1 edge_example = Some (True, s', fo', fi') \<and>
     es_out_edges fo' s' = Some [1] \<and> es_in_edges fi' s' = Some [1]"
  using edge_unlink_removes [OF edge_example_chains, of 0 edge_example_codec] by simp

text \<open>
  Linking an edge that is already the head of its source's chain closes the chain to a loop:
  from then on \<open>out_edges\<close> on that chain does not return.
\<close>

theorem edge_relink_diverges:
  assumes "x \<in> dom (es_edges s)" and "x \<noteq> NULL_EDGE"
    and "es_link_into_chains c x x fi s = (s', fo', fi')"
  shows "es_out_edges fo' s' = None"
proof -
  obtain e where e: "es_edges s x = Some e" using assms(1) by blast
  have "fo' = x" using assms(3) by (auto simp: es_link_into_chains_def Let_def)
  moreover have "es_edges s' x = Some (e\<lparr>e_next_out := x, e_next_in := fi\<rparr>)"
    using es_link_edges [of c x x fi s] assms(3) e by simp
  ultimately show ?thesis
    using es_out_edges_loop_cycle [of "es_edges s'" x] assms(2) by (simp add: es_out_edges_def)
qed

theorem edge_relink_diverges_witness:
  "\<exists>s' fo' fi'. es_link_into_chains edge_example_codec 1 1 1 edge_example = (s', fo', fi') \<and>
     es_out_edges fo' s' = None"
proof -
  have "1 \<in> dom (es_edges edge_example)" "1 \<noteq> NULL_EDGE"
    using chain_mem [OF edge_example_chains(1), of 1] by auto
  then show ?thesis
    using edge_relink_diverges [of 1 edge_example edge_example_codec 1]
    by (cases "es_link_into_chains edge_example_codec 1 1 1 edge_example") auto
qed

text \<open>
  C16. Durability of the edge store, chains included: use the store in any way (any sequence of its operations,
  linking and unlinking among them, and of writes through \<open>get_mut\<close>), with the WAL thread iterating anywhere in
  between, and flush. Opening the durable file again succeeds and gives back every edge that was in memory, and no
  other, except under identifiers that were passed to \<open>get_mut\<close>, whose writes nothing logs; when there were none,
  every walk of a chain, outgoing, incoming or visible at a snapshot, has the result it had. Assumed as for nodes:
  a faithful serialiser, payloads below \<open>2 ^ 32 - 9\<close> bytes, no identifier \<open>u64::MAX\<close>, a level that syncs.
\<close>

theorem edge_store_recovery:
  assumes "codec_ok c" and "es_open c checks now (file_of bs) k = Ok s"
    and "wal_base bs = fold encode_cmd cs WAL_MAGIC"
    and "vec_capacity_ok (batch_bytes (durability k))" and "durability k \<noteq> Async"
    and "es_wal (fold (es_use c) us s) = Some w"
    and "\<forall>r\<in>set (wal_recs (cs @ ws_sent w)). wal_fits r" and "no_max_id (wal_recs (cs @ ws_sent w))"
  shows "\<exists>w' r. es_wal (es_flush n (fold (es_use c) us s)) = Some w' \<and>
    es_open c checks now (file_of (durable (ws_file w'))) k = Ok r \<and>
    (\<forall>i. i \<notin> get_mut_keys us \<longrightarrow> es_edges r i = es_edges (fold (es_use c) us s) i) \<and>
    (get_mut_keys us = {} \<longrightarrow> (\<forall>start tx.
      es_out_edges start r = es_out_edges start (fold (es_use c) us s) \<and>
      es_in_edges start r = es_in_edges start (fold (es_use c) us s) \<and>
      es_out_edges_visible start tx r = es_out_edges_visible start tx (fold (es_use c) us s)))"
proof -
  let ?s = "fold (es_use c) us s"
  obtain r where r: "es_open c checks now (file_of (durable (ws_file (wal_flush n w)))) k = Ok r"
    "\<forall>i. i \<notin> get_mut_keys us \<longrightarrow> es_edges r i = es_edges ?s i"
    using esr.recover_use [OF assms(2,3,1,4,5) assms(6-8) [unfolded es_use_def], of n] by (auto simp: es_use_def)
  moreover have "es_edges r = es_edges ?s" if "get_mut_keys us = {}" using r(2) that by auto
  ultimately show ?thesis using assms(6)
    by (auto simp: es_flush_def es_out_edges_def es_in_edges_def es_out_edges_visible_def)
qed

theorem edge_store_recovery_witness:
  "\<exists>w' r. es_wal (es_flush 0 (fold (es_use edge_example_codec) (map Call edge_example_ops) edge_example_opened)) = Some w' \<and>
    es_open edge_example_codec False 0 (file_of (durable (ws_file w'))) consistency_immediate = Ok r \<and>
    es_in_edges 0 r = es_in_edges 0 (fold (es_use edge_example_codec) (map Call edge_example_ops) edge_example_opened)"
proof -
  have "es_wal (fold (es_use edge_example_codec) (map Call edge_example_ops) edge_example_opened) = Some edge_example_wal"
    using edge_example_run(2) by (simp add: es_use_def)
  from edge_store_recovery [OF edge_example_codec_ok edge_example_run(1,7,5,6) this edge_example_run(3,4), of 0]
  show ?thesis by (metis get_mut_keys_Call)
qed

end
