(* ===== verification/Adjacency.thy ===== *)
theory Adjacency
  imports Edge_Store
begin

text \<open>
  The adjacency chains of a whole graph (\<^verbatim>\<open>src/src/storage/edge_store.rs\<close>). A caller keeps the two
  heads of every node and adds an edge by \<open>insert_edge\<close> and \<open>link_into_chains\<close>, removes one by
  \<open>unlink_from_chains\<close> and \<open>hard_delete\<close>, and hides one by \<open>soft_delete\<close>, as the tests of the edge store
  do. The chains implement an abstract graph, the list of its edges with the latest in front.
\<close>

section \<open>A caller of the edge store\<close>

record adjacency =
  adj_store :: edge_store
  adj_out :: "NodeId \<Rightarrow> EdgeId"
  adj_in :: "NodeId \<Rightarrow> EdgeId"

definition adj_empty :: adjacency where
  "adj_empty = \<lparr>adj_store = es_new, adj_out = (\<lambda>_. NULL_EDGE), adj_in = (\<lambda>_. NULL_EDGE)\<rparr>"

datatype adj_op =
    AddEdge NodeId NodeId TypeId u32 TxId
  | RemoveEdge EdgeId
  | HideEdge EdgeId TxId

definition adj_add :: "edge codec \<Rightarrow> NodeId \<Rightarrow> NodeId \<Rightarrow> TypeId \<Rightarrow> u32 \<Rightarrow> TxId \<Rightarrow> adjacency \<Rightarrow> adjacency" where
  "adj_add c src dst etype row tx a =
     (let (i, s1) = es_insert_edge c src dst etype row tx (adj_store a);
          (s2, fo, fi) = es_link_into_chains c i (adj_out a src) (adj_in a dst) s1
      in \<lparr>adj_store = s2, adj_out = (adj_out a)(src := fo), adj_in = (adj_in a)(dst := fi)\<rparr>)"

definition adj_remove :: "edge codec \<Rightarrow> EdgeId \<Rightarrow> adjacency \<Rightarrow> adjacency option" where
  "adj_remove c i a =
     (case es_get i (adj_store a) of
       None \<Rightarrow> Some a
     | Some e \<Rightarrow>
         (case es_unlink_from_chains c i (adj_out a (e_src e)) (adj_in a (e_dst e)) (adj_store a) of
           None \<Rightarrow> None
         | Some (_, s1, fo, fi) \<Rightarrow>
             Some \<lparr>adj_store = snd (es_hard_delete i s1), adj_out = (adj_out a)(e_src e := fo),
               adj_in = (adj_in a)(e_dst e := fi)\<rparr>))"

primrec adj_exec :: "edge codec \<Rightarrow> adj_op \<Rightarrow> adjacency \<Rightarrow> adjacency option" where
  "adj_exec c (AddEdge src dst etype row tx) a = Some (adj_add c src dst etype row tx a)"
| "adj_exec c (RemoveEdge i) a = adj_remove c i a"
| "adj_exec c (HideEdge i tx) a = Some (a\<lparr>adj_store := snd (es_soft_delete c i tx (adj_store a))\<rparr>)"

primrec adj_run :: "edge codec \<Rightarrow> adj_op list \<Rightarrow> adjacency \<Rightarrow> adjacency option" where
  "adj_run c [] a = Some a"
| "adj_run c (op # ops) a = (case adj_exec c op a of None \<Rightarrow> None | Some a' \<Rightarrow> adj_run c ops a')"

section \<open>The abstract graph\<close>

type_synonym graph = "(EdgeId \<times> NodeId \<times> NodeId) list"

definition graph_out :: "NodeId \<Rightarrow> graph \<Rightarrow> EdgeId list" where
  "graph_out n g = map fst (filter (\<lambda>(i, src, dst). src = n) g)"

definition graph_in :: "NodeId \<Rightarrow> graph \<Rightarrow> EdgeId list" where
  "graph_in n g = map fst (filter (\<lambda>(i, src, dst). dst = n) g)"

text \<open>The identifier of an added edge is the allocator's choice.\<close>

primrec graph_exec :: "EdgeId \<Rightarrow> adj_op \<Rightarrow> graph \<Rightarrow> graph" where
  "graph_exec i (AddEdge src dst etype row tx) g = (i, src, dst) # g"
| "graph_exec _ (RemoveEdge i) g = filter (\<lambda>x. fst x \<noteq> i) g"
| "graph_exec _ (HideEdge i tx) g = g"

text \<open>
  The representation: the store has exactly the edges of the graph, with their ends, and the chains of
  every node are those the graph has; the identifiers are in order.
\<close>

definition adj_rep :: "graph \<Rightarrow> adjacency \<Rightarrow> bool" where
  "adj_rep g a \<longleftrightarrow>
     distinct (map fst g) \<and> dom (es_edges (adj_store a)) = fst ` set g \<and>
     (\<forall>(i, src, dst) \<in> set g. \<forall>e. es_edges (adj_store a) i = Some e \<longrightarrow> e_src e = src \<and> e_dst e = dst) \<and>
     (\<forall>n. chain e_next_out (es_edges (adj_store a)) (adj_out a n) (graph_out n g)) \<and>
     (\<forall>n. chain e_next_in (es_edges (adj_store a)) (adj_in a n) (graph_in n g)) \<and>
     esa.ok {} (adj_store a)"

section \<open>Lemmas\<close>

lemma graph_out_simps [simp]:
  "graph_out n [] = []" "graph_out n ((i, src, dst) # g) = (if src = n then i # graph_out n g else graph_out n g)"
  by (simp_all add: graph_out_def)

lemma graph_in_simps [simp]:
  "graph_in n [] = []" "graph_in n ((i, src, dst) # g) = (if dst = n then i # graph_in n g else graph_in n g)"
  by (simp_all add: graph_in_def)

lemma set_graph: "set (graph_out n g) = {i. \<exists>dst. (i, n, dst) \<in> set g}" "set (graph_in n g) = {i. \<exists>src. (i, src, n) \<in> set g}"
  by (induction g) (auto split: if_splits)

lemma set_graph_subset: "set (graph_out n g) \<subseteq> fst ` set g" "set (graph_in n g) \<subseteq> fst ` set g"
  by (auto simp: graph_out_def graph_in_def)

lemma graph_absent: "i \<notin> fst ` set g \<Longrightarrow> remove1 i (graph_out n g) = graph_out n g \<and> remove1 i (graph_in n g) = graph_in n g"
  using set_graph_subset [of n g] by (auto intro!: remove1_idem)

lemma graph_remove:
  assumes "distinct (map fst g)"
  shows "graph_out n (filter (\<lambda>x. fst x \<noteq> i) g) = remove1 i (graph_out n g) \<and>
    graph_in n (filter (\<lambda>x. fst x \<noteq> i) g) = remove1 i (graph_in n g)"
  using assms
proof (induction g)
  case (Cons x g)
  then show ?case
    using graph_absent [of i g n] by (cases x) (auto simp: image_iff)
qed simp

lemma es_hard_delete_simps:
  "es_edges (snd (es_hard_delete i s)) = (es_edges s)(i := None)"
  "es_next_id (snd (es_hard_delete i s)) = es_next_id s"
  "i \<in> dom (es_edges s) \<Longrightarrow> es_free_list (snd (es_hard_delete i s)) = es_free_list s @ [i]"
  by (auto simp: es_hard_delete_def es_wal_delete_def Let_def fun_upd_idem split: option.split)

section \<open>Lemmas: the operations on the representation\<close>

lemma null_not_le: "\<not> NULL_EDGE < (i :: EdgeId)"
proof -
  have "NULL_EDGE = - 1" by (simp add: NULL_EDGE_def)
  with word_order.extremum [of i] have "i \<le> NULL_EDGE" by simp
  then show ?thesis by (rule leD)
qed

lemma adj_repD:
  assumes "adj_rep g a"
  shows "distinct (map fst g)" and "dom (es_edges (adj_store a)) = fst ` set g"
    and "(i, src, dst) \<in> set g \<Longrightarrow> \<exists>e. es_edges (adj_store a) i = Some e \<and> e_src e = src \<and> e_dst e = dst"
    and "chain e_next_out (es_edges (adj_store a)) (adj_out a n) (graph_out n g)"
    and "chain e_next_in (es_edges (adj_store a)) (adj_in a n) (graph_in n g)"
    and "esa.ok {} (adj_store a)"
proof -
  show "distinct (map fst g)" and dom: "dom (es_edges (adj_store a)) = fst ` set g"
    and "chain e_next_out (es_edges (adj_store a)) (adj_out a n) (graph_out n g)"
    and "chain e_next_in (es_edges (adj_store a)) (adj_in a n) (graph_in n g)"
    and "esa.ok {} (adj_store a)"
    using assms unfolding adj_rep_def by blast+
  assume mem: "(i, src, dst) \<in> set g"
  then have "i \<in> dom (es_edges (adj_store a))" unfolding dom by force
  then obtain e where "es_edges (adj_store a) i = Some e" by blast
  with mem assms show "\<exists>e. es_edges (adj_store a) i = Some e \<and> e_src e = src \<and> e_dst e = dst"
    by (fastforce simp: adj_rep_def)
qed

lemma adj_rep_mem:
  assumes "adj_rep g a" and "es_edges (adj_store a) i = Some e"
  shows "(i, e_src e, e_dst e) \<in> set g"
proof -
  have "i \<in> fst ` set g" using adj_repD(2) [OF assms(1)] assms(2) by blast
  then obtain src dst where mem: "(i, src, dst) \<in> set g" by force
  with adj_repD(3) [OF assms(1) mem] assms(2) show ?thesis by simp
qed

lemma adj_add_result:
  assumes "adj_rep g a" and "es_next_id (adj_store a) \<noteq> - 1"
    and "i = fst (es_alloc_id (adj_store a))" and "a' = adj_add c src dst etype row tx a"
  shows "i \<notin> fst ` set g" and "i \<noteq> NULL_EDGE" and "esa.ok {} (adj_store a')"
    and "es_edges (adj_store a') = (es_edges (adj_store a))(i \<mapsto> (edge_new i src dst etype row tx)
          \<lparr>e_next_out := adj_out a src, e_next_in := adj_in a dst\<rparr>)"
    and "adj_out a' = (adj_out a)(src := i)" and "adj_in a' = (adj_in a)(dst := i)"
proof -
  let ?s = "adj_store a"
  note ok = adj_repD(6) [OF assms(1)]
  note fresh = esa.alloc_fresh [OF ok assms(2), folded assms(3)]
  show "i \<notin> fst ` set g" using fresh(1) adj_repD(2) [OF assms(1)] by simp
  have "ids_ok {i} (dom (es_edges (snd (es_alloc_id ?s)))) (es_free_list (snd (es_alloc_id ?s))) (es_next_id (snd (es_alloc_id ?s)))"
    using fresh(3) by simp
  then have ids: "ids_ok {} (insert i (dom (es_edges ?s))) (es_free_list (snd (es_alloc_id ?s))) (es_next_id (snd (es_alloc_id ?s)))"
    using ids_ok_insert [of "{i}" _ _ _ i] by simp
  then have "i < es_next_id (snd (es_alloc_id ?s))" by (simp add: ids_ok_def)
  then show "i \<noteq> NULL_EDGE" using null_not_le by blast
  have a': "adj_store a' = fst (es_link_into_chains c i (adj_out a src) (adj_in a dst)
      (es_insert_with_id c i src dst etype row tx (snd (es_alloc_id ?s))))"
    "adj_out a' = (adj_out a)(src := i)" "adj_in a' = (adj_in a)(dst := i)"
    by (simp_all add: assms(3,4) adj_add_def es_insert_edge_eq es_link_into_chains_def Let_def)
  then show "adj_out a' = (adj_out a)(src := i)" and "adj_in a' = (adj_in a)(dst := i)" by simp_all
  show edges: "es_edges (adj_store a') = (es_edges ?s)(i \<mapsto> (edge_new i src dst etype row tx)
      \<lparr>e_next_out := adj_out a src, e_next_in := adj_in a dst\<rparr>)"
    by (simp add: a'(1) es_link_edges es_insert_with_id_def Let_def)
  have frame: "es_free_list (adj_store a') = es_free_list (snd (es_alloc_id ?s))" "es_next_id (adj_store a') = es_next_id (snd (es_alloc_id ?s))"
    by (simp_all add: a'(1) es_link_into_chains_def es_get_mut_def es_insert_with_id_def Let_def split: option.split)
  show "esa.ok {} (adj_store a')" using ids unfolding edges frame dom_fun_upd by simp
qed

lemma chain_push:
  assumes "chain nxt m cur is" and "i \<notin> set is" and "i \<noteq> NULL_EDGE" and "nxt e = cur"
  shows "chain nxt (m(i \<mapsto> e)) i (i # is)" and "chain nxt (m(i \<mapsto> e)) cur is"
proof -
  show "chain nxt (m(i \<mapsto> e)) cur is"
    using assms(1,2) chain_cong [of "is" nxt m "m(i \<mapsto> e)" cur] by fastforce
  with assms show "chain nxt (m(i \<mapsto> e)) i (i # is)" by simp
qed

lemma chain_upd_other: "chain nxt m cur is \<Longrightarrow> i \<notin> set is \<Longrightarrow> chain nxt (m(i := v)) cur is"
  using chain_cong [of "is" nxt m "m(i := v)" cur] by fastforce

lemma adj_rep_add:
  assumes "adj_rep g a" and "es_next_id (adj_store a) \<noteq> - 1"
  shows "adj_rep ((fst (es_alloc_id (adj_store a)), src, dst) # g) (adj_add c src dst etype row tx a)"
proof -
  let ?i = "fst (es_alloc_id (adj_store a))" and ?a' = "adj_add c src dst etype row tx a"
  note r = adj_add_result [OF assms, of ?i ?a' c src dst etype row tx, OF refl refl]
  note d = adj_repD [OF assms(1)]
  have abs: "?i \<notin> set (graph_out n g)" "?i \<notin> set (graph_in n g)" for n
    using r(1) set_graph_subset [of n g] by blast+
  have "chain e_next_out (es_edges (adj_store ?a')) (adj_out ?a' n) (graph_out n ((?i, src, dst) # g))" for n
    using chain_push [OF d(4) abs(1) r(2)] chain_upd_other [OF d(4) abs(1)] by (simp add: r(2,4,5))
  moreover have "chain e_next_in (es_edges (adj_store ?a')) (adj_in ?a' n) (graph_in n ((?i, src, dst) # g))" for n
    using chain_push [OF d(5) abs(2) r(2)] chain_upd_other [OF d(5) abs(2)] by (simp add: r(2,4,6))
  moreover have "\<forall>(j, src', dst') \<in> set ((?i, src, dst) # g). \<forall>e. es_edges (adj_store ?a') j = Some e \<longrightarrow> e_src e = src' \<and> e_dst e = dst'"
    using r(1) d(3) by (auto simp: r(4) edge_new_def image_iff split: if_splits) fastforce+
  ultimately show ?thesis
    using d(1,2) r(1,3) by (auto simp: adj_rep_def r(4))
qed

lemma graph_ends:
  "distinct (map fst g) \<Longrightarrow> (i, src, dst) \<in> set g \<Longrightarrow> i \<in> set (graph_out n g) \<longleftrightarrow> n = src"
  "distinct (map fst g) \<Longrightarrow> (i, src, dst) \<in> set g \<Longrightarrow> i \<in> set (graph_in n g) \<longleftrightarrow> n = dst"
  by (fastforce simp: set_graph dest: eq_key_imp_eq_value)+

lemma graph_out_disjoint: "distinct (map fst g) \<Longrightarrow> n \<noteq> n' \<Longrightarrow> set (graph_out n g) \<inter> set (graph_out n' g) = {}"
  and graph_in_disjoint: "distinct (map fst g) \<Longrightarrow> n \<noteq> n' \<Longrightarrow> set (graph_in n g) \<inter> set (graph_in n' g) = {}"
  by (auto simp: set_graph dest: eq_key_imp_eq_value)

text \<open>One direction of a removal: the chain of one node loses the edge, the others stay as they are.\<close>

lemma chains_after_removal:
  assumes "\<And>n. chain nxt m (heads n) (G n)" and "chain nxt m' head' (remove1 i (G n0))"
    and "\<And>j. j \<notin> set (G n0) \<Longrightarrow> map_option nxt (m' j) = map_option nxt (m j)"
    and "\<And>n. n \<noteq> n0 \<Longrightarrow> set (G n) \<inter> set (G n0) = {}" and "i \<in> set (G n0)"
  shows "chain nxt (m'(i := None)) ((heads(n0 := head')) n) (remove1 i (G n))"
proof (rule chain_upd_other)
  show "i \<notin> set (remove1 i (G n))" using chain_distinct [OF assms(1)] by simp
  show "chain nxt m' ((heads(n0 := head')) n) (remove1 i (G n))"
  proof (cases "n = n0")
    case True
    with assms(2) show ?thesis by simp
  next
    case False
    with assms(4) [OF False] assms(5) have "i \<notin> set (G n)" by blast
    moreover have "chain nxt m' (heads n) (G n)"
      using assms(1) [of n] assms(3) assms(4) [OF False] chain_cong [of "G n" nxt m m' "heads n"] by fastforce
    ultimately show ?thesis using False by (simp add: remove1_idem)
  qed
qed

lemma adj_repI:
  assumes "distinct (map fst g)" and "dom m = fst ` set g"
    and "\<forall>(i, src, dst) \<in> set g. \<forall>e. m i = Some e \<longrightarrow> e_src e = src \<and> e_dst e = dst"
    and "\<And>n. chain e_next_out m (adj_out a n) (graph_out n g)" and "\<And>n. chain e_next_in m (adj_in a n) (graph_in n g)"
    and "ids_ok {} (dom m) free nxt" and "es_edges (adj_store a) = m" and "es_free_list (adj_store a) = free"
    and "es_next_id (adj_store a) = nxt"
  shows "adj_rep g a"
  using assms unfolding adj_rep_def by blast

lemma adj_rep_remove:
  assumes "adj_rep g a"
  shows "\<exists>a'. adj_remove c i a = Some a' \<and> adj_rep (filter (\<lambda>x. fst x \<noteq> i) g) a' \<and>
    es_next_id (adj_store a') = es_next_id (adj_store a)"
proof (cases "es_edges (adj_store a) i")
  case None
  then have "i \<notin> fst ` set g" using adj_repD(2) [OF assms] by blast
  then have "filter (\<lambda>x. fst x \<noteq> i) g = g" by (auto simp: filter_id_conv)
  with None assms show ?thesis by (simp add: adj_remove_def es_get_def)
next
  case (Some e)
  let ?src = "e_src e" and ?dst = "e_dst e" and ?g' = "filter (\<lambda>x. fst x \<noteq> i) g"
  note d = adj_repD [OF assms] and gone = graph_remove [OF adj_repD(1) [OF assms], of _ i]
  have mem: "(i, ?src, ?dst) \<in> set g" by (rule adj_rep_mem [OF assms Some])
  have in_chains: "i \<in> set (graph_out ?src g)" "i \<in> set (graph_in ?dst g)"
    using graph_ends [OF d(1) mem] by simp_all
  let ?fo = "if adj_out a ?src = i then e_next_out e else adj_out a ?src"
  let ?fi = "if adj_in a ?dst = i then e_next_in e else adj_in a ?dst"
  from es_unlink_chains [OF d(4) d(5) in_chains Some, of c] obtain s' where
      u: "es_unlink_from_chains c i (adj_out a ?src) (adj_in a ?dst) (adj_store a) = Some (True, s', ?fo, ?fi)"
    and out: "chain e_next_out (es_edges s') ?fo (remove1 i (graph_out ?src g))"
    and inn: "chain e_next_in (es_edges s') ?fi (remove1 i (graph_in ?dst g))"
    and others: "\<And>j. j \<notin> set (graph_out ?src g) \<Longrightarrow> map_option e_next_out (es_edges s' j) = map_option e_next_out (es_edges (adj_store a) j)"
      "\<And>j. j \<notin> set (graph_in ?dst g) \<Longrightarrow> map_option e_next_in (es_edges s' j) = map_option e_next_in (es_edges (adj_store a) j)"
    and same: "\<And>j. map_option unlinked (es_edges s' j) = map_option unlinked (es_edges (adj_store a) j)"
    and frame: "es_next_id s' = es_next_id (adj_store a)" "es_free_list s' = es_free_list (adj_store a)"
    by auto
  let ?m' = "(es_edges s')(i := None)"
  let ?a' = "\<lparr>adj_store = snd (es_hard_delete i s'), adj_out = (adj_out a)(?src := ?fo), adj_in = (adj_in a)(?dst := ?fi)\<rparr>"
  have "es_edges s' j = None \<longleftrightarrow> es_edges (adj_store a) j = None" for j
    using same [of j] by (cases "es_edges s' j"; cases "es_edges (adj_store a) j") simp_all
  then have dom: "dom (es_edges s') = fst ` set g" using d(2) by (simp add: dom_def)
  have ch: "chain e_next_out ?m' (adj_out ?a' n) (graph_out n ?g')" "chain e_next_in ?m' (adj_in ?a' n) (graph_in n ?g')" for n
    using chains_after_removal [where G = "\<lambda>n. graph_out n g" and heads = "adj_out a", OF d(4) out others(1) graph_out_disjoint [OF d(1)] in_chains(1), of n]
      chains_after_removal [where G = "\<lambda>n. graph_in n g" and heads = "adj_in a", OF d(5) inn others(2) graph_in_disjoint [OF d(1)] in_chains(2), of n] by (simp_all add: gone)
  have ends: "\<forall>(j, src, dst) \<in> set ?g'. \<forall>e'. ?m' j = Some e' \<longrightarrow> e_src e' = src \<and> e_dst e' = dst"
  proof (clarify)
    fix j src dst e'
    assume j: "(j, src, dst) \<in> set ?g'" and e': "?m' j = Some e'"
    then obtain e0 where e0: "es_edges (adj_store a) j = Some e0" "e_src e0 = src" "e_dst e0 = dst" using d(3) by fastforce
    have "unlinked e' = unlinked e0" using same [of j] e' e0(1) by (simp split: if_splits)
    from arg_cong [OF this, of e_src] arg_cong [OF this, of e_dst] e0 show "e_src e' = src \<and> e_dst e' = dst" by simp
  qed
  have ids: "ids_ok {} (dom ?m') (es_free_list s' @ [i]) (es_next_id s')"
    using ids_ok_delete [OF d(6) domI [where m = "es_edges (adj_store a)", OF Some]] by (simp add: frame dom d(2) [symmetric])
  have dm: "dom ?m' = fst ` set ?g'" by (auto simp: dom)
  have dist: "distinct (map fst ?g')" using d(1) by (rule distinct_map_filter)
  have a': "es_edges (adj_store ?a') = ?m'" "es_free_list (adj_store ?a') = es_free_list s' @ [i]" "es_next_id (adj_store ?a') = es_next_id s'"
    using es_hard_delete_simps(3) [of i s'] in_chains(1) set_graph_subset(1) [of ?src g] dom
    by (auto simp: es_hard_delete_simps(1,2))
  have "adj_rep ?g' ?a'" by (rule adj_repI [OF dist dm ends ch ids a'])
  moreover have "adj_remove c i a = Some ?a'" by (simp add: adj_remove_def es_get_def Some u)
  ultimately show ?thesis using frame by (intro exI [of _ ?a']) (simp add: es_hard_delete_simps)
qed

lemma es_soft_delete_simps:
  "es_edges (snd (es_soft_delete c i tx s)) = (es_edges s)(i := map_option (\<lambda>e. e\<lparr>e_deleted_tx := tx\<rparr>) (es_edges s i))"
  "es_free_list (snd (es_soft_delete c i tx s)) = es_free_list s" "es_next_id (snd (es_soft_delete c i tx s)) = es_next_id s"
  by (auto simp: es_soft_delete_def Let_def fun_upd_idem split: option.split)

lemma adj_rep_hide:
  assumes "adj_rep g a"
  shows "adj_rep g (a\<lparr>adj_store := snd (es_soft_delete c i tx (adj_store a))\<rparr>)"
proof -
  let ?a' = "a\<lparr>adj_store := snd (es_soft_delete c i tx (adj_store a))\<rparr>"
  note d = adj_repD [OF assms]
  have same: "map_option f (es_edges (adj_store ?a') j) = map_option f (es_edges (adj_store a) j)"
    if "\<And>e t. f (e\<lparr>e_deleted_tx := t\<rparr>) = f e" for f :: "edge \<Rightarrow> 'z" and j
    using that by (auto simp: es_soft_delete_simps option.map_comp comp_def)
  have dom: "dom (es_edges (adj_store ?a')) = dom (es_edges (adj_store a))"
    by (auto simp: es_soft_delete_simps split: if_splits)
  have "chain e_next_out (es_edges (adj_store ?a')) (adj_out ?a' n) (graph_out n g)"
    "chain e_next_in (es_edges (adj_store ?a')) (adj_in ?a' n) (graph_in n g)" for n
    using d(4) [of n] chain_cong [of "graph_out n g" e_next_out "es_edges (adj_store ?a')" "es_edges (adj_store a)"]
      d(5) [of n] chain_cong [of "graph_in n g" e_next_in "es_edges (adj_store ?a')" "es_edges (adj_store a)"]
      same [of e_next_out] same [of e_next_in] by simp_all
  moreover have "\<forall>(j, src, dst) \<in> set g. \<forall>e. es_edges (adj_store ?a') j = Some e \<longrightarrow> e_src e = src \<and> e_dst e = dst"
    using assms by (fastforce simp: es_soft_delete_simps adj_rep_def split: if_splits)
  ultimately show ?thesis
    using d(1,2,6) unfolding adj_rep_def dom by (simp add: es_soft_delete_simps)
qed

lemma adj_step:
  assumes "adj_rep g a" and "es_next_id (adj_store a) \<noteq> - 1"
  shows "\<exists>a'. adj_exec c op a = Some a' \<and> adj_rep (graph_exec (fst (es_alloc_id (adj_store a))) op g) a' \<and>
    unat (es_next_id (adj_store a')) \<le> Suc (unat (es_next_id (adj_store a)))"
proof (cases op)
  case (AddEdge src dst etype row tx)
  let ?s = "adj_store a"
  have "es_next_id (snd (es_alloc_id ?s)) = es_next_id ?s \<or> es_next_id (snd (es_alloc_id ?s)) = es_next_id ?s + 1"
    by (simp add: es_alloc_id_def split: list.split)
  moreover have "es_next_id (adj_store (adj_add c src dst etype row tx a)) = es_next_id (snd (es_alloc_id ?s))"
    by (simp add: adj_add_def es_insert_edge_eq es_link_into_chains_def es_get_mut_def es_insert_with_id_def Let_def
        split: option.split)
  moreover have "unat (w + 1) \<le> Suc (unat w)" for w :: u64
    by (metis add.commute le_Suc_eq unatSuc unsigned_0 zero_le)
  ultimately have "unat (es_next_id (adj_store (adj_add c src dst etype row tx a))) \<le> Suc (unat (es_next_id ?s))"
    by auto
  with adj_rep_add [OF assms] show ?thesis by (simp add: AddEdge)
next
  case (RemoveEdge i)
  with adj_rep_remove [OF assms(1)] show ?thesis by fastforce
next
  case (HideEdge i tx)
  with adj_rep_hide [OF assms(1)] show ?thesis by (simp add: es_soft_delete_simps)
qed

lemma adj_run_rep:
  assumes "adj_rep g a" and "unat (es_next_id (adj_store a)) + length ops < 2 ^ 64"
  shows "\<exists>a' g'. adj_run c ops a = Some a' \<and> adj_rep g' a'"
  using assms
proof (induction ops arbitrary: g a)
  case (Cons op ops)
  from Cons.prems have "unat (es_next_id (adj_store a)) + Suc 0 < 2 ^ 64" by simp
  then have "unat (es_next_id (adj_store a)) \<noteq> unat (- 1 :: u64)"
    by (simp add: unsigned_minus_1_eq_mask mask_eq_exp_minus_1)
  then have "es_next_id (adj_store a) \<noteq> - 1" by metis
  from adj_step [OF Cons.prems(1) this, of c op] obtain a' where a': "adj_exec c op a = Some a'"
    "adj_rep (graph_exec (fst (es_alloc_id (adj_store a))) op g) a'"
    "unat (es_next_id (adj_store a')) \<le> Suc (unat (es_next_id (adj_store a)))" by blast
  with Cons.IH [OF a'(2)] Cons.prems(2) show ?case by simp
qed auto

lemma adj_rep_empty: "adj_rep [] adj_empty"
  by (simp add: adj_rep_def adj_empty_def es_new_def ids_ok_def)

lemma adj_rep_walks:
  assumes "adj_rep g a"
  shows "es_out_edges (adj_out a n) (adj_store a) = Some (graph_out n g)"
    and "es_in_edges (adj_in a n) (adj_store a) = Some (graph_in n g)"
    and "distinct (graph_out n g)" and "distinct (graph_in n g)"
    and "set (graph_out n g) = {i. \<exists>e. es_edges (adj_store a) i = Some e \<and> e_src e = n}"
    and "set (graph_in n g) = {i. \<exists>e. es_edges (adj_store a) i = Some e \<and> e_dst e = n}"
proof -
  note d = adj_repD [OF assms]
  show "es_out_edges (adj_out a n) (adj_store a) = Some (graph_out n g)"
    "es_in_edges (adj_in a n) (adj_store a) = Some (graph_in n g)"
    using oc.walk_chain [OF d(4), where r = "[]"] ic.walk_chain [OF d(5), where r = "[]"] by (simp_all add: es_out_edges_def es_in_edges_def)
  show "distinct (graph_out n g)" "distinct (graph_in n g)" using chain_distinct [OF d(4)] chain_distinct [OF d(5)] .
  show "set (graph_out n g) = {i. \<exists>e. es_edges (adj_store a) i = Some e \<and> e_src e = n}"
    "set (graph_in n g) = {i. \<exists>e. es_edges (adj_store a) i = Some e \<and> e_dst e = n}"
    using d(3) adj_rep_mem [OF assms] by (fastforce simp: set_graph)+
qed

text \<open>A deleted edge cuts the chains it is in; an edge stored anew under its identifier ends them.\<close>

context chain_dir begin

lemma walk_cut: "chain nxt m cur (xs @ x # ys) \<Longrightarrow> x \<notin> set xs \<Longrightarrow> walk (m(x := None)) cur r = Some (r @ xs)"
  by (induction xs arbitrary: cur r) (subst walk_eq, auto split: option.splits)+

lemma chain_reuse: "chain nxt m cur (xs @ x # ys) \<Longrightarrow> x \<notin> set xs \<Longrightarrow> nxt e = NULL_EDGE \<Longrightarrow> chain nxt (m(x \<mapsto> e)) cur (xs @ [x])"
  by (induction xs arbitrary: cur) (auto split: option.splits)

end

section \<open>Example\<close>

text \<open>Three edges, the middle one removed, and a fourth that takes its identifier.\<close>

definition adj_example_ops :: "adj_op list" where
  "adj_example_ops = [AddEdge 5 6 0 0 1, AddEdge 5 7 0 0 2, AddEdge 5 6 0 0 3, RemoveEdge 1, HideEdge 2 9, AddEdge 7 5 0 0 4]"

section \<open>Properties\<close>

text \<open>
  C14. Every walk ends and is complete: whatever edges a caller has added, removed and hidden, starting from an
  empty store and in fewer than \<open>2 ^ 64\<close> operations, no unlinking ran forever, and for every node the walk
  along its outgoing chain returns each stored edge with that source exactly once, the walk along its
  incoming chain each with that target, and the visible walk those of them that are alive.
\<close>

theorem adjacency_walks:
  assumes "length ops < 2 ^ 64"
  shows "\<exists>a. adj_run c ops adj_empty = Some a \<and>
    (\<forall>n. \<exists>outs ins. es_out_edges (adj_out a n) (adj_store a) = Some outs \<and> distinct outs \<and>
        set outs = {i. \<exists>e. es_edges (adj_store a) i = Some e \<and> e_src e = n} \<and>
      es_in_edges (adj_in a n) (adj_store a) = Some ins \<and> distinct ins \<and>
        set ins = {i. \<exists>e. es_edges (adj_store a) i = Some e \<and> e_dst e = n} \<and>
      (\<forall>tx. es_out_edges_visible (adj_out a n) tx (adj_store a) =
        Some (filter (\<lambda>i. case es_edges (adj_store a) i of Some e \<Rightarrow> edge_is_alive e tx | None \<Rightarrow> False) outs)))"
proof -
  from adj_run_rep [OF adj_rep_empty, of ops c] assms obtain a g where a: "adj_run c ops adj_empty = Some a" "adj_rep g a"
    by (auto simp: adj_empty_def es_new_def)
  have "es_out_edges_visible (adj_out a n) tx (adj_store a) =
      Some (filter (\<lambda>i. case es_edges (adj_store a) i of Some e \<Rightarrow> edge_is_alive e tx | None \<Rightarrow> False) (graph_out n g))" for n tx
    using es_visible_chain [OF adj_repD(4) [OF a(2)], of tx n "[]"] by (simp add: es_out_edges_visible_def)
  with a(1) adj_rep_walks [OF a(2)] show ?thesis by blast
qed

theorem adjacency_walks_witness:
  "\<exists>a outs. adj_run edge_example_codec adj_example_ops adj_empty = Some a \<and>
    es_out_edges (adj_out a 5) (adj_store a) = Some outs \<and> distinct outs \<and>
    set outs = {i. \<exists>e. es_edges (adj_store a) i = Some e \<and> e_src e = 5}"
proof -
  have "length adj_example_ops < 2 ^ 64" by (simp add: adj_example_ops_def)
  from adjacency_walks [OF this, of edge_example_codec] show ?thesis by blast
qed

text \<open>
  C4. The chains implement the abstract graph: one call of the protocol on a store that represents a graph
  ends and leaves a store that represents the graph after the abstract operation, where an added edge is
  put in front under the identifier the store allocates and a removed one is taken out.
\<close>

theorem adjacency_refines:
  assumes "adj_rep g a" and "es_next_id (adj_store a) \<noteq> - 1"
  shows "\<exists>a'. adj_exec c op a = Some a' \<and> adj_rep (graph_exec (fst (es_alloc_id (adj_store a))) op g) a' \<and>
    (\<forall>n. es_out_edges (adj_out a' n) (adj_store a') =
        Some (graph_out n (graph_exec (fst (es_alloc_id (adj_store a))) op g)) \<and>
      es_in_edges (adj_in a' n) (adj_store a') =
        Some (graph_in n (graph_exec (fst (es_alloc_id (adj_store a))) op g)))"
  using adj_step [OF assms, of c op] adj_rep_walks by blast

theorem adjacency_refines_witness:
  "\<exists>a'. adj_exec edge_example_codec (AddEdge 5 6 0 0 1) adj_empty = Some a' \<and>
    es_out_edges (adj_out a' 5) (adj_store a') = Some [0] \<and> es_out_edges (adj_out a' 6) (adj_store a') = Some []"
proof -
  have "es_next_id (adj_store adj_empty) \<noteq> - 1" by (simp add: adj_empty_def es_new_def)
  from adjacency_refines [OF adj_rep_empty this, of edge_example_codec "AddEdge 5 6 0 0 1"] show ?thesis
    by (auto simp: es_alloc_id_def adj_empty_def es_new_def)
qed

text \<open>
  C36. \<open>hard_delete\<close> does not unlink: deleting an edge that is still in a chain cuts the chain off before it, so
  the walk loses every edge behind it. When no other identifier is free, the next edge inserted gets the
  identifier, and the walk of the old chain returns that edge, whatever its source, as its last; when other
  identifiers are free, it gets the oldest of them, and the walk stays cut off.
\<close>

theorem edge_hard_delete_cuts:
  assumes "chain e_next_out (es_edges s) fo (xs @ x # ys)"
    and "es_hard_delete x s = (b, s1)" and "es_insert_edge c src dst etype row tx s1 = (i, s2)"
  shows "b \<and> es_out_edges fo s1 = Some xs \<and>
    (case es_free_list s of
      [] \<Rightarrow> i = x \<and> es_out_edges fo s2 = Some (xs @ [x]) \<and> map_option e_src (es_edges s2 x) = Some src
    | j # _ \<Rightarrow> i = j \<and> (j \<notin> dom (es_edges s) \<longrightarrow> es_out_edges fo s2 = Some xs))"
proof -
  have x: "x \<notin> set xs" "x \<in> dom (es_edges s)"
    using chain_distinct [OF assms(1)] chain_mem [OF assms(1), of x] by simp_all
  then have "b" using assms(2) by (auto simp: es_hard_delete_def es_wal_delete_def Let_def split: option.splits)
  have s1: "es_edges s1 = (es_edges s)(x := None)" "es_free_list s1 = es_free_list s @ [x]"
    using es_hard_delete_simps(1) [of x s] es_hard_delete_simps(3) [OF x(2)] assms(2) by simp_all
  note cut = oc.walk_cut [OF assms(1) x(1), of "[]"]
  show ?thesis
  proof (cases "es_free_list s")
    case Nil
    have "i = x" using assms(3) s1(2) Nil by (auto simp: es_insert_edge_eq es_alloc_id_def)
    have s2: "es_edges s2 = (es_edges s1)(x \<mapsto> edge_new x src dst etype row tx)"
      using assms(3) s1(2) Nil by (auto simp: es_insert_edge_eq es_alloc_id_def es_insert_with_id_def Let_def)
    have "chain e_next_out (es_edges s2) fo (xs @ [x])"
      using oc.chain_reuse [OF assms(1) x(1), of "edge_new x src dst etype row tx"] by (simp add: s2 s1(1) edge_new_def)
    with \<open>b\<close> \<open>i = x\<close> oc.walk_chain [of "es_edges s2" fo "xs @ [x]" "[]"] cut Nil show ?thesis
      by (simp add: es_out_edges_def s1(1) s2 edge_new_def)
  next
    case (Cons j js)
    have "i = j" using assms(3) s1(2) Cons by (auto simp: es_insert_edge_eq es_alloc_id_def)
    have s2: "es_edges s2 = (es_edges s1)(j \<mapsto> edge_new j src dst etype row tx)"
      using assms(3) s1(2) Cons by (auto simp: es_insert_edge_eq es_alloc_id_def es_insert_with_id_def Let_def)
    have "es_out_edges fo s2 = Some xs" if "j \<notin> dom (es_edges s)"
    proof -
      have j: "j \<notin> set (xs @ x # ys)" using that chain_mem [OF assms(1), of j] by blast
      then have "es_edges s2 = ((es_edges s)(j \<mapsto> edge_new j src dst etype row tx))(x := None)"
        by (simp add: s2 s1(1) fun_upd_twist)
      with oc.walk_cut [OF chain_upd_other [OF assms(1) j] x(1), of _ "[]"] show ?thesis by (simp add: es_out_edges_def)
    qed
    with \<open>b\<close> \<open>i = j\<close> cut Cons show ?thesis by (simp add: es_out_edges_def s1(1))
  qed
qed

theorem edge_hard_delete_cuts_witness:
  "\<exists>s1 s2. es_hard_delete 1 edge_example = (True, s1) \<and> es_insert_edge edge_example_codec 9 8 0 0 4 s1 = (1, s2) \<and>
    es_out_edges 1 s1 = Some [] \<and> es_out_edges 1 s2 = Some [1] \<and> map_option e_src (es_edges s2 1) = Some 9"
proof -
  have h: "chain e_next_out (es_edges edge_example) 1 ([] @ 1 # [0])" using edge_example_chains(1) by simp
  have f: "es_free_list edge_example = []" by code_simp
  obtain b s1 i s2 where 1: "es_hard_delete 1 edge_example = (b, s1)" "es_insert_edge edge_example_codec 9 8 0 0 4 s1 = (i, s2)"
    by (meson surj_pair)
  from edge_hard_delete_cuts [OF h 1] 1 f show ?thesis by auto
qed

end
