(* ===== verification/Prop_Store.thy ===== *)
theory Prop_Store
  imports Storage_Types Logged_Store
begin

text \<open>
  \<^verbatim>\<open>src/src/storage/prop_store.rs\<close>: property columns, one per label and property name, their
  cell-wise log records and their recovery. A Rust \<open>String\<close> is its UTF-8 bytes; \<open>c\<close> is the
  serialiser of optional values. Floats are their bits: the store never computes with them.
\<close>

section \<open>Strings\<close>

type_synonym rstring = bytes

text \<open>
  One step of decoding UTF-8: whether the bytes begin with a well-formed character, and how many
  bytes it, or the ill-formed start, takes up. Past the end the library reads zeros.
\<close>

definition byte_at :: "bytes \<Rightarrow> nat \<Rightarrow> u8" where
  "byte_at bs i = (if i < length bs then bs ! i else 0)"

definition is_cont :: "u8 \<Rightarrow> bool" where
  "is_cont b \<longleftrightarrow> 0x80 \<le> b \<and> b \<le> 0xBF"

definition utf8_second_ok :: "u8 \<Rightarrow> u8 \<Rightarrow> bool" where
  "utf8_second_ok b0 b1 \<longleftrightarrow>
     (if b0 = 0xE0 then 0xA0 \<le> b1 \<and> b1 \<le> 0xBF
      else if b0 = 0xED then 0x80 \<le> b1 \<and> b1 \<le> 0x9F
      else if b0 = 0xF0 then 0x90 \<le> b1 \<and> b1 \<le> 0xBF
      else if b0 = 0xF4 then 0x80 \<le> b1 \<and> b1 \<le> 0x8F
      else is_cont b1)"

definition utf8_step :: "bytes \<Rightarrow> bool \<times> nat" where
  "utf8_step bs =
     (let b0 = byte_at bs 0; b1 = byte_at bs 1; b2 = byte_at bs 2; b3 = byte_at bs 3 in
      if b0 < 0x80 then (True, 1)
      else if 0xC2 \<le> b0 \<and> b0 \<le> 0xDF then (if is_cont b1 then (True, 2) else (False, 1))
      else if 0xE0 \<le> b0 \<and> b0 \<le> 0xEF then
        (if \<not> utf8_second_ok b0 b1 then (False, 1) else if \<not> is_cont b2 then (False, 2) else (True, 3))
      else if 0xF0 \<le> b0 \<and> b0 \<le> 0xF4 then
        (if \<not> utf8_second_ok b0 b1 then (False, 1) else if \<not> is_cont b2 then (False, 2)
         else if \<not> is_cont b3 then (False, 3) else (True, 4))
      else (False, 1))"

lemma utf8_step_pos: "0 < snd (utf8_step bs)"
  by (simp add: utf8_step_def Let_def)

text \<open>\<open>String::from_utf8_lossy\<close>: every ill-formed start becomes one U+FFFD.\<close>

function from_utf8_lossy :: "bytes \<Rightarrow> rstring" where
  "from_utf8_lossy bs =
     (if bs = [] then []
      else (if fst (utf8_step bs) then take (snd (utf8_step bs)) bs else [0xEF, 0xBF, 0xBD]) @
        from_utf8_lossy (drop (snd (utf8_step bs)) bs))"
  by pat_completeness auto
termination
  by (relation "measure length") (auto simp: utf8_step_pos)

declare from_utf8_lossy.simps [simp del]

text \<open>The invariant of \<open>String\<close>.\<close>

function utf8_valid :: "bytes \<Rightarrow> bool" where
  "utf8_valid bs \<longleftrightarrow>
     (if bs = [] then True else fst (utf8_step bs) \<and> utf8_valid (drop (snd (utf8_step bs)) bs))"
  by pat_completeness auto
termination
  by (relation "measure length") (auto simp: utf8_step_pos)

declare utf8_valid.simps [simp del]

section \<open>Values and columns\<close>

datatype val =
    Null
  | VBool bool
  | VInt "64 word"
  | VFloat "64 word"
  | VString rstring
  | VList "val list"
  | VVector "32 word list"

fun val_as_str :: "val \<Rightarrow> rstring" where
  "val_as_str (VString s) = s"
| "val_as_str _ = []"

fun val_as_vec_f32 :: "val \<Rightarrow> 32 word list option" where
  "val_as_vec_f32 (VVector v) = Some v"
| "val_as_vec_f32 _ = None"

record column =
  pc_values :: "val option list"

definition pc_new :: column where
  "pc_new = \<lparr>pc_values = []\<rparr>"

definition pc_with_capacity :: "u64 \<Rightarrow> column" where
  "pc_with_capacity cap = \<lparr>pc_values = []\<rparr>"

definition pc_push :: "val option \<Rightarrow> column \<Rightarrow> u32 \<times> column" where
  "pc_push v col = (of_nat (length (pc_values col)), col\<lparr>pc_values := pc_values col @ [v]\<rparr>)"

definition pc_get :: "u32 \<Rightarrow> column \<Rightarrow> val option option" where
  "pc_get row col =
     (if unat row < length (pc_values col) then Some (pc_values col ! unat row) else None)"

definition pc_set :: "u32 \<Rightarrow> val option \<Rightarrow> column \<Rightarrow> bool \<times> column" where
  "pc_set row v col =
     (if unat row < length (pc_values col)
      then (True, col\<lparr>pc_values := (pc_values col)[unat row := v]\<rparr>) else (False, col))"

definition pc_extend_to :: "nat \<Rightarrow> column \<Rightarrow> column" where
  "pc_extend_to min_len col =
     (if length (pc_values col) < min_len
      then col\<lparr>pc_values := pc_values col @ replicate (min_len - length (pc_values col)) None\<rparr> else col)"

definition pc_len :: "column \<Rightarrow> nat" where
  "pc_len col = length (pc_values col)"

section \<open>The store\<close>

record label_schema =
  next_row :: u32

definition label_schema_new :: label_schema where
  "label_schema_new = \<lparr>next_row = 0\<rparr>"

type_synonym prop_key = "LabelId \<times> rstring"

record prop_store =
  ps_columns :: "prop_key \<rightharpoonup> column"
  ps_schemas :: "LabelId \<rightharpoonup> label_schema"
  ps_wal :: "wal_sys option"

definition ps_new :: prop_store where
  "ps_new = \<lparr>ps_columns = Map.empty, ps_schemas = Map.empty, ps_wal = None\<rparr>"

definition ps_schema :: "LabelId \<Rightarrow> prop_store \<Rightarrow> label_schema" where
  "ps_schema label s = (case ps_schemas s label of Some sc \<Rightarrow> sc | None \<Rightarrow> label_schema_new)"

definition ps_column :: "prop_key \<Rightarrow> (prop_key \<rightharpoonup> column) \<Rightarrow> column" where
  "ps_column key cols = (case cols key of Some col \<Rightarrow> col | None \<Rightarrow> pc_new)"

text \<open>The column of a cell, made long enough, with the cell set: the same in \<open>open\<close> and \<open>insert_prop\<close>.\<close>

definition ps_put :: "prop_key \<Rightarrow> u32 \<Rightarrow> val option \<Rightarrow> (prop_key \<rightharpoonup> column) \<Rightarrow> (prop_key \<rightharpoonup> column)" where
  "ps_put key row v cols =
     cols(key \<mapsto> snd (pc_set row v (pc_extend_to (unat row + 1) (ps_column key cols))))"

section \<open>The cell record\<close>

definition ps_cell_payload ::
  "val option codec \<Rightarrow> LabelId \<Rightarrow> rstring \<Rightarrow> u32 \<Rightarrow> val option \<Rightarrow> bytes option" where
  "ps_cell_payload c label prop_name row v =
     (let payload = u32_to_le_bytes label @ [of_nat (length prop_name)] @ prop_name @ u32_to_le_bytes row
      in case ser c v of None \<Rightarrow> None | Some val_data \<Rightarrow> Some (payload @ val_data))"

definition ps_wal_send_cell ::
  "val option codec \<Rightarrow> LabelId \<Rightarrow> rstring \<Rightarrow> u32 \<Rightarrow> val option \<Rightarrow> prop_store \<Rightarrow> prop_store" where
  "ps_wal_send_cell c label prop_name row v s =
     (case ps_wal s of
       None \<Rightarrow> s
     | Some w \<Rightarrow>
         (case ps_cell_payload c label prop_name row v of
           None \<Rightarrow> s
         | Some payload \<Rightarrow> s\<lparr>ps_wal := Some (wal_send_insert (ucast label) payload w)\<rparr>))"

text \<open>What the callback of \<open>open\<close> reads from a payload; \<open>None\<close> where it returns early.\<close>

definition ps_decode_cell ::
  "val option codec \<Rightarrow> bytes \<Rightarrow> (LabelId \<times> rstring \<times> u32 \<times> val option) option" where
  "ps_decode_cell c payload =
     (if length payload < 10 then None
      else
        let label = u32_from_le_bytes (take 4 payload);
            name_len = unat (payload ! 4);
            header_end = 5 + name_len
        in if length payload < header_end + 4 then None
           else
             let prop_name = from_utf8_lossy (take name_len (drop 5 payload));
                 row = u32_from_le_bytes (take 4 (drop header_end payload));
                 val_data = drop (header_end + 4) payload
             in case de c val_data of None \<Rightarrow> None | Some v \<Rightarrow> Some (label, prop_name, row, v))"

section \<open>Opening\<close>

text \<open>
  The callback on one record. \<open>row + 1\<close> panics on overflow in a build with overflow checks
  (\<open>None\<close>) and wraps in one without.
\<close>

definition ps_replay_record ::
  "val option codec \<Rightarrow> bool \<Rightarrow> wal_rec \<Rightarrow> prop_store option \<Rightarrow> prop_store option" where
  "ps_replay_record c checks r st =
     (case (r, st) of
       (_, None) \<Rightarrow> None
     | ((opcode, _, payload), Some s) \<Rightarrow>
         if opcode = 1 then
           (case ps_decode_cell c payload of
             None \<Rightarrow> Some s
           | Some (label, prop_name, row, v) \<Rightarrow>
               if checks \<and> row = - 1 then None
               else Some (s\<lparr>ps_columns := ps_put (label, prop_name) row v (ps_columns s),
                      ps_schemas := (ps_schemas s)(label \<mapsto>
                        \<lparr>next_row = max (next_row (ps_schema label s)) (row + 1)\<rparr>)\<rparr>))
         else Some s)"

definition ps_open :: "val option codec \<Rightarrow> bool \<Rightarrow> nat \<Rightarrow> ofile \<Rightarrow> Consistency \<Rightarrow> prop_store outcome" where
  "ps_open c checks now f consistency =
     (let replayed =
        (if length (f_data f) > 4 then
           (case replay_wal (f_data f) of (rs, err) \<Rightarrow>
             (case fold (ps_replay_record c checks) rs (Some ps_new) of
               None \<Rightarrow> Panicked
             | Some s \<Rightarrow> (case err of Some e \<Rightarrow> Err e | None \<Rightarrow> Ok s)))
         else Ok ps_new)
      in case replayed of
        Err e \<Rightarrow> Err e
      | Panicked \<Rightarrow> Panicked
      | Ok s \<Rightarrow>
          (case wal_spawn checks now f (durability consistency) (wal_channel_capacity consistency) of
            Err e \<Rightarrow> Err e
          | Panicked \<Rightarrow> Panicked
          | Ok w \<Rightarrow> Ok (s\<lparr>ps_wal := Some w\<rparr>)))"

section \<open>Operations\<close>

definition ps_alloc_row :: "LabelId \<Rightarrow> prop_store \<Rightarrow> u32 \<times> prop_store" where
  "ps_alloc_row label s =
     (let row = next_row (ps_schema label s)
      in (row, s\<lparr>ps_schemas := (ps_schemas s)(label \<mapsto> \<lparr>next_row = row + 1\<rparr>)\<rparr>))"

definition ps_insert_prop ::
  "val option codec \<Rightarrow> LabelId \<Rightarrow> rstring \<Rightarrow> u32 \<Rightarrow> val option \<Rightarrow> prop_store \<Rightarrow> u32 \<times> prop_store" where
  "ps_insert_prop c label prop row v s =
     (row, ps_wal_send_cell c label prop row v
        (s\<lparr>ps_columns := ps_put (label, prop) row v (ps_columns s)\<rparr>))"

definition ps_get_prop :: "LabelId \<Rightarrow> rstring \<Rightarrow> u32 \<Rightarrow> prop_store \<Rightarrow> val option" where
  "ps_get_prop label prop row s =
     (case ps_columns s (label, prop) of
       None \<Rightarrow> None
     | Some col \<Rightarrow> (case pc_get row col of None \<Rightarrow> None | Some v \<Rightarrow> v))"

definition ps_set_prop ::
  "val option codec \<Rightarrow> LabelId \<Rightarrow> rstring \<Rightarrow> u32 \<Rightarrow> val option \<Rightarrow> prop_store \<Rightarrow> bool \<times> prop_store" where
  "ps_set_prop c label prop row v s =
     (case ps_columns s (label, prop) of
       None \<Rightarrow> (False, s)
     | Some col \<Rightarrow>
         let (ok, col') = pc_set row v col;
             s1 = s\<lparr>ps_columns := (ps_columns s)((label, prop) \<mapsto> col')\<rparr>
         in (ok, if ok then ps_wal_send_cell c label prop row v s1 else s1))"

definition ps_insert_row ::
  "val option codec \<Rightarrow> LabelId \<Rightarrow> (rstring \<times> val) list \<Rightarrow> prop_store \<Rightarrow> u32 \<times> prop_store" where
  "ps_insert_row c label props s =
     (let (row, s1) = ps_alloc_row label s
      in (row, fold (\<lambda>(prop_name, v) t. snd (ps_insert_prop c label prop_name row (Some v) t)) props s1))"

text \<open>\<open>order\<close> lists the column keys as the iterator yields them.\<close>

definition ps_get_row :: "prop_key list \<Rightarrow> LabelId \<Rightarrow> u32 \<Rightarrow> prop_store \<Rightarrow> (rstring \<times> val) list" where
  "ps_get_row order label row s =
     concat (map (\<lambda>key.
       case ps_columns s key of
         None \<Rightarrow> []
       | Some col \<Rightarrow>
           if fst key = label
           then (case pc_get row col of Some (Some v) \<Rightarrow> [(snd key, v)] | _ \<Rightarrow> [])
           else []) order)"

definition ps_column_count :: "prop_store \<Rightarrow> nat" where
  "ps_column_count s = card (dom (ps_columns s))"

definition ps_label_count :: "prop_store \<Rightarrow> nat" where
  "ps_label_count s = card (dom (ps_schemas s))"

definition ps_row_count :: "LabelId \<Rightarrow> prop_store \<Rightarrow> u32" where
  "ps_row_count label s = (case ps_schemas s label of Some sc \<Rightarrow> next_row sc | None \<Rightarrow> 0)"

definition ps_flush :: "nat \<Rightarrow> prop_store \<Rightarrow> prop_store" where
  "ps_flush now s = (case ps_wal s of None \<Rightarrow> s | Some w \<Rightarrow> s\<lparr>ps_wal := Some (wal_flush now w)\<rparr>)"

section \<open>Runs\<close>

datatype prop_op =
    PAllocRow LabelId
  | PInsert LabelId rstring u32 "val option"
  | PSet LabelId rstring u32 "val option"
  | PInsertRow LabelId "(rstring \<times> val) list"
  | PFlush nat
  | PThread nat

primrec ps_exec :: "val option codec \<Rightarrow> prop_op \<Rightarrow> prop_store \<Rightarrow> prop_store" where
  "ps_exec c (PAllocRow label) s = snd (ps_alloc_row label s)"
| "ps_exec c (PInsert label prop row v) s = snd (ps_insert_prop c label prop row v s)"
| "ps_exec c (PSet label prop row v) s = snd (ps_set_prop c label prop row v s)"
| "ps_exec c (PInsertRow label props) s = snd (ps_insert_row c label props s)"
| "ps_exec c (PFlush now) s = ps_flush now s"
| "ps_exec c (PThread now) s = s\<lparr>ps_wal := map_option (wal_loop_iter now) (ps_wal s)\<rparr>"

section \<open>Lemmas: strings and columns\<close>

lemma from_utf8_lossy_valid: "utf8_valid bs \<Longrightarrow> from_utf8_lossy bs = bs"
proof (induction bs rule: utf8_valid.induct)
  case (1 bs)
  then show ?case
    by (subst from_utf8_lossy.simps) (auto simp: utf8_valid.simps [of bs])
qed

lemma utf8_valid_ascii: "\<forall>b\<in>set bs. b < 0x80 \<Longrightarrow> utf8_valid bs"
proof (induction bs)
  case Nil
  then show ?case by (simp add: utf8_valid.simps)
next
  case (Cons b bs)
  then have "utf8_step (b # bs) = (True, 1)" by (simp add: utf8_step_def byte_at_def)
  with Cons show ?case by (subst utf8_valid.simps) simp
qed

lemma pc_get_put:
  "pc_get r (snd (pc_set row v (pc_extend_to (Suc (unat row)) col))) =
    (if r = row then Some v
     else if unat r < length (pc_values col) then Some (pc_values col ! unat r)
     else if unat r < unat row then Some None else None)"
  by (auto simp: pc_get_def pc_set_def pc_extend_to_def nth_append word_unat_eq_iff)

lemma ps_wal_send_cell_simps [simp]:
  "ps_columns (ps_wal_send_cell c l n r v s) = ps_columns s"
  "ps_schemas (ps_wal_send_cell c l n r v s) = ps_schemas s"
  by (simp_all add: ps_wal_send_cell_def split: option.split)

lemma ps_get_put:
  "ps_get_prop l' n' r' (snd (ps_insert_prop c l n r v s)) =
    (if (l', n', r') = (l, n, r) then v else ps_get_prop l' n' r' s)"
  by (auto simp: ps_get_prop_def ps_insert_prop_def ps_put_def ps_column_def pc_get_put pc_new_def
      split: option.split) (auto simp: pc_get_def split: if_splits)

section \<open>Lemmas: logging\<close>

text \<open>
  What the code relies on of the serialiser: it round-trips, and an optional value has at least
  one byte (its tag). A property name fits its one-byte length field below 256 bytes.
\<close>

definition val_codec_ok :: "val option codec \<Rightarrow> bool" where
  "val_codec_ok c \<longleftrightarrow> codec_ok c \<and> (\<forall>v b. ser c v = Some b \<longrightarrow> b \<noteq> [])"

definition prop_name_ok :: "rstring \<Rightarrow> bool" where
  "prop_name_ok n \<longleftrightarrow> utf8_valid n \<and> length n < 256"

definition ps_apply :: "val option codec \<Rightarrow> wal_rec \<Rightarrow> (prop_key \<rightharpoonup> column) \<Rightarrow> (prop_key \<rightharpoonup> column)" where
  "ps_apply c r cols =
     (case r of (opcode, _, payload) \<Rightarrow>
       if opcode = 1 then
         (case ps_decode_cell c payload of
           None \<Rightarrow> cols
         | Some (label, prop_name, row, v) \<Rightarrow> ps_put (label, prop_name) row v cols)
       else cols)"

lemma ps_cell_payload_Some:
  assumes "codec_ok c"
  obtains b where "ser c v = Some b" "de c b = Some v"
    "ps_cell_payload c l n r v = Some (u32_to_le_bytes l @ [of_nat (length n)] @ n @ u32_to_le_bytes r @ b)"
  using codec_okD [OF assms, of v] by (auto simp: ps_cell_payload_def)

text \<open>The raw reading of a cell record, for a name of any length: the length byte is taken modulo 256.\<close>

lemma ps_decode_payload:
  assumes "b \<noteq> []"
  shows "ps_decode_cell c (u32_to_le_bytes l @ [of_nat (length n)] @ n @ u32_to_le_bytes r @ b) =
    (let k = length n mod 256; rest = drop k n @ u32_to_le_bytes r @ b in
     case de c (drop 4 rest) of
       None \<Rightarrow> None
     | Some v \<Rightarrow> Some (l, from_utf8_lossy (take k n), u32_from_le_bytes (take 4 rest), v))"
proof -
  define k where "k = length n mod 256"
  define p where "p = u32_to_le_bytes l @ [of_nat (length n)] @ n @ u32_to_le_bytes r @ b"
  have k: "k \<le> length n" "unat (of_nat (length n) :: u8) = k"
    by (simp_all add: k_def unat_of_nat)
  have five: "drop 5 p = n @ u32_to_le_bytes r @ b" "p ! 4 = of_nat (length n)" "take 4 p = u32_to_le_bytes l"
    by (simp_all add: p_def nth_append)
  have head: "drop (5 + k) p = drop k n @ u32_to_le_bytes r @ b"
    using drop_drop [of k 5 p] k(1) five(1) by (simp add: add.commute)
  have rest: "drop (5 + k + 4) p = drop 4 (drop k n @ u32_to_le_bytes r @ b)"
    unfolding head [symmetric] drop_drop by (simp add: add.commute)
  have name: "take k (drop 5 p) = take k n" using k(1) by (simp add: five(1))
  have len: "length p = 9 + length n + length b" "0 < length b"
    using assms by (simp_all add: p_def)
  have "\<not> length p < 10" "\<not> length p < 5 + k + 4" using len k(1) by simp_all
  then show ?thesis
    unfolding ps_decode_cell_def p_def [symmetric] k_def [symmetric] Let_def five(2,3) k(2) name head rest le32.dec_enc
    by simp
qed

lemma ps_decode_cell_payload:
  assumes "val_codec_ok c" and "prop_name_ok n" and "ps_cell_payload c l n r v = Some p"
  shows "ps_decode_cell c p = Some (l, n, r, v)"
proof -
  obtain b where b: "ser c v = Some b" "de c b = Some v"
    "p = u32_to_le_bytes l @ [of_nat (length n)] @ n @ u32_to_le_bytes r @ b"
    using assms(1,3) ps_cell_payload_Some [of c v l n r] by (auto simp: val_codec_ok_def)
  have "b \<noteq> []" using assms(1) b(1) by (auto simp: val_codec_ok_def)
  from ps_decode_payload [OF this, of c l n r] assms(2) b(2,3) show ?thesis
    by (simp add: prop_name_ok_def from_utf8_lossy_valid Let_def)
qed

abbreviation ps_logged :: "val option codec \<Rightarrow> prop_store \<Rightarrow> prop_store \<Rightarrow> bool" where
  "ps_logged c \<equiv> logged ps_columns ps_wal (ps_apply c)"

lemma ps_put_logged:
  assumes "val_codec_ok c" and "prop_name_ok n"
    and "ps_columns s' = ps_put (l, n) r v (ps_columns s)" and "ps_wal s' = ps_wal (ps_wal_send_cell c l n r v s)"
  shows "ps_logged c s s'"
proof (rule loggedI)
  fix w assume w: "ps_wal s = Some w"
  obtain p where p: "ps_cell_payload c l n r v = Some p"
    using ps_cell_payload_Some [of c v l n r] assms(1) unfolding val_codec_ok_def by blast
  have "wal_does w [Insert (ucast l) p] (wal_send_insert (ucast l) p w)"
    using wal_does.insert [OF wal_does.nothing] by simp
  then show "\<exists>w' cs. ps_wal s' = Some w' \<and> wal_does w cs w' \<and>
      ps_columns s' = fold (ps_apply c) (wal_recs cs) (ps_columns s)"
    using assms(3,4) w p ps_decode_cell_payload [OF assms(1,2) p]
    by (intro exI [of _ "wal_send_insert (ucast l) p w"] exI [of _ "[Insert (ucast l) p]"])
      (simp add: ps_wal_send_cell_def ps_apply_def)
qed

lemma ps_insert_prop_logged:
  assumes "val_codec_ok c" and "prop_name_ok n"
  shows "ps_logged c s (snd (ps_insert_prop c l n r v s))"
  by (rule ps_put_logged [OF assms, where l = l and r = r and v = v])
    (simp_all add: ps_insert_prop_def, simp add: ps_wal_send_cell_def split: option.split)

lemma ps_set_prop_logged:
  assumes "val_codec_ok c" and "prop_name_ok n"
  shows "ps_logged c s (snd (ps_set_prop c l n r v s))"
proof (cases "\<exists>col. ps_columns s (l, n) = Some col \<and> unat r < length (pc_values col)")
  case True
  then obtain col where col: "ps_columns s (l, n) = Some col" "unat r < length (pc_values col)" by blast
  show ?thesis
    by (rule ps_put_logged [OF assms, where l = l and r = r and v = v])
      (use col in \<open>simp_all add: ps_set_prop_def ps_put_def ps_column_def pc_set_def pc_extend_to_def\<close>,
        simp add: ps_wal_send_cell_def split: option.split)
next
  case False
  then show ?thesis
    by (auto simp: ps_set_prop_def pc_set_def fun_upd_idem split: option.split intro!: logged_refl)
qed

primrec prop_op_ok :: "prop_op \<Rightarrow> bool" where
  "prop_op_ok (PAllocRow label) \<longleftrightarrow> True"
| "prop_op_ok (PInsert label prop row v) \<longleftrightarrow> prop_name_ok prop"
| "prop_op_ok (PSet label prop row v) \<longleftrightarrow> prop_name_ok prop"
| "prop_op_ok (PInsertRow label props) \<longleftrightarrow> (\<forall>x\<in>set props. prop_name_ok (fst x))"
| "prop_op_ok (PFlush now) \<longleftrightarrow> True"
| "prop_op_ok (PThread now) \<longleftrightarrow> True"

lemma ps_insert_props_logged:
  assumes "val_codec_ok c" and "\<forall>x\<in>set props. prop_name_ok (fst x)"
  shows "ps_logged c s (fold (\<lambda>(n, v) t. snd (ps_insert_prop c l n r (Some v) t)) props s)"
  using assms(2)
proof (induction props arbitrary: s)
  case Nil
  then show ?case by (simp add: logged_refl)
next
  case (Cons x props)
  then have "ps_logged c s (snd (ps_insert_prop c l (fst x) r (Some (snd x)) s))"
    using ps_insert_prop_logged [OF assms(1)] by simp
  from logged_trans [OF this Cons.IH] Cons.prems show ?case by (simp add: split_beta)
qed

lemma ps_exec_logged:
  assumes "val_codec_ok c" and "prop_op_ok op"
  shows "ps_logged c s (ps_exec c op s)"
proof (cases op)
  case (PInsertRow label props)
  have "ps_logged c s (snd (ps_alloc_row label s))"
    by (rule logged_refl) (simp_all add: ps_alloc_row_def Let_def)
  from logged_trans [OF this] ps_insert_props_logged [OF assms(1)] assms(2) PInsertRow
  show ?thesis by (simp add: ps_insert_row_def split_beta)
next
  case (PFlush now)
  then show ?thesis by (auto intro!: logged_flush simp: ps_flush_def split: option.split)
next
  case (PThread now)
  then show ?thesis by (auto intro!: logged_thread)
qed (use assms in \<open>simp_all add: ps_insert_prop_logged ps_set_prop_logged ps_alloc_row_def Let_def logged_refl\<close>)

definition ps_exec_ok :: "val option codec \<Rightarrow> prop_op \<Rightarrow> prop_store \<Rightarrow> prop_store" where
  "ps_exec_ok c op s = (if prop_op_ok op then ps_exec c op s else s)"

lemma ps_exec_ok_fold: "\<forall>op\<in>set ops. prop_op_ok op \<Longrightarrow> fold (ps_exec_ok c) ops s = fold (ps_exec c) ops s"
  by (induction ops arbitrary: s) (simp_all add: ps_exec_ok_def)

section \<open>Lemmas: opening\<close>

definition ps_rows_ok :: "val option codec \<Rightarrow> wal_rec list \<Rightarrow> bool" where
  "ps_rows_ok c rs \<longleftrightarrow> (\<forall>r\<in>set rs. case ps_decode_cell c (snd (snd r)) of
     Some (_, _, row, _) \<Rightarrow> row \<noteq> - 1 | None \<Rightarrow> True)"

lemma ps_replay_None [simp]: "fold (ps_replay_record c checks) rs None = None"
  by (induction rs) (simp_all add: ps_replay_record_def split: prod.split)

lemma ps_replay_columns:
  "fold (ps_replay_record c checks) rs (Some s) = Some t \<Longrightarrow>
    ps_columns t = fold (ps_apply c) rs (ps_columns s)"
proof (induction rs arbitrary: s)
  case Nil
  then show ?case by simp
next
  case (Cons r rs)
  obtain s1 where s1: "ps_replay_record c checks r (Some s) = Some s1"
    using Cons.prems by (cases "ps_replay_record c checks r (Some s)") auto
  then have "ps_columns s1 = ps_apply c r (ps_columns s)"
    by (auto simp: ps_replay_record_def ps_apply_def split: prod.splits option.splits if_splits)
  with Cons s1 show ?case by simp
qed

lemma ps_replay_total:
  "ps_rows_ok c rs \<Longrightarrow> \<exists>t. fold (ps_replay_record c checks) rs (Some s) = Some t"
proof (induction rs arbitrary: s)
  case Nil
  then show ?case by simp
next
  case (Cons r rs)
  have "\<exists>s1. ps_replay_record c checks r (Some s) = Some s1"
    using Cons.prems
    by (auto simp: ps_replay_record_def ps_rows_ok_def split: prod.splits option.splits)
  with Cons show ?case by (auto simp: ps_rows_ok_def)
qed

lemma ps_open_Ok:
  assumes "ps_open c checks now f k = Ok s"
  shows "\<exists>w. wal_spawn checks now f (durability k) (wal_channel_capacity k) = Ok w \<and> ps_wal s = Some w \<and>
    (if 4 < length (f_data f) then snd (replay_wal (f_data f)) = None \<and>
       ps_columns s = fold (ps_apply c) (fst (replay_wal (f_data f))) Map.empty
     else ps_columns s = Map.empty)"
  using assms ps_replay_columns [of c checks "fst (replay_wal (f_data f))" ps_new]
  by (auto simp: ps_open_def Let_def split_beta ps_new_def split: if_splits outcome.splits option.splits)

lemma ps_open_total:
  assumes "wal_spawn checks now f (durability k) (wal_channel_capacity k) = Ok w"
    and "4 < length (f_data f) \<Longrightarrow> snd (replay_wal (f_data f)) = None \<and> ps_rows_ok c (fst (replay_wal (f_data f)))"
  shows "\<exists>s. ps_open c checks now f k = Ok s"
  using assms ps_replay_total [of c "fst (replay_wal (f_data f))" checks ps_new]
  by (auto simp: ps_open_def Let_def split_beta)

interpretation psr: recoverable_store ps_columns ps_wal "ps_apply c" Map.empty "ps_exec_ok c"
  "\<lambda>bs. ps_open c checks now (file_of bs) k" checks now "durability k" "wal_channel_capacity k"
  "val_codec_ok c" "ps_rows_ok c"
proof
  show "val_codec_ok c \<Longrightarrow> ps_logged c s (ps_exec_ok c op s)" for s op
    by (simp add: ps_exec_ok_def ps_exec_logged logged_refl)
qed (use ps_open_Ok [where f = "file_of bs" for bs] ps_open_total [where f = "file_of bs" for bs] in fastforce)+

section \<open>Example\<close>

text \<open>A serialiser for the values of the examples, total on all values.\<close>

fun val_nats :: "val \<Rightarrow> nat list" where
  "val_nats Null = [0]"
| "val_nats (VBool b) = [1, if b then 1 else 0]"
| "val_nats (VInt w) = [2, unat w]"
| "val_nats (VFloat w) = [3, unat w]"
| "val_nats (VString s) = 4 # length s # map unat s"
| "val_nats (VList vs) = 5 # length vs # concat (map val_nats vs)"
| "val_nats (VVector ws) = 6 # length ws # map unat ws"

primrec read_many :: "nat \<Rightarrow> (nat list \<Rightarrow> val \<times> nat list) \<Rightarrow> nat list \<Rightarrow> val list \<times> nat list" where
  "read_many 0 d ns = ([], ns)"
| "read_many (Suc k) d ns = (let (v, r) = d ns; (vs, r') = read_many k d r in (v # vs, r'))"

text \<open>The fuel is the number of numbers: each nested value takes up at least one.\<close>

primrec read_val :: "nat \<Rightarrow> nat list \<Rightarrow> val \<times> nat list" where
  "read_val 0 ns = (Null, ns)"
| "read_val (Suc f) ns =
     (case ns of
       [] \<Rightarrow> (Null, [])
     | t # ns1 \<Rightarrow>
         if t = 0 then (Null, ns1)
         else if t = 1 then (VBool (hd ns1 = 1), tl ns1)
         else if t = 2 then (VInt (of_nat (hd ns1)), tl ns1)
         else if t = 3 then (VFloat (of_nat (hd ns1)), tl ns1)
         else if t = 4 then (VString (map of_nat (take (hd ns1) (tl ns1))), drop (hd ns1) (tl ns1))
         else if t = 5 then (let (vs, r) = read_many (hd ns1) (read_val f) (tl ns1) in (VList vs, r))
         else (VVector (map of_nat (take (hd ns1) (tl ns1))), drop (hd ns1) (tl ns1)))"

definition val_example_codec :: "val option codec" where
  "val_example_codec =
     \<lparr>ser = \<lambda>v. Some (nats_to_bytes (case v of None \<Rightarrow> [0] | Some x \<Rightarrow> 1 # val_nats x)),
      de = \<lambda>bs. (case nats_of_bytes 0 bs of
        [] \<Rightarrow> None
      | t # ns \<Rightarrow> if t = 0 then Some None else Some (Some (fst (read_val (length ns) ns))))\<rparr>"

lemma read_many_val_nats:
  assumes "\<And>x rest. x \<in> set vs \<Longrightarrow> d (val_nats x @ rest) = (x, rest)"
  shows "read_many (length vs) d (concat (map val_nats vs) @ rest) = (vs, rest)"
  using assms by (induction vs) simp_all

lemma length_val_nats_member: "x \<in> set vs \<Longrightarrow> length (val_nats x) \<le> length (concat (map val_nats vs))"
  by (induction vs) auto

lemma read_val_nats: "length (val_nats v) \<le> f \<Longrightarrow> read_val f (val_nats v @ rest) = (v, rest)"
proof (induction v arbitrary: f rest)
  case (VList vs)
  then obtain f' where f: "f = Suc f'" by (cases f) auto
  have "read_many (length vs) (read_val f') (concat (map val_nats vs) @ rest) = (vs, rest)"
  proof (rule read_many_val_nats)
    fix x rest assume x: "x \<in> set vs"
    then have "length (val_nats x) \<le> f'"
      using length_val_nats_member [OF x] VList.prems by (simp add: f)
    then show "read_val f' (val_nats x @ rest) = (x, rest)" using VList.IH [OF x] by blast
  qed
  then show ?case by (simp add: f)
next
  case Null
  then show ?case by (cases f) (simp_all add: comp_def)
next
  case (VBool b)
  then show ?case by (cases f) (simp_all add: comp_def)
next
  case (VInt w)
  then show ?case by (cases f) (simp_all add: comp_def)
next
  case (VFloat w)
  then show ?case by (cases f) (simp_all add: comp_def)
next
  case (VString bs)
  then show ?case by (cases f) (simp_all add: comp_def)
next
  case (VVector ws)
  then show ?case by (cases f) (simp_all add: comp_def)
qed

lemma val_example_codec_ok: "val_codec_ok val_example_codec"
proof -
  have "codec_at val_example_codec v" for v
    using read_val_nats [of _ _ "[]"]
    by (cases v) (simp_all add: codec_at_def val_example_codec_def)
  moreover have "nats_to_bytes (n # ns) \<noteq> []" for n ns by (simp add: nats_to_bytes_def)
  ultimately show ?thesis
    by (auto simp: val_codec_ok_def codec_ok_def val_example_codec_def split: option.splits)
qed

definition prop_example :: prop_store where
  "prop_example =
     (case ps_open val_example_codec False 0 (file_of []) consistency_immediate of Ok s \<Rightarrow> s | _ \<Rightarrow> ps_new)"

definition prop_example_ops :: "prop_op list" where
  "prop_example_ops = [PInsert 1 [0x61] 1 (Some (VBool True)), PAllocRow 1]"

definition prop_example_wal :: wal_sys where
  "prop_example_wal =
     (case ps_wal (fold (ps_exec val_example_codec) prop_example_ops prop_example) of
       Some w \<Rightarrow> w | None \<Rightarrow> wal_example)"

lemma prop_example_open:
  "ps_open val_example_codec False 0 (file_of []) consistency_immediate = Ok prop_example"
proof -
  have "\<exists>w. wal_spawn False 0 (file_of []) (durability consistency_immediate)
      (wal_channel_capacity consistency_immediate) = Ok w"
    by (rule wal_spawn_ok) code_simp
  then show ?thesis
    using ps_open_total [of False 0 "file_of []" consistency_immediate _ val_example_codec]
    by (auto simp: prop_example_def)
qed

lemma prop_example_run_1: "ps_wal (fold (ps_exec val_example_codec) prop_example_ops prop_example) = Some prop_example_wal"
  by code_simp

lemma prop_example_run_2: "\<forall>r\<in>set (wal_recs ([] @ ws_sent prop_example_wal)). wal_fits r"
  by code_simp

lemma prop_example_run_3: "ps_rows_ok val_example_codec (wal_recs ([] @ ws_sent prop_example_wal))"
  by code_simp

lemma prop_example_run_4: "vec_capacity_ok (batch_bytes (durability consistency_immediate))"
  by code_simp

lemma prop_example_run_5: "durability consistency_immediate \<noteq> Async"
  by code_simp

lemma prop_example_run_6: "wal_base [] = fold encode_cmd [] WAL_MAGIC"
  by code_simp

lemma prop_example_run_7: "\<forall>op\<in>set prop_example_ops. prop_op_ok op"
  by code_simp

lemmas prop_example_run = prop_example_run_1 prop_example_run_2 prop_example_run_3 prop_example_run_4 prop_example_run_5 prop_example_run_6 prop_example_run_7

section \<open>Properties\<close>

text \<open>
  Writing and reading cells: after \<open>insert_prop\<close> the cell that was written reads as the value
  written, and every other cell of every column reads as before, also when the column is new or
  had to be made longer.
\<close>

theorem prop_insert_get:
  "ps_get_prop l' n' r' (snd (ps_insert_prop c l n r v s)) =
     (if l' = l \<and> n' = n \<and> r' = r then v else ps_get_prop l' n' r' s)"
  using ps_get_put by simp

text \<open>
  Round trip of a cell record: for every value, a name of fewer than 256 bytes of UTF-8 and
  any row, the payload \<open>wal_send_cell\<close> builds is read back by \<open>open\<close> as the same label, name, row
  and value.
\<close>

theorem prop_cell_roundtrip:
  assumes "val_codec_ok c" and "prop_name_ok n" and "ps_cell_payload c l n r v = Some p"
  shows "ps_decode_cell c p = Some (l, n, r, v)"
  using ps_decode_cell_payload [OF assms] .

theorem prop_cell_roundtrip_witness:
  "\<exists>p. ps_cell_payload val_example_codec 1 [0x61] 5 (Some (VInt 3)) = Some p \<and>
     ps_decode_cell val_example_codec p = Some (1, [0x61], 5, Some (VInt 3))"
proof -
  have "prop_name_ok [0x61]" by (simp add: prop_name_ok_def utf8_valid_ascii)
  moreover obtain p where "ps_cell_payload val_example_codec 1 [0x61] 5 (Some (VInt 3)) = Some p"
    by (auto simp: ps_cell_payload_def val_example_codec_def)
  ultimately show ?thesis
    using prop_cell_roundtrip [OF val_example_codec_ok] by blast
qed

text \<open>
  A name of 256 ASCII bytes or more does not survive: its length is cast to one byte, so replay
  reads a shorter name and never touches the column that was written. After recovery the property
  is gone.
\<close>

theorem prop_long_name_lost:
  assumes "val_codec_ok c" and "\<forall>b\<in>set n. b < 0x80" and "256 \<le> length n"
    and "ps_cell_payload c l n r v = Some p"
  shows "ps_apply c (1, i, p) cols (l, n) = cols (l, n)"
proof -
  obtain b where b: "ser c v = Some b" "p = u32_to_le_bytes l @ [of_nat (length n)] @ n @ u32_to_le_bytes r @ b"
    using assms(1,4) ps_cell_payload_Some [of c v l n r] by (auto simp: val_codec_ok_def)
  have "b \<noteq> []" using assms(1) b(1) by (auto simp: val_codec_ok_def)
  note dec = ps_decode_payload [OF this, of c l n r]
  have "utf8_valid (take (length n mod 256) n)"
    using assms(2) by (intro utf8_valid_ascii) (auto dest: in_set_takeD)
  then have "from_utf8_lossy (take (length n mod 256) n) = take (length n mod 256) n"
    by (rule from_utf8_lossy_valid)
  moreover have "length n mod 256 < 256" by simp
  then have "length n mod 256 < length n" using assms(3) by linarith
  then have "length (take (length n mod 256) n) \<noteq> length n" by simp
  then have "take (length n mod 256) n \<noteq> n" by (rule contrapos_nn) simp
  moreover have "fst (snd x) = from_utf8_lossy (take (length n mod 256) n)"
    if "ps_decode_cell c p = Some x" for x
    using that dec unfolding b(2) Let_def by (simp split: option.splits)
  ultimately have "fst (snd x) \<noteq> n" if "ps_decode_cell c p = Some x" for x
    using that by metis
  then show ?thesis
    by (cases "ps_decode_cell c p") (auto simp: ps_apply_def ps_put_def)
qed

theorem prop_long_name_lost_witness:
  "\<exists>n p. length n = 300 \<and> ps_cell_payload val_example_codec 1 n 0 None = Some p \<and>
     ps_apply val_example_codec (1, 1, p) Map.empty (1, n) = None"
proof -
  define n where "n = replicate 300 (0x61 :: u8)"
  have n: "\<forall>b\<in>set n. b < 0x80" "length n = 300" by (simp_all add: n_def)
  obtain p where p: "ps_cell_payload val_example_codec 1 n 0 None = Some p"
    by (auto simp: ps_cell_payload_def val_example_codec_def)
  show ?thesis
    using prop_long_name_lost [OF val_example_codec_ok n(1) _ p, of 1 Map.empty] p n(2)
    by (intro exI [of _ n] exI [of _ p]) simp
qed

text \<open>
  C17. Durability of the property store: after any operations with names of fewer than 256 bytes,
  with the WAL thread iterating anywhere in between, and a flush, opening the durable file again
  gives exactly the columns that were in memory, and every cell reads as before.
\<close>

theorem prop_store_recovery:
  assumes "val_codec_ok c" and "ps_open c checks now (file_of bs) k = Ok s"
    and "wal_base bs = fold encode_cmd cs WAL_MAGIC"
    and "vec_capacity_ok (batch_bytes (durability k))" and "durability k \<noteq> Async"
    and "\<forall>op\<in>set ops. prop_op_ok op"
    and "ps_wal (fold (ps_exec c) ops s) = Some w"
    and "\<forall>r\<in>set (wal_recs (cs @ ws_sent w)). wal_fits r" and "ps_rows_ok c (wal_recs (cs @ ws_sent w))"
  shows "\<exists>w' r. ps_wal (ps_flush n (fold (ps_exec c) ops s)) = Some w' \<and>
    ps_open c checks now (file_of (durable (ws_file w'))) k = Ok r \<and>
    ps_columns r = ps_columns (fold (ps_exec c) ops s) \<and>
    (\<forall>l p row. ps_get_prop l p row r = ps_get_prop l p row (fold (ps_exec c) ops s))"
  using psr.recover_after_flush [OF assms(2,3,1,4,5) _ assms(8,9), of ops n] assms(7)
  by (auto simp: ps_exec_ok_fold [OF assms(6)] ps_flush_def ps_get_prop_def)

theorem prop_store_recovery_witness:
  "\<exists>w' r. ps_wal (ps_flush 0 (fold (ps_exec val_example_codec) prop_example_ops prop_example)) = Some w' \<and>
    ps_open val_example_codec False 0 (file_of (durable (ws_file w'))) consistency_immediate = Ok r \<and>
    ps_columns r = ps_columns (fold (ps_exec val_example_codec) prop_example_ops prop_example)"
  using prop_store_recovery [OF val_example_codec_ok prop_example_open prop_example_run(6,4,5,7,1,2,3), of 0] by blast

end
