(* ===== verification/Prop_Race.thy ===== *)
theory Prop_Race
  imports Prop_Store
begin

text \<open>
  Concurrent writers of property cells (\<^verbatim>\<open>src/src/storage/prop_store.rs\<close>). \<open>insert_prop\<close> releases the lock of
  the column before it sends the cell to the log, so the two halves of the calls of several threads
  interleave: memory can be written in one order and the log in another.
\<close>

section \<open>The two halves of a call\<close>

type_synonym cell_write = "LabelId \<times> rstring \<times> u32 \<times> val option"

definition pw_put :: "cell_write \<Rightarrow> (prop_key \<rightharpoonup> column) \<Rightarrow> (prop_key \<rightharpoonup> column)" where
  "pw_put x = (case x of (l, n, r, v) \<Rightarrow> ps_put (l, n) r v)"

definition pw_send :: "val option codec \<Rightarrow> cell_write \<Rightarrow> prop_store \<Rightarrow> prop_store" where
  "pw_send c x = (case x of (l, n, r, v) \<Rightarrow> ps_wal_send_cell c l n r v)"

definition pw_cell :: "cell_write \<Rightarrow> LabelId \<times> rstring \<times> u32" where
  "pw_cell x = (case x of (l, n, r, v) \<Rightarrow> (l, n, r))"

text \<open>
  Each thread has at most one call under way, whose memory half is done. A call may begin if \<open>ok\<close> allows it
  beside those under way. The WAL thread iterates and flushes happen at any time.
\<close>

inductive pr_step :: "val option codec \<Rightarrow> (cell_write \<Rightarrow> (nat \<rightharpoonup> cell_write) \<Rightarrow> bool) \<Rightarrow>
    prop_store \<times> (nat \<rightharpoonup> cell_write) \<Rightarrow> prop_store \<times> (nat \<rightharpoonup> cell_write) \<Rightarrow> bool" for c ok where
  put: "p t = None \<Longrightarrow> ok x p \<Longrightarrow> pr_step c ok (s, p) (s\<lparr>ps_columns := pw_put x (ps_columns s)\<rparr>, p(t \<mapsto> x))"
| send: "p t = Some x \<Longrightarrow> pr_step c ok (s, p) (pw_send c x s, p(t := None))"
| wal: "op = PThread now \<or> op = PFlush now \<Longrightarrow> pr_step c ok (s, p) (ps_exec c op s, p)"

inductive pr_reach :: "val option codec \<Rightarrow> (cell_write \<Rightarrow> (nat \<rightharpoonup> cell_write) \<Rightarrow> bool) \<Rightarrow>
    prop_store \<times> (nat \<rightharpoonup> cell_write) \<Rightarrow> prop_store \<times> (nat \<rightharpoonup> cell_write) \<Rightarrow> bool" for c ok a where
  start: "pr_reach c ok a a"
| step: "pr_reach c ok a b \<Longrightarrow> pr_step c ok b d \<Longrightarrow> pr_reach c ok a d"

definition name_ok :: "cell_write \<Rightarrow> bool" where
  "name_ok x \<longleftrightarrow> prop_name_ok (fst (snd x))"

text \<open>No two calls under way write one cell.\<close>

definition apart :: "cell_write \<Rightarrow> (nat \<rightharpoonup> cell_write) \<Rightarrow> bool" where
  "apart x p \<longleftrightarrow> name_ok x \<and> (\<forall>t y. p t = Some y \<longrightarrow> pw_cell y \<noteq> pw_cell x)"

section \<open>Lemmas\<close>

text \<open>A call that nobody interrupts is \<open>insert_prop\<close>.\<close>

lemma pw_insert:
  "ps_exec c (PInsert l n r v) s = pw_send c (l, n, r, v) (s\<lparr>ps_columns := pw_put (l, n, r, v) (ps_columns s)\<rparr>)"
  by (simp add: ps_insert_prop_def pw_send_def pw_put_def)

subsection \<open>Writes of different cells commute\<close>

definition put_col :: "u32 \<Rightarrow> val option \<Rightarrow> column \<Rightarrow> column" where
  "put_col r v col = snd (pc_set r v (pc_extend_to (unat r + 1) col))"

lemma put_col_length: "length (pc_values (put_col r v col)) = max (length (pc_values col)) (unat r + 1)"
  by (auto simp: put_col_def pc_set_def pc_extend_to_def)

lemma put_col_nth:
  "i < max (length (pc_values col)) (unat r + 1) \<Longrightarrow> pc_values (put_col r v col) ! i =
    (if i = unat r then v else if i < length (pc_values col) then pc_values col ! i else None)"
  by (auto simp: put_col_def pc_set_def pc_extend_to_def nth_append nth_list_update)

lemma put_col_commute:
  assumes "r \<noteq> r'"
  shows "put_col r v (put_col r' v' col) = put_col r' v' (put_col r v col)"
proof -
  have "unat r \<noteq> unat r'" using assms by (simp add: word_unat_eq_iff)
  then have "pc_values (put_col r v (put_col r' v' col)) = pc_values (put_col r' v' (put_col r v col))"
    by (intro nth_equalityI) (auto simp: put_col_length put_col_nth)
  then show ?thesis by simp
qed

lemma ps_put_col: "ps_put key r v cols = cols(key \<mapsto> put_col r v (ps_column key cols))"
  by (simp add: ps_put_def put_col_def)

lemma pw_put_commute:
  assumes "pw_cell x \<noteq> pw_cell y"
  shows "pw_put x (pw_put y cols) = pw_put y (pw_put x cols)"
proof -
  obtain l n r v l' n' r' v' where xy: "x = (l, n, r, v)" "y = (l', n', r', v')" by (cases x, cases y) auto
  show ?thesis
  proof (cases "(l, n) = (l', n')")
    case True
    with assms have "r \<noteq> r'" by (simp add: xy pw_cell_def)
    with True put_col_commute [OF this] show ?thesis by (simp add: xy pw_put_def ps_put_col ps_column_def)
  next
    case False
    then show ?thesis by (auto simp: xy pw_put_def ps_put_col ps_column_def fun_upd_twist)
  qed
qed

lemma fold_put_commute:
  "\<forall>y\<in>set ys. pw_cell y \<noteq> pw_cell x \<Longrightarrow> fold pw_put ys (pw_put x cols) = pw_put x (fold pw_put ys cols)"
  by (induction ys arbitrary: cols) (simp_all add: pw_put_commute [of _ x])

subsection \<open>Any interleaving is a sequential run with some memory halves ahead\<close>

text \<open>
  \<open>ops\<close> are the calls in the order in which their cells were sent, \<open>ys\<close> those that are not sent yet.
\<close>

definition pr_inv :: "val option codec \<Rightarrow> prop_store \<Rightarrow> prop_store \<times> (nat \<rightharpoonup> cell_write) \<Rightarrow> bool" where
  "pr_inv c s0 a \<longleftrightarrow> (\<exists>ops ys. (\<forall>op\<in>set ops. prop_op_ok op) \<and>
     ps_wal (fst a) = ps_wal (fold (ps_exec c) ops s0) \<and>
     ps_columns (fst a) = fold pw_put (map snd ys) (ps_columns (fold (ps_exec c) ops s0)) \<and>
     map_of ys = snd a \<and> distinct (map fst ys) \<and> distinct (map (pw_cell \<circ> snd) ys) \<and> (\<forall>y\<in>snd ` set ys. name_ok y))"

lemma pr_invI:
  assumes "\<forall>op\<in>set ops. prop_op_ok op" and "ps_wal s = ps_wal (fold (ps_exec c) ops s0)"
    and "ps_columns s = fold pw_put (map snd ys) (ps_columns (fold (ps_exec c) ops s0))"
    and "map_of ys = p" and "distinct (map fst ys)" and "distinct (map (pw_cell \<circ> snd) ys)" and "\<forall>y\<in>snd ` set ys. name_ok y"
  shows "pr_inv c s0 (s, p)"
  unfolding pr_inv_def fst_conv snd_conv using assms by blast

lemma pw_send_columns [simp]: "ps_columns (pw_send c x s) = ps_columns s"
  by (simp add: pw_send_def split: prod.split)

lemma pw_send_wal: "ps_wal s = ps_wal s' \<Longrightarrow> ps_wal (pw_send c x s) = ps_wal (pw_send c x s')"
  by (auto simp: pw_send_def ps_wal_send_cell_def split: prod.split option.split)

lemma pr_wal_step:
  "op = PThread now \<or> op = PFlush now \<Longrightarrow> ps_columns (ps_exec c op s) = ps_columns s \<and> prop_op_ok op \<and>
    (ps_wal s = ps_wal s' \<longrightarrow> ps_wal (ps_exec c op s) = ps_wal (ps_exec c op s'))"
  by (auto simp: ps_flush_def split: option.split)

lemma pr_invE:
  assumes "pr_inv c s0 (s, p)"
  obtains ops ys where "\<forall>op\<in>set ops. prop_op_ok op" and "ps_wal s = ps_wal (fold (ps_exec c) ops s0)"
    and "ps_columns s = fold pw_put (map snd ys) (ps_columns (fold (ps_exec c) ops s0))"
    and "map_of ys = p" and "distinct (map fst ys)" and "distinct (map (pw_cell \<circ> snd) ys)" and "\<forall>y\<in>snd ` set ys. name_ok y"
  using assms unfolding pr_inv_def fst_conv snd_conv by blast

lemma pr_put_inv:
  assumes "pr_inv c s0 (s, p)" and "p t = None" and "apart x p"
  shows "pr_inv c s0 (s\<lparr>ps_columns := pw_put x (ps_columns s)\<rparr>, p(t \<mapsto> x))"
proof -
  obtain ops ys where i: "\<forall>op\<in>set ops. prop_op_ok op" "ps_wal s = ps_wal (fold (ps_exec c) ops s0)"
    "ps_columns s = fold pw_put (map snd ys) (ps_columns (fold (ps_exec c) ops s0))"
    "map_of ys = p" "distinct (map fst ys)" "distinct (map (pw_cell \<circ> snd) ys)" "\<forall>y\<in>snd ` set ys. name_ok y"
    using assms(1) by (rule pr_invE)
  have new: "t \<notin> fst ` set ys" using assms(2) unfolding i(4) [symmetric] map_of_eq_None_iff .
  have "pw_cell (snd y) \<noteq> pw_cell x" if "y \<in> set ys" for y
  proof -
    have "p (fst y) = Some (snd y)" using that i(5) unfolding i(4) [symmetric] by simp
    with assms(3) show ?thesis unfolding apart_def by blast
  qed
  then have cells: "pw_cell x \<notin> (pw_cell \<circ> snd) ` set ys" by fastforce
  have map: "map_of (ys @ [(t, x)]) = p(t \<mapsto> x)"
    using assms(2) unfolding i(4) [symmetric] by (simp add: map_add_upd_left map_of_eq_None_iff domIff)
  have name: "name_ok x" using assms(3) by (simp add: apart_def)
  show ?thesis
    by (rule pr_invI [where ys = "ys @ [(t, x)]", OF i(1) _ _ map]) (use i new cells name in simp_all)
qed

lemma pr_send_inv:
  assumes "pr_inv c s0 (s, p)" and "p t = Some x"
  shows "pr_inv c s0 (pw_send c x s, p(t := None))"
proof -
  obtain ops ys where i: "\<forall>op\<in>set ops. prop_op_ok op" "ps_wal s = ps_wal (fold (ps_exec c) ops s0)"
    "ps_columns s = fold pw_put (map snd ys) (ps_columns (fold (ps_exec c) ops s0))"
    "map_of ys = p" "distinct (map fst ys)" "distinct (map (pw_cell \<circ> snd) ys)" "\<forall>y\<in>snd ` set ys. name_ok y"
    using assms(1) by (rule pr_invE)
  have "(t, x) \<in> set ys" using assms(2) unfolding i(4) [symmetric] by (rule map_of_SomeD)
  then obtain as bs where ys: "ys = as @ (t, x) # bs" by (auto simp: in_set_conv_decomp)
  obtain l n r v where x: "x = (l, n, r, v)" by (cases x)
  let ?op = "PInsert l n r v" and ?S = "fold (ps_exec c) ops s0"
  have exec: "fold (ps_exec c) (ops @ [?op]) s0 = pw_send c x (?S\<lparr>ps_columns := pw_put x (ps_columns ?S)\<rparr>)"
    using pw_insert [of c l n r v ?S, folded x] by simp
  have "pw_cell x \<notin> (pw_cell \<circ> snd) ` set as" using i(6) by (simp add: ys)
  then have "\<forall>y\<in>set (map snd as). pw_cell y \<noteq> pw_cell x" by force
  from fold_put_commute [OF this] have cols: "ps_columns (pw_send c x s) = fold pw_put (map snd (as @ bs)) (ps_columns (fold (ps_exec c) (ops @ [?op]) s0))"
    unfolding exec pw_send_columns i(3) by (simp add: ys)
  have wal: "ps_wal (pw_send c x s) = ps_wal (fold (ps_exec c) (ops @ [?op]) s0)"
    unfolding exec by (rule pw_send_wal) (simp add: i(2))
  have none: "map_of as t = None" "map_of bs t = None" using i(5) by (simp_all add: ys map_of_eq_None_iff)
  have map: "map_of (as @ bs) = p(t := None)"
    unfolding i(4) [symmetric] ys
  proof
    show "map_of (as @ bs) u = ((map_of (as @ (t, x) # bs))(t := None)) u" for u
      using none by (cases "u = t") (simp_all add: map_add_def split: option.split)
  qed
  have "name_ok x" using i(7) by (simp add: ys)
  then have ops: "\<forall>op\<in>set (ops @ [?op]). prop_op_ok op" using i(1) by (simp add: x name_ok_def)
  show ?thesis
    by (rule pr_invI [where ys = "as @ bs", OF ops wal cols map]) (use i(5-7) in \<open>simp_all add: ys\<close>)
qed

lemma pr_wal_inv:
  assumes "pr_inv c s0 (s, p)" and "op = PThread now \<or> op = PFlush now"
  shows "pr_inv c s0 (ps_exec c op s, p)"
proof -
  obtain ops ys where i: "\<forall>op\<in>set ops. prop_op_ok op" "ps_wal s = ps_wal (fold (ps_exec c) ops s0)"
    "ps_columns s = fold pw_put (map snd ys) (ps_columns (fold (ps_exec c) ops s0))"
    "map_of ys = p" "distinct (map fst ys)" "distinct (map (pw_cell \<circ> snd) ys)" "\<forall>y\<in>snd ` set ys. name_ok y"
    using assms(1) by (rule pr_invE)
  let ?S = "fold (ps_exec c) ops s0"
  have s: "ps_columns (ps_exec c op s) = ps_columns s" "ps_wal (ps_exec c op s) = ps_wal (ps_exec c op ?S)" "prop_op_ok op"
    using pr_wal_step [OF assms(2), of c s ?S] i(2) by blast+
  have S: "ps_columns (ps_exec c op ?S) = ps_columns ?S" using pr_wal_step [OF assms(2), of c ?S s] by blast
  have exec: "fold (ps_exec c) (ops @ [op]) s0 = ps_exec c op ?S" by simp
  show ?thesis
    by (rule pr_invI [where ops = "ops @ [op]", OF _ _ _ i(4-7)]) (unfold exec s S i(3), use i(1) s(3) in simp_all)
qed

lemma pr_step_inv: "pr_step c apart a b \<Longrightarrow> pr_inv c s0 a \<Longrightarrow> pr_inv c s0 b"
  by (induction rule: pr_step.induct) (simp_all only: pr_put_inv pr_send_inv pr_wal_inv)

lemma pr_reach_inv: "pr_reach c apart a b \<Longrightarrow> pr_inv c s0 a \<Longrightarrow> pr_inv c s0 b"
  by (induction rule: pr_reach.induct) (auto intro: pr_step_inv)

lemma pr_inv_start: "pr_inv c s0 (s0, Map.empty)"
  unfolding pr_inv_def by (intro exI [of _ "[]"]) simp

text \<open>When no call is under way, the state is one that a sequential run has.\<close>

lemma pr_reach_sequential:
  assumes "pr_reach c apart (s0, Map.empty) (s, Map.empty)"
  shows "\<exists>ops. (\<forall>op\<in>set ops. prop_op_ok op) \<and> ps_wal s = ps_wal (fold (ps_exec c) ops s0) \<and>
    ps_columns s = ps_columns (fold (ps_exec c) ops s0)"
proof -
  have "pr_inv c s0 (s, Map.empty)" by (rule pr_reach_inv [OF assms pr_inv_start])
  then obtain ops ys where "\<forall>op\<in>set ops. prop_op_ok op" "ps_wal s = ps_wal (fold (ps_exec c) ops s0)"
    "ps_columns s = fold pw_put (map snd ys) (ps_columns (fold (ps_exec c) ops s0))" "map_of ys = Map.empty"
    by (auto simp: pr_inv_def)
  moreover from this(4) have "ys = []" by simp
  ultimately show ?thesis by auto
qed

lemma ps_recover_run:
  assumes "val_codec_ok c" and "ps_open c checks now (file_of bs) k = Ok s0"
    and "wal_base bs = fold encode_cmd cs WAL_MAGIC"
    and "vec_capacity_ok (batch_bytes (durability k))" and "durability k \<noteq> Async"
    and "\<forall>op\<in>set ops. prop_op_ok op" and "ps_wal s = ps_wal (fold (ps_exec c) ops s0)" and "ps_wal s = Some w"
    and "\<forall>r\<in>set (wal_recs (cs @ ws_sent w)). wal_fits r" and "ps_rows_ok c (wal_recs (cs @ ws_sent w))"
  shows "\<exists>w' r. ps_wal (ps_flush n s) = Some w' \<and> ps_open c checks now (file_of (durable (ws_file w'))) k = Ok r \<and>
    ps_columns r = ps_columns (fold (ps_exec c) ops s0)"
proof -
  have w: "ps_wal (fold (ps_exec_ok c) ops s0) = Some w" using assms(7,8) by (simp add: ps_exec_ok_fold [OF assms(6)])
  have "ps_wal (ps_flush n s) = Some (wal_flush n w)" by (simp add: ps_flush_def assms(8))
  with psr.recover_after_flush [OF assms(2,3,1,4,5) w assms(9,10), of n] show ?thesis
    unfolding ps_exec_ok_fold [OF assms(6)] by blast
qed

text \<open>Two overlapping calls whose cells are sent in the other order.\<close>

definition pr_crossed :: "val option codec \<Rightarrow> cell_write \<Rightarrow> cell_write \<Rightarrow> prop_store \<Rightarrow> prop_store" where
  "pr_crossed c x y s = pw_send c x (pw_send c y (s\<lparr>ps_columns := pw_put y (pw_put x (ps_columns s))\<rparr>))"

lemma pr_crossed_reach:
  assumes "ok x Map.empty" and "ok y [0 \<mapsto> x]"
  shows "pr_reach c ok (s, Map.empty) (pr_crossed c x y s, Map.empty)"
proof -
  let ?s1 = "s\<lparr>ps_columns := pw_put x (ps_columns s)\<rparr>"
  let ?s2 = "?s1\<lparr>ps_columns := pw_put y (ps_columns ?s1)\<rparr>"
  have "pr_step c ok (s, Map.empty) (?s1, [0 \<mapsto> x])" by (rule pr_step.put) (simp_all add: assms)
  moreover have "pr_step c ok (?s1, [0 \<mapsto> x]) (?s2, [0 \<mapsto> x, 1 \<mapsto> y])" by (rule pr_step.put) (simp_all add: assms)
  moreover have "pr_step c ok (?s2, [0 \<mapsto> x, 1 \<mapsto> y]) (pw_send c y ?s2, [0 \<mapsto> x])"
    using pr_step.send [of "[0 \<mapsto> x, 1 \<mapsto> y]" 1 y c ok ?s2] by (simp add: fun_upd_idem)
  moreover have "pr_step c ok (pw_send c y ?s2, [0 \<mapsto> x]) (pw_send c x (pw_send c y ?s2), Map.empty)"
    using pr_step.send [of "[0 \<mapsto> x]" 0 x c ok "pw_send c y ?s2"] by simp
  ultimately have "pr_reach c ok (s, Map.empty) (pw_send c x (pw_send c y ?s2), Map.empty)" by (meson pr_reach.intros)
  then show ?thesis by (simp add: pr_crossed_def)
qed

lemma pr_crossed_wal:
  "ps_wal (pr_crossed c (l, n, r, v) (l', n', r', v') s) = ps_wal (fold (ps_exec c) [PInsert l' n' r' v', PInsert l n r v] s)"
  by (simp add: pw_insert pr_crossed_def del: ps_exec.simps) (rule pw_send_wal, simp, rule pw_send_wal, simp)

section \<open>Example\<close>

definition pr_example_ops :: "prop_op list" where
  "pr_example_ops = [PInsert 1 [0x61] 0 (Some (VInt 2)), PInsert 1 [0x61] 1 (Some (VInt 1))]"

definition pr_example_wal :: wal_sys where
  "pr_example_wal = (case ps_wal (fold (ps_exec val_example_codec) pr_example_ops prop_example) of Some w \<Rightarrow> w | None \<Rightarrow> wal_example)"

lemma pr_example_run_1: "ps_wal (fold (ps_exec val_example_codec) pr_example_ops prop_example) = Some pr_example_wal"
  by code_simp

lemma pr_example_run_2: "\<forall>r\<in>set (wal_recs ([] @ ws_sent pr_example_wal)). wal_fits r"
  by code_simp

lemma pr_example_run_3: "ps_rows_ok val_example_codec (wal_recs ([] @ ws_sent pr_example_wal))"
  by code_simp

definition pr_race_wal :: wal_sys where
  "pr_race_wal = (case ps_wal (fold (ps_exec val_example_codec)
     [PInsert 1 [0x61] 0 (Some (VInt 2)), PInsert 1 [0x61] 0 (Some (VInt 1))] prop_example) of Some w \<Rightarrow> w | None \<Rightarrow> wal_example)"

lemma pr_race_run_1: "ps_wal (ps_exec val_example_codec (PInsert 1 [0x61] 0 (Some (VInt 1)))
    (ps_exec val_example_codec (PInsert 1 [0x61] 0 (Some (VInt 2))) prop_example)) = Some pr_race_wal"
  by code_simp

lemma pr_race_run_2: "\<forall>r\<in>set (wal_recs ([] @ ws_sent pr_race_wal)). wal_fits r"
  by code_simp

lemma pr_race_run_3: "ps_rows_ok val_example_codec (wal_recs ([] @ ws_sent pr_race_wal))"
  by code_simp

lemma pr_name_ok: "prop_name_ok [0x61]"
  by (simp add: prop_name_ok_def utf8_valid_ascii)

section \<open>Properties\<close>

text \<open>
  C18. Writers of different cells may overlap in any way: from a freshly opened property store, let any
  number of threads call \<open>insert_prop\<close>, their memory and log halves interleaved with each other, with the WAL
  thread and with flushes, no two of them on one cell at the same time. When none is under way, the columns
  and the log are those of some sequential run of the store, and a flush makes a file from which opening rebuilds
  the columns in memory exactly. Assumed: property names are valid strings shorter than 256 bytes, no row is \<open>u32::MAX\<close>,
  values deserialise to what was serialised, no payload reaches \<open>2 ^ 32 - 9\<close> bytes, and the durability level is one that
  syncs and whose buffer can be allocated.
\<close>

theorem prop_interleaved_recovery:
  assumes "val_codec_ok c" and "ps_open c checks now (file_of bs) k = Ok s0"
    and "wal_base bs = fold encode_cmd cs WAL_MAGIC"
    and "vec_capacity_ok (batch_bytes (durability k))" and "durability k \<noteq> Async"
    and "pr_reach c apart (s0, Map.empty) (s, Map.empty)" and "ps_wal s = Some w"
    and "\<forall>r\<in>set (wal_recs (cs @ ws_sent w)). wal_fits r" and "ps_rows_ok c (wal_recs (cs @ ws_sent w))"
  shows "(\<exists>ops. ps_wal s = ps_wal (fold (ps_exec c) ops s0) \<and> ps_columns s = ps_columns (fold (ps_exec c) ops s0)) \<and>
    (\<exists>w' r. ps_wal (ps_flush n s) = Some w' \<and>
      ps_open c checks now (file_of (durable (ws_file w'))) k = Ok r \<and> ps_columns r = ps_columns s)"
proof -
  obtain ops where ops: "\<forall>op\<in>set ops. prop_op_ok op" "ps_wal s = ps_wal (fold (ps_exec c) ops s0)"
    "ps_columns s = ps_columns (fold (ps_exec c) ops s0)" using pr_reach_sequential [OF assms(6)] by blast
  with ps_recover_run [OF assms(1-5) ops(1,2) assms(7-9), of n] show ?thesis by auto
qed

theorem prop_interleaved_recovery_witness:
  "\<exists>w' r. ps_wal (ps_flush 0 (pr_crossed val_example_codec (1, [0x61], 1, Some (VInt 1)) (1, [0x61], 0, Some (VInt 2)) prop_example)) = Some w' \<and>
    ps_open val_example_codec False 0 (file_of (durable (ws_file w'))) consistency_immediate = Ok r \<and>
    ps_columns r = ps_columns (pr_crossed val_example_codec (1, [0x61], 1, Some (VInt 1)) (1, [0x61], 0, Some (VInt 2)) prop_example)"
proof -
  let ?x = "(1, [0x61], 1, Some (VInt 1)) :: cell_write" and ?y = "(1, [0x61], 0, Some (VInt 2)) :: cell_write"
  have "apart ?x Map.empty" "apart ?y [0 \<mapsto> ?x]" using pr_name_ok by (auto simp: apart_def name_ok_def pw_cell_def)
  then have reach: "pr_reach val_example_codec apart (prop_example, Map.empty)
      (pr_crossed val_example_codec ?x ?y prop_example, Map.empty)" by (rule pr_crossed_reach)
  have wal: "ps_wal (pr_crossed val_example_codec ?x ?y prop_example) = Some pr_example_wal"
    using pr_example_run_1 unfolding pr_crossed_wal pr_example_ops_def .
  show ?thesis
    by (rule prop_interleaved_recovery [OF val_example_codec_ok prop_example_open prop_example_run(6,4,5) reach wal
          pr_example_run_2 pr_example_run_3, THEN conjunct2])
qed

text \<open>
  C39. Writers of one cell must not overlap: on a freshly opened store, for every cell and any two values, there
  is an interleaving of two \<open>insert_prop\<close> calls that write memory in one order and the log in the other. After
  it readers find the second value in the cell, and after a flush and a restart the first. The name is a valid
  string shorter than 256 bytes, the row is not \<open>u32::MAX\<close>, and the log level is one that syncs.
\<close>

theorem prop_log_order_race:
  assumes "val_codec_ok c" and "ps_open c checks now (file_of bs) k = Ok s0"
    and "wal_base bs = fold encode_cmd cs WAL_MAGIC"
    and "vec_capacity_ok (batch_bytes (durability k))" and "durability k \<noteq> Async" and "prop_name_ok p"
    and "ps_wal (ps_exec c (PInsert l p r va) (ps_exec c (PInsert l p r vb) s0)) = Some w"
    and "\<forall>x\<in>set (wal_recs (cs @ ws_sent w)). wal_fits x" and "ps_rows_ok c (wal_recs (cs @ ws_sent w))"
  shows "\<exists>s w' s'. pr_reach c (\<lambda>_ _. True) (s0, Map.empty) (s, Map.empty) \<and> ps_get_prop l p r s = vb \<and>
    ps_wal (ps_flush n s) = Some w' \<and> ps_open c checks now (file_of (durable (ws_file w'))) k = Ok s' \<and>
    ps_get_prop l p r s' = va"
proof -
  let ?x = "(l, p, r, va)" and ?y = "(l, p, r, vb)" and ?ops = "[PInsert l p r vb, PInsert l p r va]"
  let ?s = "pr_crossed c ?x ?y s0"
  have wal: "ps_wal ?s = ps_wal (fold (ps_exec c) ?ops s0)" by (rule pr_crossed_wal)
  have "ps_get_prop l p r ?s = ps_get_prop l p r (ps_exec c (PInsert l p r vb) (s0\<lparr>ps_columns := pw_put ?x (ps_columns s0)\<rparr>))"
    by (simp add: ps_get_prop_def pw_insert pr_crossed_def del: ps_exec.simps)
  then have "ps_get_prop l p r ?s = vb" by (simp add: ps_get_put)
  moreover have "ps_wal ?s = Some w" using wal assms(7) by simp
  moreover have "\<forall>op\<in>set ?ops. prop_op_ok op" using assms(6) by simp
  ultimately obtain w' s' where "ps_wal (ps_flush n ?s) = Some w'"
    "ps_open c checks now (file_of (durable (ws_file w'))) k = Ok s'" "ps_columns s' = ps_columns (fold (ps_exec c) ?ops s0)"
    using ps_recover_run [OF assms(1-5) _ wal _ assms(8,9), of n] by blast
  moreover from this(3) have "ps_get_prop l p r s' = ps_get_prop l p r (ps_exec c (PInsert l p r va) (ps_exec c (PInsert l p r vb) s0))"
    by (simp add: ps_get_prop_def)
  then have "ps_get_prop l p r s' = va" by (simp add: ps_get_put)
  moreover have "pr_reach c (\<lambda>_ _. True) (s0, Map.empty) (?s, Map.empty)" by (rule pr_crossed_reach) simp_all
  ultimately show ?thesis using \<open>ps_get_prop l p r ?s = vb\<close> by blast
qed

theorem prop_log_order_race_witness:
  "\<exists>s w' s'. pr_reach val_example_codec (\<lambda>_ _. True) (prop_example, Map.empty) (s, Map.empty) \<and>
    ps_get_prop 1 [0x61] 0 s = Some (VInt 2) \<and> ps_wal (ps_flush 0 s) = Some w' \<and>
    ps_open val_example_codec False 0 (file_of (durable (ws_file w'))) consistency_immediate = Ok s' \<and>
    ps_get_prop 1 [0x61] 0 s' = Some (VInt 1)"
  by (rule prop_log_order_race [OF val_example_codec_ok prop_example_open prop_example_run(6,4,5) pr_name_ok
        pr_race_run_1 pr_race_run_2 pr_race_run_3])

end
