(* ===== verification/Node_Store.thy ===== *)
theory Node_Store
  imports Storage_Types Logged_Store
begin

text \<open>
  \<^verbatim>\<open>src/src/storage/node_store.rs\<close>: the node map, the identifiers, the logged operations, the
  snapshot scans and compaction, and opening a directory. \<open>c\<close> is the serialiser of nodes.
  The \<open>DashMap\<close> is a map; a scan over it visits the entries in an order the library does not
  fix, which is an argument of the definitions that scan.
\<close>

section \<open>State\<close>

record node_store =
  ns_nodes :: "NodeId \<rightharpoonup> node"
  ns_next_id :: u64
  ns_free_list :: "NodeId list"
  ns_free_count :: u64
  ns_total_ever :: u64
  ns_wal :: "wal_sys option"

definition ns_new :: node_store where
  "ns_new = \<lparr>ns_nodes = Map.empty, ns_next_id = 0, ns_free_list = [], ns_free_count = 0,
     ns_total_ever = 0, ns_wal = None\<rparr>"

text \<open>The capacity only sizes the hash table.\<close>

definition ns_with_capacity :: "u64 \<Rightarrow> node_store" where
  "ns_with_capacity cap = \<lparr>ns_nodes = Map.empty, ns_next_id = 0, ns_free_list = [],
     ns_free_count = 0, ns_total_ever = 0, ns_wal = None\<rparr>"

section \<open>Opening\<close>

text \<open>The callback of \<open>open\<close> on one record, with the running maximum of inserted identifiers.\<close>

definition ns_replay_record :: "node codec \<Rightarrow> wal_rec \<Rightarrow> u64 \<times> node_store \<Rightarrow> u64 \<times> node_store" where
  "ns_replay_record c r st =
     (case (r, st) of ((opcode, i, payload), (max_id, s)) \<Rightarrow>
       if opcode = 1 then
         (case de c payload of
           Some n \<Rightarrow> (max max_id i, s\<lparr>ns_total_ever := ns_total_ever s + 1, ns_nodes := (ns_nodes s)(i \<mapsto> n)\<rparr>)
         | None \<Rightarrow> (max_id, s))
       else if opcode = 2 then
         (case ns_nodes s i of
           Some _ \<Rightarrow> (max_id, s\<lparr>ns_nodes := (ns_nodes s)(i := None), ns_free_list := ns_free_list s @ [i],
                       ns_free_count := ns_free_count s + 1\<rparr>)
         | None \<Rightarrow> (max_id, s))
       else (max_id, s))"

text \<open>
  \<open>open\<close> on a directory whose \<^verbatim>\<open>nodes.wal\<close> is \<open>f\<close> (no bytes: missing or empty). \<open>max_id + 1\<close>
  panics on overflow in a build with overflow checks and wraps in one without.
\<close>

definition ns_open :: "node codec \<Rightarrow> bool \<Rightarrow> nat \<Rightarrow> ofile \<Rightarrow> Consistency \<Rightarrow> node_store outcome" where
  "ns_open c checks now f consistency =
     (let replayed =
        (if length (f_data f) > 4 then
           (case replay_wal (f_data f) of (rs, err) \<Rightarrow>
             let (max_id, s) = fold (ns_replay_record c) rs (0, ns_new) in
             (case err of
               Some e \<Rightarrow> Err e
             | None \<Rightarrow> if checks \<and> max_id = - 1 then Panicked else Ok (s\<lparr>ns_next_id := max_id + 1\<rparr>)))
         else Ok ns_new)
      in case replayed of
        Err e \<Rightarrow> Err e
      | Panicked \<Rightarrow> Panicked
      | Ok s \<Rightarrow>
          (case wal_spawn checks now f (durability consistency) (wal_channel_capacity consistency) of
            Err e \<Rightarrow> Err e
          | Panicked \<Rightarrow> Panicked
          | Ok w \<Rightarrow> Ok (s\<lparr>ns_wal := Some w\<rparr>)))"

section \<open>Operations\<close>

definition ns_wal_insert :: "node codec \<Rightarrow> NodeId \<Rightarrow> node \<Rightarrow> node_store \<Rightarrow> node_store" where
  "ns_wal_insert c i n s =
     (case ns_wal s of
       None \<Rightarrow> s
     | Some w \<Rightarrow>
         (case ser c n of
           None \<Rightarrow> s
         | Some data \<Rightarrow> s\<lparr>ns_wal := Some (wal_send_insert i data w)\<rparr>))"

definition ns_wal_delete :: "NodeId \<Rightarrow> node_store \<Rightarrow> node_store" where
  "ns_wal_delete i s =
     (case ns_wal s of None \<Rightarrow> s | Some w \<Rightarrow> s\<lparr>ns_wal := Some (wal_send_delete i w)\<rparr>)"

definition ns_alloc_id :: "node_store \<Rightarrow> NodeId \<times> node_store" where
  "ns_alloc_id s =
     (case ns_free_list s of
       i # rest \<Rightarrow> (i, s\<lparr>ns_free_list := rest, ns_free_count := ns_free_count s - 1\<rparr>)
     | [] \<Rightarrow> (ns_next_id s, s\<lparr>ns_next_id := ns_next_id s + 1\<rparr>))"

definition ns_alloc_id_direct :: "node_store \<Rightarrow> NodeId \<times> node_store" where
  "ns_alloc_id_direct s = ns_alloc_id s"

definition ns_insert_with_id ::
  "node codec \<Rightarrow> NodeId \<Rightarrow> LabelId list \<Rightarrow> u32 \<Rightarrow> TxId \<Rightarrow> node_store \<Rightarrow> node_store" where
  "ns_insert_with_id c i labels props_row tx_id s =
     (let n = node_new i labels props_row tx_id;
          s1 = s\<lparr>ns_nodes := (ns_nodes s)(i \<mapsto> n)\<rparr>;
          s2 = s1\<lparr>ns_total_ever := ns_total_ever s1 + 1\<rparr>
      in ns_wal_insert c i n s2)"

definition ns_insert_node ::
  "node codec \<Rightarrow> LabelId list \<Rightarrow> u32 \<Rightarrow> TxId \<Rightarrow> node_store \<Rightarrow> NodeId \<times> node_store" where
  "ns_insert_node c labels props_row tx_id s =
     (let (i, s1) = ns_alloc_id s;
          n = node_new i labels props_row tx_id;
          s2 = s1\<lparr>ns_nodes := (ns_nodes s1)(i \<mapsto> n)\<rparr>;
          s3 = s2\<lparr>ns_total_ever := ns_total_ever s2 + 1\<rparr>
      in (i, ns_wal_insert c i n s3))"

definition ns_get :: "NodeId \<Rightarrow> node_store \<Rightarrow> node option" where
  "ns_get i s = ns_nodes s i"

text \<open>\<open>get_mut\<close> hands out a reference; \<open>f\<close> is what the caller writes through it.\<close>

definition ns_get_mut :: "NodeId \<Rightarrow> (node \<Rightarrow> node) \<Rightarrow> node_store \<Rightarrow> bool \<times> node_store" where
  "ns_get_mut i f s =
     (case ns_nodes s i of
       None \<Rightarrow> (False, s)
     | Some n \<Rightarrow> (True, s\<lparr>ns_nodes := (ns_nodes s)(i \<mapsto> f n)\<rparr>))"

definition ns_update_labels ::
  "node codec \<Rightarrow> NodeId \<Rightarrow> LabelId list \<Rightarrow> TxId \<Rightarrow> node_store \<Rightarrow> bool \<times> node_store" where
  "ns_update_labels c i labels tx_id s =
     (case ns_nodes s i of
       Some n \<Rightarrow>
         let n' = n\<lparr>n_labels := labels, n_created_tx := tx_id\<rparr>;
             s1 = s\<lparr>ns_nodes := (ns_nodes s)(i \<mapsto> n')\<rparr>
         in (True,
             case ns_wal s1 of
               None \<Rightarrow> s1
             | Some w \<Rightarrow>
                 (case ser c n' of None \<Rightarrow> s1 | Some data \<Rightarrow> s1\<lparr>ns_wal := Some (wal_send_insert i data w)\<rparr>))
     | None \<Rightarrow> (False, s))"

definition ns_update_props_row :: "node codec \<Rightarrow> NodeId \<Rightarrow> u32 \<Rightarrow> node_store \<Rightarrow> bool \<times> node_store" where
  "ns_update_props_row c i props_row s =
     (case ns_nodes s i of
       Some n \<Rightarrow>
         let n' = n\<lparr>n_props_row := props_row\<rparr>
         in (True, ns_wal_insert c i n' (s\<lparr>ns_nodes := (ns_nodes s)(i \<mapsto> n')\<rparr>))
     | None \<Rightarrow> (False, s))"

definition ns_set_first_out :: "node codec \<Rightarrow> NodeId \<Rightarrow> EdgeId \<Rightarrow> node_store \<Rightarrow> bool \<times> node_store" where
  "ns_set_first_out c i edge_id s =
     (case ns_nodes s i of
       Some n \<Rightarrow>
         let n' = n\<lparr>n_first_out := edge_id\<rparr>
         in (True, ns_wal_insert c i n' (s\<lparr>ns_nodes := (ns_nodes s)(i \<mapsto> n')\<rparr>))
     | None \<Rightarrow> (False, s))"

definition ns_set_first_in :: "node codec \<Rightarrow> NodeId \<Rightarrow> EdgeId \<Rightarrow> node_store \<Rightarrow> bool \<times> node_store" where
  "ns_set_first_in c i edge_id s =
     (case ns_nodes s i of
       Some n \<Rightarrow>
         let n' = n\<lparr>n_first_in := edge_id\<rparr>
         in (True, ns_wal_insert c i n' (s\<lparr>ns_nodes := (ns_nodes s)(i \<mapsto> n')\<rparr>))
     | None \<Rightarrow> (False, s))"

definition ns_soft_delete :: "node codec \<Rightarrow> NodeId \<Rightarrow> TxId \<Rightarrow> node_store \<Rightarrow> bool \<times> node_store" where
  "ns_soft_delete c i tx_id s =
     (case ns_nodes s i of
       Some n \<Rightarrow>
         let n' = n\<lparr>n_deleted_tx := tx_id\<rparr>
         in (True, ns_wal_insert c i n' (s\<lparr>ns_nodes := (ns_nodes s)(i \<mapsto> n')\<rparr>))
     | None \<Rightarrow> (False, s))"

definition ns_hard_delete :: "NodeId \<Rightarrow> node_store \<Rightarrow> bool \<times> node_store" where
  "ns_hard_delete i s =
     (let s1 = ns_wal_delete i s in
      case ns_nodes s1 i of
        Some _ \<Rightarrow>
          (True, s1\<lparr>ns_nodes := (ns_nodes s1)(i := None), ns_free_list := ns_free_list s1 @ [i],
             ns_free_count := ns_free_count s1 + 1\<rparr>)
      | None \<Rightarrow> (False, s1))"

text \<open>Scans: \<open>order\<close> lists the keys as the iterator yields them.\<close>

definition ns_iter_order :: "NodeId list \<Rightarrow> node_store \<Rightarrow> bool" where
  "ns_iter_order order s \<longleftrightarrow> distinct order \<and> set order = dom (ns_nodes s)"

definition ns_visible_nodes :: "NodeId list \<Rightarrow> TxId \<Rightarrow> node_store \<Rightarrow> NodeId list" where
  "ns_visible_nodes order tx s =
     filter (\<lambda>i. case ns_nodes s i of Some n \<Rightarrow> node_is_alive n tx | None \<Rightarrow> False) order"

definition ns_visible_count :: "NodeId list \<Rightarrow> TxId \<Rightarrow> node_store \<Rightarrow> nat" where
  "ns_visible_count order tx s =
     length (filter (\<lambda>i. case ns_nodes s i of Some n \<Rightarrow> node_is_alive n tx | None \<Rightarrow> False) order)"

definition ns_len :: "node_store \<Rightarrow> nat" where
  "ns_len s = card (dom (ns_nodes s))"

definition ns_pending_wal_bytes :: "node_store \<Rightarrow> u64" where
  "ns_pending_wal_bytes s = (case ns_wal s of Some w \<Rightarrow> wal_pending_bytes w | None \<Rightarrow> 0)"

definition ns_compact :: "NodeId list \<Rightarrow> TxId \<Rightarrow> node_store \<Rightarrow> nat \<times> node_store" where
  "ns_compact order oldest_active_tx s =
     (let to_remove = filter (\<lambda>i. case ns_nodes s i of
             Some n \<Rightarrow> n_deleted_tx n < oldest_active_tx | None \<Rightarrow> False) order
      in (length to_remove, fold (\<lambda>i t. snd (ns_hard_delete i t)) to_remove s))"

definition ns_contains :: "NodeId \<Rightarrow> node_store \<Rightarrow> bool" where
  "ns_contains i s \<longleftrightarrow> ns_nodes s i \<noteq> None"

definition ns_flush :: "nat \<Rightarrow> node_store \<Rightarrow> node_store" where
  "ns_flush now s = (case ns_wal s of None \<Rightarrow> s | Some w \<Rightarrow> s\<lparr>ns_wal := Some (wal_flush now w)\<rparr>)"

section \<open>Runs\<close>

text \<open>The calls of a client, and the WAL thread's iterations between them.\<close>

datatype node_op =
    NAlloc
  | NInsertWithId NodeId "LabelId list" u32 TxId
  | NInsert "LabelId list" u32 TxId
  | NUpdateLabels NodeId "LabelId list" TxId
  | NUpdatePropsRow NodeId u32
  | NSetFirstOut NodeId EdgeId
  | NSetFirstIn NodeId EdgeId
  | NSoftDelete NodeId TxId
  | NHardDelete NodeId
  | NCompact "NodeId list" TxId
  | NFlush nat
  | NThread nat

primrec ns_exec :: "node codec \<Rightarrow> node_op \<Rightarrow> node_store \<Rightarrow> node_store" where
  "ns_exec c NAlloc s = snd (ns_alloc_id_direct s)"
| "ns_exec c (NInsertWithId i labels row tx) s = ns_insert_with_id c i labels row tx s"
| "ns_exec c (NInsert labels row tx) s = snd (ns_insert_node c labels row tx s)"
| "ns_exec c (NUpdateLabels i labels tx) s = snd (ns_update_labels c i labels tx s)"
| "ns_exec c (NUpdatePropsRow i row) s = snd (ns_update_props_row c i row s)"
| "ns_exec c (NSetFirstOut i e) s = snd (ns_set_first_out c i e s)"
| "ns_exec c (NSetFirstIn i e) s = snd (ns_set_first_in c i e s)"
| "ns_exec c (NSoftDelete i tx) s = snd (ns_soft_delete c i tx s)"
| "ns_exec c (NHardDelete i) s = snd (ns_hard_delete i s)"
| "ns_exec c (NCompact order tx) s = snd (ns_compact order tx s)"
| "ns_exec c (NFlush now) s = ns_flush now s"
| "ns_exec c (NThread now) s = s\<lparr>ns_wal := map_option (wal_loop_iter now) (ns_wal s)\<rparr>"

text \<open>The calls, and writes through the references of \<open>get_mut\<close>.\<close>

definition ns_use :: "node codec \<Rightarrow> (node_op, NodeId, node) store_use \<Rightarrow> node_store \<Rightarrow> node_store" where
  "ns_use c = use_exec (ns_exec c) (\<lambda>i f s. snd (ns_get_mut i f s))"

section \<open>Lemmas: logging\<close>

lemma ns_wal_insert_simps [simp]:
  "ns_nodes (ns_wal_insert c i n s) = ns_nodes s" "ns_free_list (ns_wal_insert c i n s) = ns_free_list s"
  "ns_next_id (ns_wal_insert c i n s) = ns_next_id s" "ns_free_count (ns_wal_insert c i n s) = ns_free_count s"
  "ns_total_ever (ns_wal_insert c i n s) = ns_total_ever s"
  by (simp_all add: ns_wal_insert_def split: option.split)

lemma ns_wal_delete_simps [simp]:
  "ns_nodes (ns_wal_delete i s) = ns_nodes s" "ns_free_list (ns_wal_delete i s) = ns_free_list s"
  "ns_next_id (ns_wal_delete i s) = ns_next_id s" "ns_free_count (ns_wal_delete i s) = ns_free_count s"
  "ns_total_ever (ns_wal_delete i s) = ns_total_ever s"
  by (simp_all add: ns_wal_delete_def split: option.split)

abbreviation ns_synced :: "node codec \<Rightarrow> node_store \<Rightarrow> node_store \<Rightarrow> bool" where
  "ns_synced c \<equiv> synced ns_nodes ns_wal (kv_apply c)"

text \<open>Every update of a stored node changes it in place and logs the new version.\<close>

definition ns_modify :: "node codec \<Rightarrow> NodeId \<Rightarrow> (node \<Rightarrow> node) \<Rightarrow> node_store \<Rightarrow> bool \<times> node_store" where
  "ns_modify c i f s =
     (case ns_nodes s i of
       Some n \<Rightarrow> (True, ns_wal_insert c i (f n) (s\<lparr>ns_nodes := (ns_nodes s)(i \<mapsto> f n)\<rparr>))
     | None \<Rightarrow> (False, s))"

lemma ns_modify_ops:
  "ns_update_labels c i labels tx s = ns_modify c i (\<lambda>n. n\<lparr>n_labels := labels, n_created_tx := tx\<rparr>) s"
  "ns_update_props_row c i row s = ns_modify c i (\<lambda>n. n\<lparr>n_props_row := row\<rparr>) s"
  "ns_set_first_out c i e s = ns_modify c i (\<lambda>n. n\<lparr>n_first_out := e\<rparr>) s"
  "ns_set_first_in c i e s = ns_modify c i (\<lambda>n. n\<lparr>n_first_in := e\<rparr>) s"
  "ns_soft_delete c i tx s = ns_modify c i (node_mark_deleted tx) s"
  by (auto simp: ns_modify_def ns_update_labels_def ns_update_props_row_def ns_set_first_out_def
      ns_set_first_in_def ns_soft_delete_def ns_wal_insert_def node_mark_deleted_def Let_def
      split: option.split)

lemma ns_modify_nodes:
  "ns_nodes (snd (ns_modify c i f s)) = (ns_nodes s)(i := map_option f (ns_nodes s i))"
  by (auto simp: ns_modify_def fun_upd_idem split: option.split)

lemma ns_modify_frame [simp]:
  "ns_free_list (snd (ns_modify c i f s)) = ns_free_list s" "ns_next_id (snd (ns_modify c i f s)) = ns_next_id s"
  "ns_free_count (snd (ns_modify c i f s)) = ns_free_count s"
  "dom (ns_nodes (snd (ns_modify c i f s))) = dom (ns_nodes s)"
  by (auto simp: ns_modify_def split: option.split)

lemma ns_modify_synced: "codec_ok c \<Longrightarrow> ns_synced c s (snd (ns_modify c i f s))"
  by (auto simp: ns_modify_def ns_wal_insert_def synced_refl split: option.split
      intro!: kv_synced_put)

lemma ns_hard_delete_synced: "ns_synced c s (snd (ns_hard_delete i s))"
  by (rule kv_synced_del) (auto simp: ns_hard_delete_def ns_wal_delete_def Let_def split: option.split)

lemma ns_insert_with_id_synced: "codec_ok c \<Longrightarrow> ns_synced c s (ns_insert_with_id c i labels row tx s)"
  by (rule kv_synced_put [where i = i and v = "node_new i labels row tx"])
    (simp_all add: ns_insert_with_id_def Let_def, simp add: ns_wal_insert_def)

lemma ns_alloc_id_frame [simp]:
  "ns_nodes (snd (ns_alloc_id s)) = ns_nodes s" "ns_wal (snd (ns_alloc_id s)) = ns_wal s"
  "ns_total_ever (snd (ns_alloc_id s)) = ns_total_ever s"
  by (simp_all add: ns_alloc_id_def split: list.split)

lemma ns_insert_node_eq:
  "ns_insert_node c labels row tx s =
     (fst (ns_alloc_id s), ns_insert_with_id c (fst (ns_alloc_id s)) labels row tx (snd (ns_alloc_id s)))"
  by (simp add: ns_insert_node_def ns_insert_with_id_def Let_def split_beta)

lemma ns_exec_synced:
  assumes "codec_ok c"
  shows "ns_synced c s (ns_exec c op s)"
proof (cases op)
  case NAlloc
  then show ?thesis
    by (auto simp: ns_alloc_id_direct_def ns_alloc_id_def intro!: synced_refl split: list.split)
next
  case (NInsert labels row tx)
  have "ns_synced c s (snd (ns_alloc_id s))" by (rule synced_refl) simp_all
  then show ?thesis
    using ns_insert_with_id_synced [OF assms] by (simp add: NInsert ns_insert_node_eq) (rule synced_trans)
next
  case (NCompact order tx)
  then show ?thesis
    by (simp add: ns_compact_def Let_def synced_fold ns_hard_delete_synced)
next
  case (NFlush now)
  then show ?thesis
    by (auto intro!: synced_flush simp: ns_flush_def split: option.split)
next
  case (NThread now)
  then show ?thesis by (auto intro!: synced_thread)
qed (simp_all add: assms ns_insert_with_id_synced ns_hard_delete_synced ns_modify_ops ns_modify_synced)

section \<open>Lemmas: opening\<close>

lemma ns_replay_nodes:
  "ns_nodes (snd (fold (ns_replay_record c) rs (m, s))) = fold (kv_apply c) rs (ns_nodes s)"
proof (induction rs arbitrary: m s)
  case Nil
  then show ?case by simp
next
  case (Cons r rs)
  have "ns_nodes (snd (ns_replay_record c r (m, s))) = kv_apply c r (ns_nodes s)"
    by (auto simp: ns_replay_record_def kv_apply_def fun_upd_idem split: prod.split option.split)
  with Cons [of "fst (ns_replay_record c r (m, s))" "snd (ns_replay_record c r (m, s))"]
  show ?case by simp
qed

lemma ns_replay_max:
  "no_max_id rs \<Longrightarrow> m \<noteq> - 1 \<Longrightarrow> fst (fold (ns_replay_record c) rs (m, s)) \<noteq> - 1"
proof (induction rs arbitrary: m s)
  case Nil
  then show ?case by simp
next
  case (Cons r rs)
  have "fst (ns_replay_record c r (m, s)) \<noteq> - 1"
    using Cons.prems
    by (auto simp: ns_replay_record_def no_max_id_def max_def split: prod.split option.split)
  with Cons.IH [of "fst (ns_replay_record c r (m, s))" "snd (ns_replay_record c r (m, s))"] Cons.prems(1)
  show ?case by (simp add: no_max_id_def)
qed

lemma ns_open_Ok:
  assumes "ns_open c checks now f k = Ok s"
  shows "\<exists>w. wal_spawn checks now f (durability k) (wal_channel_capacity k) = Ok w \<and> ns_wal s = Some w \<and>
    (if 4 < length (f_data f) then snd (replay_wal (f_data f)) = None \<and>
       ns_nodes s = fold (kv_apply c) (fst (replay_wal (f_data f))) Map.empty
     else ns_nodes s = Map.empty)"
  using assms ns_replay_nodes [of c "fst (replay_wal (f_data f))" 0 ns_new]
  by (auto simp: ns_open_def Let_def split_beta ns_new_def
      split: if_splits outcome.splits option.splits)

lemma ns_open_total:
  assumes "wal_spawn checks now f (durability k) (wal_channel_capacity k) = Ok w"
    and "4 < length (f_data f) \<Longrightarrow> snd (replay_wal (f_data f)) = None \<and> no_max_id (fst (replay_wal (f_data f)))"
  shows "\<exists>s. ns_open c checks now f k = Ok s"
  using assms ns_replay_max [of "fst (replay_wal (f_data f))" 0 c ns_new]
  by (auto simp: ns_open_def Let_def split_beta)

interpretation nsr: keyed_store ns_nodes ns_wal "kv_apply c" Map.empty "ns_exec c"
  "\<lambda>bs. ns_open c checks now (file_of bs) k" checks now "durability k" "wal_channel_capacity k"
  "codec_ok c" no_max_id "\<lambda>i f s. snd (ns_get_mut i f s)"
proof
  show "codec_ok c \<Longrightarrow> ns_synced c s (ns_exec c op s)" for s op
    by (rule ns_exec_synced)
  then show "codec_ok c \<Longrightarrow> logged ns_nodes ns_wal (kv_apply c) s (ns_exec c op s)" for s op
    by (rule synced_logged)
  show "ns_wal (snd (ns_get_mut i f s)) = ns_wal s" "j \<noteq> i \<Longrightarrow> ns_nodes (snd (ns_get_mut i f s)) j = ns_nodes s j" for i j f s
    by (simp_all add: ns_get_mut_def split: option.split)
qed (use ns_open_Ok [where f = "file_of bs" for bs] ns_open_total [where f = "file_of bs" for bs] in fastforce)+

section \<open>Lemmas: identifiers\<close>

interpretation nsa: id_allocator "\<lambda>s. dom (ns_nodes s)" ns_free_list ns_next_id ns_alloc_id
  by standard (simp_all add: ns_alloc_id_def split: list.split)

text \<open>
  The states a client can bring about that inserts only under identifiers it was handed out and
  has not used yet (as transactions do): \<open>reserved\<close> are those.
\<close>

inductive ns_reach :: "node codec \<Rightarrow> node_store \<Rightarrow> NodeId set \<Rightarrow> node_store \<Rightarrow> bool" for c s0 where
  start: "ns_reach c s0 {} s0"
| alloc: "ns_reach c s0 reserved s \<Longrightarrow> ns_next_id s \<noteq> - 1 \<Longrightarrow>
    ns_reach c s0 (insert (fst (ns_alloc_id_direct s)) reserved) (snd (ns_alloc_id_direct s))"
| fill: "ns_reach c s0 reserved s \<Longrightarrow> i \<in> reserved \<Longrightarrow>
    ns_reach c s0 (reserved - {i}) (ns_insert_with_id c i labels row tx s)"
| insert: "ns_reach c s0 reserved s \<Longrightarrow> ns_next_id s \<noteq> - 1 \<Longrightarrow>
    ns_reach c s0 reserved (snd (ns_insert_node c labels row tx s))"
| other: "ns_reach c s0 reserved s \<Longrightarrow>
    (case op of NAlloc \<Rightarrow> False | NInsertWithId _ _ _ _ \<Rightarrow> False | NInsert _ _ _ \<Rightarrow> False | _ \<Rightarrow> True) \<Longrightarrow>
    ns_reach c s0 reserved (ns_exec c op s)"

definition ns_ids_inv :: "NodeId set \<Rightarrow> node_store \<Rightarrow> bool" where
  "ns_ids_inv reserved s \<longleftrightarrow>
     ids_ok reserved (dom (ns_nodes s)) (ns_free_list s) (ns_next_id s) \<and>
     ns_free_count s = of_nat (length (ns_free_list s))"

lemma ns_insert_with_id_frame [simp]:
  "ns_nodes (ns_insert_with_id c i ls r t s) = (ns_nodes s)(i \<mapsto> node_new i ls r t)"
  "ns_free_list (ns_insert_with_id c i ls r t s) = ns_free_list s"
  "ns_next_id (ns_insert_with_id c i ls r t s) = ns_next_id s"
  "ns_free_count (ns_insert_with_id c i ls r t s) = ns_free_count s"
  by (simp_all add: ns_insert_with_id_def Let_def)

lemma ns_alloc_inv:
  assumes "ns_ids_inv reserved s" and "ns_next_id s \<noteq> - 1"
  shows "ns_ids_inv (insert (fst (ns_alloc_id s)) reserved) (snd (ns_alloc_id s))"
    and "fst (ns_alloc_id s) \<notin> dom (ns_nodes s)" and "fst (ns_alloc_id s) \<notin> reserved"
  using nsa.alloc_fresh [of reserved s] assms
  by (auto simp: ns_ids_inv_def) (auto simp: ns_alloc_id_def split: list.splits)

lemma ns_fill_inv:
  assumes "ns_ids_inv reserved s" and "i \<in> reserved"
  shows "ns_ids_inv (reserved - {i}) (ns_insert_with_id c i labels row tx s)"
  using ids_ok_insert assms by (simp add: ns_ids_inv_def)

lemma ns_hard_delete_inv:
  assumes "ns_ids_inv reserved s"
  shows "ns_ids_inv reserved (snd (ns_hard_delete i s))"
proof (cases "ns_nodes s i")
  case None
  with assms show ?thesis by (simp add: ns_ids_inv_def ns_hard_delete_def Let_def)
next
  case (Some n)
  with assms ids_ok_delete [of reserved "dom (ns_nodes s)" _ _ i] show ?thesis
    by (simp add: ns_ids_inv_def ns_hard_delete_def Let_def domI)
qed

lemma ns_compact_inv: "ns_ids_inv reserved s \<Longrightarrow> ns_ids_inv reserved (snd (ns_compact order tx s))"
proof -
  have "ns_ids_inv reserved s \<Longrightarrow> ns_ids_inv reserved (fold (\<lambda>i t. snd (ns_hard_delete i t)) is s)" for "is"
    by (induction "is" arbitrary: s) (simp_all add: ns_hard_delete_inv)
  then show "ns_ids_inv reserved s \<Longrightarrow> ns_ids_inv reserved (snd (ns_compact order tx s))"
    by (simp add: ns_compact_def Let_def)
qed

lemma ns_reach_inv: "ns_reach c s0 reserved s \<Longrightarrow> ns_ids_inv {} s0 \<Longrightarrow> ns_ids_inv reserved s"
proof (induction rule: ns_reach.induct)
  case start
  then show ?case by simp
next
  case (alloc reserved s)
  then show ?case by (simp add: ns_alloc_id_direct_def ns_alloc_inv)
next
  case (fill reserved s i labels row tx)
  then show ?case by (simp add: ns_fill_inv)
next
  case (insert reserved s labels row tx)
  then have "ns_ids_inv (insert (fst (ns_alloc_id s)) reserved - {fst (ns_alloc_id s)})
      (snd (ns_insert_node c labels row tx s))"
    unfolding ns_insert_node_eq snd_conv by (intro ns_fill_inv ns_alloc_inv(1)) simp_all
  with insert show ?case by (simp add: ns_alloc_inv(3))
next
  case (other reserved s op)
  then show ?case
    by (cases op) (simp_all add: ns_modify_ops ns_hard_delete_inv ns_compact_inv,
        simp_all add: ns_ids_inv_def ns_flush_def split: option.split)
qed

section \<open>Lemmas: scans and compaction\<close>

definition ns_visible :: "node_store \<Rightarrow> TxId \<Rightarrow> NodeId set" where
  "ns_visible s tx = {i. \<exists>n. ns_nodes s i = Some n \<and> node_is_alive n tx}"

lemma ns_visible_nodes_set:
  "ns_iter_order order s \<Longrightarrow> set (ns_visible_nodes order tx s) = ns_visible s tx"
  by (auto simp: ns_iter_order_def ns_visible_nodes_def ns_visible_def split: option.splits)

lemma ns_hard_delete_nodes: "ns_nodes (snd (ns_hard_delete i s)) = (ns_nodes s)(i := None)"
  by (auto simp: ns_hard_delete_def Let_def split: option.split)

lemma ns_hard_deletes_nodes:
  "ns_nodes (fold (\<lambda>i t. snd (ns_hard_delete i t)) is s) = (\<lambda>i. if i \<in> set is then None else ns_nodes s i)"
  by (induction "is" arbitrary: s) (auto simp: ns_hard_delete_nodes)

lemma ns_compact_nodes:
  assumes "ns_iter_order order s"
  shows "ns_nodes (snd (ns_compact order oldest s)) i =
    (case ns_nodes s i of Some n \<Rightarrow> if n_deleted_tx n < oldest then None else Some n | None \<Rightarrow> None)"
  using assms by (auto simp: ns_compact_def Let_def ns_hard_deletes_nodes ns_iter_order_def split: option.split)

section \<open>Example\<close>

definition node_example :: node_store where
  "node_example =
     (case ns_open node_example_codec False 0 (file_of []) consistency_immediate of Ok s \<Rightarrow> s | _ \<Rightarrow> ns_new)"

lemma node_example_open:
  "ns_open node_example_codec False 0 (file_of []) consistency_immediate = Ok node_example"
  by code_simp

definition node_example_ops :: "node_op list" where
  "node_example_ops = [NHardDelete 5, NThread 0, NInsert [1] 0 1]"

definition node_example_wal :: wal_sys where
  "node_example_wal =
     (case ns_wal (fold (ns_exec node_example_codec) node_example_ops node_example) of
       Some w \<Rightarrow> w | None \<Rightarrow> wal_example)"

lemma node_example_run_1: "ns_wal (fold (ns_exec node_example_codec) node_example_ops node_example) = Some node_example_wal"
  by code_simp

lemma node_example_run_2: "\<forall>r\<in>set (wal_recs ([] @ ws_sent node_example_wal)). wal_fits r"
  by code_simp

lemma node_example_run_3: "no_max_id (wal_recs ([] @ ws_sent node_example_wal))"
  by code_simp

lemma node_example_run_4: "vec_capacity_ok (batch_bytes (durability consistency_immediate))"
  by code_simp

lemma node_example_run_5: "durability consistency_immediate \<noteq> Async"
  by code_simp

lemma node_example_run_6: "wal_base [] = fold encode_cmd [] WAL_MAGIC"
  by code_simp

definition node_example_uses :: "(node_op, NodeId, node) store_use list" where
  "node_example_uses = map Call node_example_ops @ [GetMut 7 (\<lambda>n. n\<lparr>n_labels := [9]\<rparr>)]"

lemma node_example_uses_run: "ns_wal (fold (ns_use node_example_codec) node_example_uses node_example) = Some node_example_wal"
  using node_example_run_1
  by (simp add: node_example_uses_def ns_use_def nsr.get_mut_wal)

lemmas node_example_run = node_example_run_1 node_example_run_2 node_example_run_3 node_example_run_4 node_example_run_5 node_example_run_6

text \<open>The file as the thread's one iteration left it, with the insertion still in the channel.\<close>

definition node_example_reopened :: node_store where
  "node_example_reopened =
     (case ns_open node_example_codec False 0 (file_of (durable (ws_file node_example_wal)))
       consistency_immediate of Ok s \<Rightarrow> s | _ \<Rightarrow> ns_new)"

lemma node_example_crash_1: "ns_open node_example_codec False 0 (file_of (durable (ws_file node_example_wal))) consistency_immediate =
     Ok node_example_reopened"
  by code_simp

lemma node_example_crash_2: "prefix (durable (ws_file node_example_wal)) (f_data (ws_file node_example_wal) @ ws_buffer node_example_wal)"
  by (rule durable_prefix)

lemmas node_example_crash = node_example_crash_1 node_example_crash_2

text \<open>A store in memory with one node, before and after its soft deletion.\<close>

definition node_example_one :: node_store where
  "node_example_one = ns_insert_with_id node_example_codec 0 [1] 0 1 ns_new"

definition node_example_deleted :: node_store where
  "node_example_deleted = snd (ns_soft_delete node_example_codec 0 3 node_example_one)"

lemma node_example_deleted_order: "ns_iter_order [0] node_example_deleted"
  by (simp add: ns_iter_order_def node_example_deleted_def ns_modify_ops)
    (simp add: node_example_one_def ns_new_def)

section \<open>Properties\<close>

text \<open>
  C6. Durability of the node store: open it on a log, use it in any way (any sequence of its operations and of
  writes through \<open>get_mut\<close>) with the WAL thread iterating anywhere in between, and flush. Opening the durable file
  again succeeds and gives back every node that was in memory, and no other, except under identifiers that were
  passed to \<open>get_mut\<close>, whose writes nothing logs. Assumed: nodes deserialise to what
  was serialised, no payload reaches \<open>2 ^ 32 - 9\<close> bytes, no node has the identifier \<open>u64::MAX\<close>,
  and the durability level is one that syncs and whose buffer can be allocated.
\<close>

theorem node_store_recovery:
  assumes "codec_ok c" and "ns_open c checks now (file_of bs) k = Ok s"
    and "wal_base bs = fold encode_cmd cs WAL_MAGIC"
    and "vec_capacity_ok (batch_bytes (durability k))" and "durability k \<noteq> Async"
    and "ns_wal (fold (ns_use c) us s) = Some w"
    and "\<forall>r\<in>set (wal_recs (cs @ ws_sent w)). wal_fits r" and "no_max_id (wal_recs (cs @ ws_sent w))"
  shows "\<exists>w' r. ns_wal (ns_flush n (fold (ns_use c) us s)) = Some w' \<and>
    ns_open c checks now (file_of (durable (ws_file w'))) k = Ok r \<and>
    (\<forall>i. i \<notin> get_mut_keys us \<longrightarrow> ns_nodes r i = ns_nodes (fold (ns_use c) us s) i)"
  using nsr.recover_use [OF assms(2,3,1,4,5) assms(6-8) [unfolded ns_use_def], of n] assms(6)
  by (simp add: ns_flush_def ns_use_def)

theorem node_store_recovery_witness:
  "\<exists>w' r. ns_wal (ns_flush 0 (fold (ns_use node_example_codec) node_example_uses node_example)) = Some w' \<and>
    ns_open node_example_codec False 0 (file_of (durable (ws_file w'))) consistency_immediate = Ok r \<and>
    ns_nodes r 0 = ns_nodes (fold (ns_use node_example_codec) node_example_uses node_example) 0"
proof -
  have "(0 :: NodeId) \<notin> get_mut_keys node_example_uses" by (simp add: node_example_uses_def)
  with node_store_recovery [OF node_example_codec_ok node_example_open node_example_run(6,4,5) node_example_uses_run
      node_example_run(2,3), of 0] show ?thesis by blast
qed

text \<open>
  A crash at any point: whatever part of the unsynced bytes reached the file, if the store
  opens afterwards its nodes are those of an initial run of the records it had sent, and the run
  includes every record sent before a flush that was answered.
\<close>

theorem node_store_crash:
  assumes "codec_ok c" and "ns_open c checks now (file_of bs) k = Ok s"
    and "wal_base bs = fold encode_cmd cs WAL_MAGIC"
    and "vec_capacity_ok (batch_bytes (durability k))" and "durability k \<noteq> Async"
    and "ns_wal (fold (ns_exec c) ops s) = Some w"
    and "\<forall>r\<in>set (wal_recs (cs @ ws_sent w)). wal_fits r"
    and "prefix (durable (ws_file w)) p" and "prefix p (f_data (ws_file w) @ ws_buffer w)"
    and "ns_open c checks now (file_of p) k = Ok r"
  shows "\<exists>m. ns_nodes r = fold (kv_apply c) (take m (wal_recs (cs @ ws_sent w))) Map.empty \<and>
    (\<forall>t\<in>set (ws_acks w). \<exists>pre q post. ws_sent w = pre @ q # post \<and> q \<in> {Flush t, Shutdown t} \<and>
       length (wal_recs (cs @ pre)) \<le> m)"
  using nsr.recover_after_crash [OF assms(2,3,1,4-10)] .


theorem node_store_crash_witness:
  "\<exists>m. ns_nodes node_example_reopened =
     fold (kv_apply node_example_codec) (take m (wal_recs ([] @ ws_sent node_example_wal))) Map.empty"
  using node_store_crash [OF node_example_codec_ok node_example_open node_example_run(6,4,5,1,2)
      prefix_order.refl node_example_crash(2,1)] by blast

text \<open>
  Identifiers are never shared: in every state a client can bring about from a new store, as
  long as the counter has not run through all of \<open>u64\<close>, \<open>insert_node\<close> stores its node under
  an identifier that no stored node has and that nobody has been handed out, changes no other
  node, and keeps the free list free of duplicates and of identifiers in use.
\<close>

theorem node_ids_fresh:
  assumes "ns_reach c (ns_with_capacity cap) reserved s" and "ns_next_id s \<noteq> - 1"
    and "ns_insert_node c labels row tx s = (i, s')"
  shows "i \<notin> dom (ns_nodes s) \<and> i \<notin> reserved \<and>
    ns_nodes s' = (ns_nodes s)(i \<mapsto> node_new i labels row tx) \<and> ns_ids_inv reserved s'"
proof -
  have "ns_ids_inv {} (ns_with_capacity cap)"
    by (simp add: ns_ids_inv_def ids_ok_def ns_with_capacity_def)
  note inv = ns_reach_inv [OF assms(1) this] ns_reach_inv [OF ns_reach.insert [OF assms(1,2)] this]
  show ?thesis
    using ns_alloc_inv(2,3) [OF inv(1) assms(2)] inv(2) [of labels row tx] assms(3)
    by (auto simp: ns_insert_node_eq)
qed

theorem node_ids_fresh_witness:
  "\<exists>s. ns_reach node_example_codec (ns_with_capacity 8) {} s \<and>
     fst (ns_insert_node node_example_codec [4] 0 2 s) \<notin> dom (ns_nodes s)"
proof -
  let ?c = node_example_codec
  let ?s1 = "snd (ns_insert_node ?c [1] 0 1 (ns_with_capacity 8))"
  let ?s2 = "ns_exec ?c (NHardDelete 0) ?s1"
  have "ns_reach ?c (ns_with_capacity 8) {} ?s1"
    by (rule ns_reach.insert [OF ns_reach.start]) (simp add: ns_with_capacity_def)
  then have r: "ns_reach ?c (ns_with_capacity 8) {} ?s2"
    by (rule ns_reach.other) simp
  have n: "ns_next_id ?s2 \<noteq> - 1" by code_simp
  show ?thesis
    using node_ids_fresh [OF r n surjective_pairing] r by blast
qed

text \<open>
  After recovery this fails: a log in which an identifier was inserted, deleted and (reused)
  inserted again opens to a store that holds the identifier and also has it on its free list,
  because replaying an insertion does not take it off. The next insertion overwrites the node.
\<close>

theorem node_reopen_reuses_live_id:
  assumes "de c b1 = Some n1" and "de c b2 = Some n2"
    and "length b1 < 2 ^ 32 - 9" and "length b2 < 2 ^ 32 - 9"
    and "ns_open c checks now (file_of (fold encode_cmd [Insert i b1, Delete i, Insert i b2] WAL_MAGIC)) k = Ok s"
  shows "ns_nodes s i = Some n2 \<and> fst (ns_insert_node c labels row tx s) = i"
proof -
  let ?cs = "[Insert i b1, Delete i, Insert i b2]"
  have "\<forall>r\<in>set (wal_recs ?cs). wal_fits r"
    using assms(3,4) by (simp add: wal_fits_def)
  then have "replay_wal (fold encode_cmd ?cs WAL_MAGIC) = (wal_recs ?cs, None)"
    using wl.replay_frames [of "wal_recs ?cs"] by (simp only: fold_encode_cmd wal_log_def replay_wal_magic) simp
  moreover have "4 < length (fold encode_cmd ?cs WAL_MAGIC)"
    by (simp add: encode_insert_frame encode_delete_frame length_wal_frame WAL_MAGIC_def)
  moreover obtain w where "wal_spawn checks now (file_of (fold encode_cmd ?cs WAL_MAGIC)) (durability k)
      (wal_channel_capacity k) = Ok w" "ns_wal s = Some w"
    using ns_open_Ok [OF assms(5)] by blast
  ultimately have "ns_nodes s i = Some n2 \<and> ns_free_list s = [i]"
    using assms(1,2,5) unfolding ns_open_def
    by (auto simp: Let_def split_beta ns_replay_record_def ns_new_def split: if_splits)
  then show ?thesis by (simp add: ns_insert_node_eq ns_alloc_id_def)
qed

theorem node_reopen_reuses_live_id_witness:
  "\<exists>s. ns_open node_example_codec False 0
      (file_of (fold encode_cmd [Insert 0 [0, 0, 0, 0, 0, 0], Delete 0, Insert 0 [0, 0, 0, 0, 0, 0]] WAL_MAGIC))
      consistency_immediate = Ok s \<and> ns_nodes s 0 \<noteq> None \<and> fst (ns_insert_node node_example_codec [] 0 1 s) = 0"
proof -
  let ?b = "[0, 0, 0, 0, 0, 0] :: bytes"
  let ?bs = "fold encode_cmd [Insert 0 ?b, Delete 0, Insert 0 ?b] WAL_MAGIC"
  obtain n where n: "de node_example_codec ?b = Some n"
    by (simp add: node_example_codec_def)
  have "replay_wal ?bs = ([(1, 0, ?b), (2, 0, []), (1, 0, ?b)], None)" by code_simp
  then have "no_max_id (fst (replay_wal ?bs))" "snd (replay_wal ?bs) = None"
    by (simp_all only: no_max_id_def) simp_all
  moreover have "\<exists>w. wal_spawn False 0 (file_of ?bs) (durability consistency_immediate)
      (wal_channel_capacity consistency_immediate) = Ok w"
    by (rule wal_spawn_ok) code_simp
  ultimately obtain s where s: "ns_open node_example_codec False 0 (file_of ?bs) consistency_immediate = Ok s"
    using ns_open_total [of False 0 "file_of ?bs" consistency_immediate] by fastforce
  show ?thesis
    using node_reopen_reuses_live_id [OF n n _ _ s, of "[]" 0 1] s by auto
qed

text \<open>
  C26. Compaction is invisible to every snapshot that is still active: it removes exactly the
  nodes deleted before \<open>oldest_active_tx\<close>, returns how many it removed, and at every snapshot from
  \<open>oldest_active_tx\<close> on the visible nodes, and their contents, are what they were.
\<close>

theorem node_compact_preserves_visible:
  assumes "ns_iter_order order s" and "ns_compact order oldest s = (n, s')" and "oldest \<le> tx"
  shows "ns_visible s' tx = ns_visible s tx \<and> (\<forall>i\<in>ns_visible s tx. ns_nodes s' i = ns_nodes s i) \<and>
    dom (ns_nodes s') = {i \<in> dom (ns_nodes s). oldest \<le> n_deleted_tx (the (ns_nodes s i))} \<and>
    n = card (dom (ns_nodes s) - dom (ns_nodes s'))"
proof -
  have nodes: "ns_nodes s' i =
      (case ns_nodes s i of Some n \<Rightarrow> if n_deleted_tx n < oldest then None else Some n | None \<Rightarrow> None)" for i
    using ns_compact_nodes [OF assms(1), of oldest i] assms(2) by simp
  have "n = length (filter (\<lambda>i. case ns_nodes s i of Some n \<Rightarrow> n_deleted_tx n < oldest | None \<Rightarrow> False) order)"
    using assms(2) by (simp add: ns_compact_def Let_def)
  also have "\<dots> = card {i \<in> dom (ns_nodes s). n_deleted_tx (the (ns_nodes s i)) < oldest}"
    using assms(1) by (auto simp: ns_iter_order_def distinct_length_filter intro!: arg_cong [of _ _ card]
        split: option.splits)
  also have "{i \<in> dom (ns_nodes s). n_deleted_tx (the (ns_nodes s i)) < oldest} =
      dom (ns_nodes s) - dom (ns_nodes s')"
    by (auto simp: nodes dom_def)
  finally have n: "n = card (dom (ns_nodes s) - dom (ns_nodes s'))" .
  have "dom (ns_nodes s') = {i \<in> dom (ns_nodes s). oldest \<le> n_deleted_tx (the (ns_nodes s i))}"
    by (auto simp: nodes dom_def not_less split: option.splits if_splits)
  moreover have "ns_visible s' tx = ns_visible s tx"
    using nv.dead_before [OF _ assms(3)] by (auto simp: ns_visible_def nodes split: option.splits if_splits)
  moreover have "\<forall>i\<in>ns_visible s tx. ns_nodes s' i = ns_nodes s i"
    using nv.dead_before [OF _ assms(3)] by (auto simp: ns_visible_def nodes)
  ultimately show ?thesis using n by blast
qed

theorem node_compact_preserves_visible_witness:
  "fst (ns_compact [0] 5 node_example_deleted) =
     card (dom (ns_nodes node_example_deleted) - dom (ns_nodes (snd (ns_compact [0] 5 node_example_deleted))))"
  using node_compact_preserves_visible [OF node_example_deleted_order surjective_pairing order.refl, of 5]
  by blast

text \<open>
  A soft deletion hides the node from the deleting transaction on and from no snapshot before
  it: for a node that was not deleted yet, the visible nodes at \<open>tx\<close> are the old ones, less the
  node itself when \<open>tx\<close> is at least the deleting transaction, whichever order the scan takes.
\<close>

theorem node_soft_delete_visible:
  assumes "ns_nodes s i = Some n" and "n_deleted_tx n = MAX_TX_ID"
    and "ns_soft_delete c i t s = (ok, s')" and "ns_iter_order order s'"
  shows "ok \<and> set (ns_visible_nodes order tx s') = ns_visible s tx - (if t \<le> tx then {i} else {}) \<and>
    ns_visible_count order tx s' = card (ns_visible s tx - (if t \<le> tx then {i} else {}))"
proof -
  have nodes: "ns_nodes s' = (ns_nodes s)(i \<mapsto> node_mark_deleted t n)"
    and ok
    using ns_modify_nodes [of c i "node_mark_deleted t" s] assms(1,3)
    by (auto simp: ns_modify_ops) (simp add: ns_modify_def)
  have "ns_visible s' tx = ns_visible s tx - (if t \<le> tx then {i} else {})"
    using nv.mark_hides [of t tx n] nv.mark_live_keeps_older [OF assms(2), of tx t] assms(1)
    by (auto simp: ns_visible_def nodes not_le split: if_splits)
  moreover have "set (ns_visible_nodes order tx s') = ns_visible s' tx"
    by (rule ns_visible_nodes_set [OF assms(4)])
  moreover have "ns_visible_count order tx s' = card (set (ns_visible_nodes order tx s'))"
    using assms(4)
    by (simp add: ns_visible_count_def ns_visible_nodes_def ns_iter_order_def distinct_card del: set_filter)
  ultimately show ?thesis using \<open>ok\<close> by simp
qed

theorem node_soft_delete_visible_witness:
  "set (ns_visible_nodes [0] 3 (snd (ns_soft_delete node_example_codec 0 3 node_example_one))) =
     ns_visible node_example_one 3 - {0}"
proof -
  have n: "ns_nodes node_example_one 0 = Some (node_new 0 [1] 0 1)"
    by (simp add: node_example_one_def)
  have o: "ns_iter_order [0] (snd (ns_soft_delete node_example_codec 0 3 node_example_one))"
    by (simp add: ns_iter_order_def ns_modify_ops) (simp add: node_example_one_def ns_new_def)
  show ?thesis
    using node_soft_delete_visible [OF n _ surjective_pairing o, of 3] by simp
qed

end
