(* ===== verification/Store_Race.thy ===== *)
theory Store_Race
  imports Node_Store Edge_Store
begin

text \<open>
  Overlapping calls on the node and the edge store (\<^verbatim>\<open>src/src/storage/node_store.rs\<close> and
  \<^verbatim>\<open>src/src/storage/edge_store.rs\<close>). Both stores are shared by threads without a lock of
  their own: a call is a sequence of accesses to the \<open>DashMap\<close>, the free list, the atomic counters and
  the log, each of which is atomic, and the accesses of different calls interleave. Insertion writes memory
  first and the log second, \<open>hard_delete\<close> the log first and memory second; the updates in place keep the
  lock of the entry until the record is sent and are one access.
\<close>

section \<open>The shared state\<close>

text \<open>
  What the two stores have in common. The counter \<open>total_ever\<close> of the node store, which no operation
  reads, is left out.
\<close>

record 'v shared_store =
  sh_map :: "u64 \<rightharpoonup> 'v"
  sh_next_id :: u64
  sh_free_list :: "u64 list"
  sh_free_count :: u64
  sh_wal :: "wal_sys option"

definition sh_node :: "node_store \<Rightarrow> node shared_store" where
  "sh_node s = \<lparr>sh_map = ns_nodes s, sh_next_id = ns_next_id s, sh_free_list = ns_free_list s,
     sh_free_count = ns_free_count s, sh_wal = ns_wal s\<rparr>"

definition sh_edge :: "edge_store \<Rightarrow> edge shared_store" where
  "sh_edge s = \<lparr>sh_map = es_edges s, sh_next_id = es_next_id s, sh_free_list = es_free_list s,
     sh_free_count = es_free_count s, sh_wal = es_wal s\<rparr>"

section \<open>Calls as sequences of accesses\<close>

text \<open>
  The value to insert is built from its identifier; \<open>None\<close> is \<open>alloc_id_direct\<close>, which returns the
  identifier to its caller.
\<close>

type_synonym 'v alloc_for = "(u64 \<Rightarrow> 'v) option"

datatype 'v act =
    Pop "'v alloc_for"
  | Fetch "'v alloc_for"
  | Uncount u64 "'v alloc_for"
  | Store u64 'v
  | Send u64 'v
  | SendDelete u64
  | Remove u64
  | Push u64
  | Count
  | Modify u64 "'v \<Rightarrow> 'v"
  | Return u64

definition sh_use :: "u64 \<Rightarrow> 'v alloc_for \<Rightarrow> 'v act list" where
  "sh_use i mk = (case mk of None \<Rightarrow> [Return i] | Some f \<Rightarrow> [Store i (f i), Send i (f i)])"

definition sh_wal_insert :: "'v codec \<Rightarrow> u64 \<Rightarrow> 'v \<Rightarrow> 'v shared_store \<Rightarrow> 'v shared_store" where
  "sh_wal_insert c i v s =
     (case sh_wal s of
       None \<Rightarrow> s
     | Some w \<Rightarrow>
         (case ser c v of
           None \<Rightarrow> s
         | Some data \<Rightarrow> s\<lparr>sh_wal := Some (wal_send_insert i data w)\<rparr>))"

text \<open>One access: the accesses that the call makes instead of it from now on, and the new state.\<close>

primrec sh_act :: "'v codec \<Rightarrow> 'v act \<Rightarrow> 'v shared_store \<Rightarrow> 'v act list \<times> 'v shared_store" where
  "sh_act c (Pop mk) s =
     (case sh_free_list s of
       i # rest \<Rightarrow> ([Uncount i mk], s\<lparr>sh_free_list := rest\<rparr>)
     | [] \<Rightarrow> ([Fetch mk], s))"
| "sh_act c (Uncount i mk) s = (sh_use i mk, s\<lparr>sh_free_count := sh_free_count s - 1\<rparr>)"
| "sh_act c (Fetch mk) s = (sh_use (sh_next_id s) mk, s\<lparr>sh_next_id := sh_next_id s + 1\<rparr>)"
| "sh_act c (Store i v) s = ([], s\<lparr>sh_map := (sh_map s)(i \<mapsto> v)\<rparr>)"
| "sh_act c (Send i v) s = ([], sh_wal_insert c i v s)"
| "sh_act c (SendDelete i) s = ([], s\<lparr>sh_wal := map_option (wal_send_delete i) (sh_wal s)\<rparr>)"
| "sh_act c (Remove i) s =
     (case sh_map s i of
       Some _ \<Rightarrow> ([Push i, Count], s\<lparr>sh_map := (sh_map s)(i := None)\<rparr>)
     | None \<Rightarrow> ([], s))"
| "sh_act c (Push i) s = ([], s\<lparr>sh_free_list := sh_free_list s @ [i]\<rparr>)"
| "sh_act c Count s = ([], s\<lparr>sh_free_count := sh_free_count s + 1\<rparr>)"
| "sh_act c (Modify i f) s =
     (case sh_map s i of
       Some v \<Rightarrow> ([], sh_wal_insert c i (f v) (s\<lparr>sh_map := (sh_map s)(i \<mapsto> f v)\<rparr>))
     | None \<Rightarrow> ([], s))"
| "sh_act c (Return i) s = ([], s)"

text \<open>The calls of both stores, and the accesses they begin with.\<close>

datatype 'v call =
    Alloc
  | InsertWithId u64 'v
  | InsertNew "u64 \<Rightarrow> 'v"
  | Change u64 "'v \<Rightarrow> 'v"
  | HardDelete u64

primrec sh_acts :: "'v call \<Rightarrow> 'v act list" where
  "sh_acts Alloc = [Pop None]"
| "sh_acts (InsertWithId i v) = [Store i v, Send i v]"
| "sh_acts (InsertNew f) = [Pop (Some f)]"
| "sh_acts (Change i f) = [Modify i f]"
| "sh_acts (HardDelete i) = [SendDelete i, Remove i]"

text \<open>
  The operations of the stores as such calls. A compaction is a scan followed by calls of
  \<open>hard_delete\<close>; linking and unlinking edges touch several entries one after the other.
\<close>

primrec node_call :: "node_op \<Rightarrow> node call option" where
  "node_call NAlloc = Some Alloc"
| "node_call (NInsertWithId i labels row tx) = Some (InsertWithId i (node_new i labels row tx))"
| "node_call (NInsert labels row tx) = Some (InsertNew (\<lambda>i. node_new i labels row tx))"
| "node_call (NUpdateLabels i labels tx) = Some (Change i (\<lambda>n. n\<lparr>n_labels := labels, n_created_tx := tx\<rparr>))"
| "node_call (NUpdatePropsRow i row) = Some (Change i (\<lambda>n. n\<lparr>n_props_row := row\<rparr>))"
| "node_call (NSetFirstOut i e) = Some (Change i (\<lambda>n. n\<lparr>n_first_out := e\<rparr>))"
| "node_call (NSetFirstIn i e) = Some (Change i (\<lambda>n. n\<lparr>n_first_in := e\<rparr>))"
| "node_call (NSoftDelete i tx) = Some (Change i (\<lambda>n. n\<lparr>n_deleted_tx := tx\<rparr>))"
| "node_call (NHardDelete i) = Some (HardDelete i)"
| "node_call (NCompact order tx) = None"
| "node_call (NFlush now) = None"
| "node_call (NThread now) = None"

primrec edge_call :: "edge_op \<Rightarrow> edge call option" where
  "edge_call EAlloc = Some Alloc"
| "edge_call (EInsertWithId i src dst y row tx) = Some (InsertWithId i (edge_new i src dst y row tx))"
| "edge_call (EInsert src dst y row tx) = Some (InsertNew (\<lambda>i. edge_new i src dst y row tx))"
| "edge_call (ELink i fo fi) = None"
| "edge_call (EUnlink i fo fi) = None"
| "edge_call (ESoftDelete i tx) = Some (Change i (\<lambda>e. e\<lparr>e_deleted_tx := tx\<rparr>))"
| "edge_call (EHardDelete i) = Some (HardDelete i)"
| "edge_call (EFlush now) = None"
| "edge_call (EThread now) = None"

text \<open>A call that nobody interrupts.\<close>

primrec act_size :: "'v act \<Rightarrow> nat" where
  "act_size (Pop mk) = 5"
| "act_size (Fetch mk) = 4"
| "act_size (Uncount i mk) = 4"
| "act_size (Store i v) = 1"
| "act_size (Send i v) = 1"
| "act_size (SendDelete i) = 1"
| "act_size (Remove i) = 3"
| "act_size (Push i) = 1"
| "act_size Count = 1"
| "act_size (Modify i f) = 1"
| "act_size (Return i) = 1"

lemma sh_act_size: "(bs, s') = sh_act c a s \<Longrightarrow> sum_list (map act_size bs) < act_size a"
  by (cases a) (auto simp: sh_use_def split: option.splits list.splits)

function sh_run :: "'v codec \<Rightarrow> 'v act list \<Rightarrow> 'v shared_store \<Rightarrow> 'v shared_store" where
  "sh_run c [] s = s"
| "sh_run c (a # as) s = (case sh_act c a s of (bs, s') \<Rightarrow> sh_run c (bs @ as) s')"
  by pat_completeness auto

termination
  by (relation "measure (\<lambda>(c, as, s). sum_list (map act_size as))") (auto dest: sh_act_size)

section \<open>Interleavings\<close>

text \<open>
  The state, what every thread has still to do, and the identifiers handed out by \<open>alloc_id_direct\<close> and
  not used yet. Callers insert under such identifiers only. \<open>ok\<close> restricts which calls overlap. The
  counter is not run through all of \<open>u64\<close>. The WAL thread iterates and flushes happen at any time.
\<close>

type_synonym 'v threads = "nat \<Rightarrow> 'v act list"
type_synonym 'v race = "'v shared_store \<times> 'v threads \<times> u64 set"

abbreviation idle :: "'v threads" where
  "idle \<equiv> (\<lambda>_. [])"

primrec sh_taken :: "'v call \<Rightarrow> u64 set" where
  "sh_taken Alloc = {}"
| "sh_taken (InsertWithId i v) = {i}"
| "sh_taken (InsertNew f) = {}"
| "sh_taken (Change i f) = {}"
| "sh_taken (HardDelete i) = {}"

definition sh_returned :: "'v act \<Rightarrow> u64 set" where
  "sh_returned a = (case a of Return i \<Rightarrow> {i} | _ \<Rightarrow> {})"

definition sh_room :: "'v act \<Rightarrow> 'v shared_store \<Rightarrow> bool" where
  "sh_room a s = (case a of Fetch mk \<Rightarrow> sh_next_id s \<noteq> - 1 | _ \<Rightarrow> True)"

inductive sh_step :: "'v codec \<Rightarrow> ('v threads \<Rightarrow> bool) \<Rightarrow> 'v race \<Rightarrow> 'v race \<Rightarrow> bool" for c ok where
  call: "p t = [] \<Longrightarrow> sh_taken x \<subseteq> R \<Longrightarrow> ok (p(t := sh_acts x)) \<Longrightarrow>
    sh_step c ok (s, p, R) (s, p(t := sh_acts x), R - sh_taken x)"
| act: "p t = a # as \<Longrightarrow> sh_room a s \<Longrightarrow> sh_act c a s = (bs, s') \<Longrightarrow> ok (p(t := bs @ as)) \<Longrightarrow>
    sh_step c ok (s, p, R) (s', p(t := bs @ as), R \<union> sh_returned a)"
| thread: "sh_step c ok (s, p, R) (s\<lparr>sh_wal := map_option (wal_loop_iter now) (sh_wal s)\<rparr>, p, R)"
| flush: "sh_step c ok (s, p, R) (s\<lparr>sh_wal := map_option (wal_flush now) (sh_wal s)\<rparr>, p, R)"

inductive sh_reach :: "'v codec \<Rightarrow> ('v threads \<Rightarrow> bool) \<Rightarrow> 'v race \<Rightarrow> 'v race \<Rightarrow> bool" for c ok a where
  start: "sh_reach c ok a a"
| step: "sh_reach c ok a b \<Longrightarrow> sh_step c ok b d \<Longrightarrow> sh_reach c ok a d"

text \<open>The entry that an access is about, and calls under way on different entries.\<close>

definition act_key :: "'v act \<Rightarrow> u64 set" where
  "act_key a = (case a of Store i v \<Rightarrow> {i} | Send i v \<Rightarrow> {i} | SendDelete i \<Rightarrow> {i} | Remove i \<Rightarrow> {i}
     | Modify i f \<Rightarrow> {i} | _ \<Rightarrow> {})"

definition act_keys :: "'v act list \<Rightarrow> u64 set" where
  "act_keys as = (\<Union>a\<in>set as. act_key a)"

definition sh_apart :: "'v threads \<Rightarrow> bool" where
  "sh_apart p \<longleftrightarrow> (\<forall>t u. t \<noteq> u \<longrightarrow> act_keys (p t) \<inter> act_keys (p u) = {})"

section \<open>Lemmas: uninterrupted calls have the effect of the operations\<close>

lemma sh_node_simps [simp]:
  "sh_map (sh_node s) = ns_nodes s" "sh_next_id (sh_node s) = ns_next_id s"
  "sh_free_list (sh_node s) = ns_free_list s" "sh_free_count (sh_node s) = ns_free_count s"
  "sh_wal (sh_node s) = ns_wal s"
  by (simp_all add: sh_node_def)

lemma sh_edge_simps [simp]:
  "sh_map (sh_edge s) = es_edges s" "sh_next_id (sh_edge s) = es_next_id s"
  "sh_free_list (sh_edge s) = es_free_list s" "sh_free_count (sh_edge s) = es_free_count s"
  "sh_wal (sh_edge s) = es_wal s"
  by (simp_all add: sh_edge_def)

lemma sh_wal_insert_simps [simp]:
  "sh_map (sh_wal_insert c i v s) = sh_map s" "sh_next_id (sh_wal_insert c i v s) = sh_next_id s"
  "sh_free_list (sh_wal_insert c i v s) = sh_free_list s" "sh_free_count (sh_wal_insert c i v s) = sh_free_count s"
  by (simp_all add: sh_wal_insert_def split: option.split)

lemma ns_exec_run:
  assumes "node_call op = Some x"
  shows "sh_run c (sh_acts x) (sh_node s) = sh_node (ns_exec c op s)"
  using assms
  by (cases op)
    (auto simp: ns_alloc_id_direct_def ns_alloc_id_def ns_insert_with_id_def ns_insert_node_def ns_modify_ops
      ns_modify_def ns_hard_delete_def ns_wal_delete_def ns_wal_insert_def sh_wal_insert_def sh_use_def Let_def
      node_mark_deleted_def split: list.split option.split intro!: shared_store.equality)

lemma es_exec_run:
  assumes "edge_call op = Some x"
  shows "sh_run c (sh_acts x) (sh_edge s) = sh_edge (es_exec c op s)"
  using assms
  by (cases op)
    (auto simp: es_alloc_id_direct_def es_alloc_id_def es_insert_with_id_def es_insert_edge_def es_soft_delete_def
      es_hard_delete_def es_wal_delete_def es_wal_insert_def sh_wal_insert_def sh_use_def Let_def
      split: list.split option.split intro!: shared_store.equality)

section \<open>Lemmas: identifiers\<close>

text \<open>The identifier that a call under way has taken and not yet put into the map, the free list or the caller's hands.\<close>

definition act_owned :: "'v act \<Rightarrow> u64 list" where
  "act_owned a = (case a of Uncount i mk \<Rightarrow> [i] | Store i v \<Rightarrow> [i] | Push i \<Rightarrow> [i] | Return i \<Rightarrow> [i] | _ \<Rightarrow> [])"

definition owned :: "'v act list \<Rightarrow> u64 list" where
  "owned as = concat (map act_owned as)"

lemma owned_simps [simp]: "owned [] = []" "owned (a # as) = act_owned a @ owned as" "owned (as @ bs) = owned as @ owned bs"
  by (simp_all add: owned_def)

lemma act_owned_simps [simp]:
  "act_owned (Pop mk) = []" "act_owned (Fetch mk) = []" "act_owned (Uncount i mk) = [i]" "act_owned (Store i v) = [i]"
  "act_owned (Send i v) = []" "act_owned (SendDelete i) = []" "act_owned (Remove i) = []" "act_owned (Push i) = [i]"
  "act_owned Count = []" "act_owned (Modify i f) = []" "act_owned (Return i) = [i]"
  by (simp_all add: act_owned_def)

lemma owned_use [simp]: "owned (sh_use i mk) = [i]"
  by (simp add: sh_use_def split: option.split)

text \<open>
  Every identifier has one owner: the map, the free list, the callers (\<open>R\<close>) or one thread; and the
  counter is past all of them. \<open>X\<close> are the identifiers of the other threads, \<open>os\<close> those of the thread at hand.
\<close>

definition ids_split :: "u64 set \<Rightarrow> u64 list \<Rightarrow> u64 set \<Rightarrow> u64 set \<Rightarrow> u64 list \<Rightarrow> u64 \<Rightarrow> bool" where
  "ids_split X os R live free n \<longleftrightarrow> ids_ok (R \<union> X \<union> set os) live free n \<and>
     distinct os \<and> set os \<inter> X = {} \<and> (set os \<union> X) \<inter> R = {}"

definition ids_part :: "u64 set \<Rightarrow> u64 list \<Rightarrow> u64 set \<Rightarrow> 'v shared_store \<Rightarrow> bool" where
  "ids_part X os R s \<longleftrightarrow> ids_split X os R (dom (sh_map s)) (sh_free_list s) (sh_next_id s)"

definition owned_others :: "nat \<Rightarrow> 'v threads \<Rightarrow> u64 set" where
  "owned_others t p = (\<Union>u\<in>- {t}. set (owned (p u)))"

definition sh_ids :: "'v race \<Rightarrow> bool" where
  "sh_ids st = (case st of (s, p, R) \<Rightarrow> \<forall>t. ids_part (owned_others t p) (owned (p t)) R s)"

lemma owned_others_upd [simp]: "owned_others t (p(t := as)) = owned_others t p"
  by (auto simp: owned_others_def)

text \<open>It is enough to look at the thread that takes the step.\<close>

lemma sh_idsI:
  assumes "sh_ids (s, p, R)" and "ids_part (owned_others t p) (owned as) R' s'"
  shows "sh_ids (s', p(t := as), R')"
  unfolding sh_ids_def prod.case
proof
  fix u
  show "ids_part (owned_others u (p(t := as))) (owned ((p(t := as)) u)) R' s'"
  proof (cases "u = t")
    case True
    with assms(2) show ?thesis by simp
  next
    case False
    have all: "owned_others u q \<union> set (owned (q u)) = (\<Union>v. set (owned (q v)))" for q :: "'a threads" and u
      by (auto simp: owned_others_def)
    have u: "ids_part (owned_others u p) (owned (p u)) R s" using assms(1) by (simp add: sh_ids_def)
    have t: "ids_part (owned_others t (p(t := as))) (owned ((p(t := as)) t)) R' s'" using assms(2) by simp
    have "set (owned (p u)) \<inter> owned_others u (p(t := as)) = {}"
    proof -
      have "set (owned (p u)) \<inter> set (owned as) = {}"
        using assms(2) False by (auto simp: ids_part_def ids_split_def owned_others_def)
      moreover have "set (owned (p u)) \<inter> owned_others u p = {}" using u by (simp add: ids_part_def ids_split_def)
      moreover have "owned_others u (p(t := as)) \<subseteq> set (owned as) \<union> owned_others u p"
        by (auto simp: owned_others_def split: if_splits)
      ultimately show ?thesis by blast
    qed
    moreover have "distinct (owned (p u))" using u by (simp add: ids_part_def ids_split_def)
    moreover have "R' \<union> owned_others u (p(t := as)) \<union> set (owned ((p(t := as)) u)) =
        R' \<union> owned_others t (p(t := as)) \<union> set (owned ((p(t := as)) t))"
      using all [of u "p(t := as)"] all [of t "p(t := as)"] by blast
    moreover have "set (owned ((p(t := as)) u)) \<union> owned_others u (p(t := as)) =
        set (owned ((p(t := as)) t)) \<union> owned_others t (p(t := as))"
      using all [of u "p(t := as)"] all [of t "p(t := as)"] by blast
    ultimately show ?thesis using t False unfolding ids_part_def ids_split_def by simp
  qed
qed

lemma ids_ok_fetch:
  assumes "ids_ok reserved live free n" and "n \<noteq> - 1"
  shows "n \<notin> reserved \<and> ids_ok (insert n reserved) live free (n + 1)"
proof -
  have "i < n \<Longrightarrow> i < n + 1" "n < n + 1" for i
    using u64_less_Suc [OF assms(2)] by (simp_all add: order.strict_implies_order)
  with assms(1) show ?thesis by (auto simp: ids_ok_def)
qed

lemma ids_split_steps:
  shows "ids_split X os R live (i # fs) n \<Longrightarrow> ids_split X (i # os) R live fs n"
    and "ids_split X os R live fs n \<Longrightarrow> n \<noteq> - 1 \<Longrightarrow> ids_split X (n # os) R live fs (n + 1)"
    and "ids_split X (i # os) R live fs n \<Longrightarrow> ids_split X os R (insert i live) fs n"
    and "ids_split X os R live fs n \<Longrightarrow> i \<in> live \<Longrightarrow> ids_split X (i # os) R (live - {i}) fs n"
    and "ids_split X (i # os) R live fs n \<Longrightarrow> ids_split X os R live (fs @ [i]) n"
    and "ids_split X (i # os) R live fs n \<Longrightarrow> ids_split X os (insert i R) live fs n"
    and "ids_split X os R live fs n \<Longrightarrow> i \<in> R \<Longrightarrow> ids_split X (i # os) (R - {i}) live fs n"
proof -
  assume "ids_split X os R live fs n" and "n \<noteq> - 1"
  with ids_ok_fetch [of "R \<union> X \<union> set os" live fs n] show "ids_split X (n # os) R live fs (n + 1)"
    by (simp add: ids_split_def)
qed (auto simp: ids_split_def ids_ok_def)

lemma ids_part_act:
  assumes "ids_part X (act_owned a @ os) R s" and "sh_room a s" and "sh_act c a s = (bs, s')"
  shows "ids_part X (owned bs @ os) (R \<union> sh_returned a) s'"
proof (cases a)
  case (Modify i f)
  with assms have "dom (sh_map s') = dom (sh_map s)" "bs = []" "sh_free_list s' = sh_free_list s" "sh_next_id s' = sh_next_id s"
    by (auto simp: insert_absorb domI split: option.splits if_splits)
  with Modify assms(1) show ?thesis by (simp add: ids_part_def sh_returned_def)
next
  case (Remove i)
  with assms ids_split_steps(4) [of X os R "dom (sh_map s)"] show ?thesis
    by (cases "sh_map s i") (auto simp: ids_part_def sh_returned_def domI)
qed (use assms in \<open>auto simp: ids_part_def sh_returned_def sh_room_def split: list.splits option.splits
  intro: ids_split_steps\<close>)

lemma ids_part_call:
  assumes "ids_part X [] R s" and "sh_taken x \<subseteq> R"
  shows "ids_part X (owned (sh_acts x)) (R - sh_taken x) s"
  using assms ids_split_steps(7) by (cases x) (auto simp: ids_part_def)

lemma sh_step_ids: "sh_step c ok a b \<Longrightarrow> sh_ids a \<Longrightarrow> sh_ids b"
proof (induction rule: sh_step.induct)
  case (call p t x R s)
  from spec [OF this(4) [unfolded sh_ids_def prod.case], of t]
  have "ids_part (owned_others t p) [] R s" by (simp add: call(1))
  from ids_part_call [OF this call(2)] sh_idsI [OF call(4)] show ?case by blast
next
  case (act p t a as s bs s' R)
  from spec [OF this(5) [unfolded sh_ids_def prod.case], of t]
  have "ids_part (owned_others t p) (act_owned a @ owned as) R s" by (simp add: act(1))
  from ids_part_act [OF this act(2,3)] sh_idsI [OF act(5), of t "bs @ as"] show ?case by simp
qed (simp_all add: sh_ids_def ids_part_def)

lemma sh_reach_ids: "sh_reach c ok a b \<Longrightarrow> sh_ids a \<Longrightarrow> sh_ids b"
  by (induction rule: sh_reach.induct) (auto intro: sh_step_ids)

lemma sh_ids_start:
  assumes "ids_ok {} (dom (sh_map s)) (sh_free_list s) (sh_next_id s)"
  shows "sh_ids (s, idle, {})"
  using assms by (simp add: sh_ids_def ids_part_def ids_split_def owned_others_def)

lemma sh_ids_disjoint:
  assumes "sh_ids (s, p, R)"
  shows "distinct (sh_free_list s) \<and> set (sh_free_list s) \<inter> dom (sh_map s) = {} \<and>
    R \<inter> (dom (sh_map s) \<union> set (sh_free_list s)) = {} \<and>
    (\<forall>t. distinct (owned (p t)) \<and> set (owned (p t)) \<inter> (dom (sh_map s) \<union> set (sh_free_list s) \<union> R) = {}) \<and>
    (\<forall>t u. t = u \<or> set (owned (p t)) \<inter> set (owned (p u)) = {})"
proof -
  have part: "ids_split (owned_others t p) (owned (p t)) R (dom (sh_map s)) (sh_free_list s) (sh_next_id s)" for t
    using assms by (simp add: sh_ids_def ids_part_def)
  have "distinct (sh_free_list s) \<and> set (sh_free_list s) \<inter> dom (sh_map s) = {} \<and>
      R \<inter> (dom (sh_map s) \<union> set (sh_free_list s)) = {}"
    using part [of 0] unfolding ids_split_def ids_ok_def by blast
  moreover have "distinct (owned (p t)) \<and> set (owned (p t)) \<inter> (dom (sh_map s) \<union> set (sh_free_list s) \<union> R) = {}" for t
    using part [of t] unfolding ids_split_def ids_ok_def by blast
  moreover have "t = u \<or> set (owned (p t)) \<inter> set (owned (p u)) = {}" for t u
    using part [of t] unfolding ids_split_def owned_others_def by blast
  ultimately show ?thesis by blast
qed

section \<open>Lemmas: the count of free identifiers\<close>

text \<open>
  The updates of \<open>free_count\<close> that are due: plus one for a pop not yet subtracted, minus one for a
  push (or one that is to come) not yet added.
\<close>

definition act_due :: "'v act \<Rightarrow> u64" where
  "act_due a = (case a of Uncount i mk \<Rightarrow> 1 | Push i \<Rightarrow> 1 | Count \<Rightarrow> - 1 | _ \<Rightarrow> 0)"

definition due :: "'v act list \<Rightarrow> u64" where
  "due as = sum_list (map act_due as)"

lemma due_simps [simp]: "due [] = 0" "due (a # as) = act_due a + due as" "due (as @ bs) = due as + due bs"
  by (simp_all add: due_def)

lemma due_use [simp]: "due (sh_use i mk) = 0"
  by (simp add: sh_use_def act_due_def split: option.split)

lemma due_acts [simp]: "due (sh_acts x) = 0"
  by (cases x) (simp_all add: act_due_def)

lemma sh_act_due:
  assumes "sh_act c a s = (bs, s')"
  shows "sh_free_count s' - of_nat (length (sh_free_list s')) - due bs =
    sh_free_count s - of_nat (length (sh_free_list s)) - act_due a"
  using assms by (cases a) (auto simp: act_due_def split: list.splits option.splits)

definition sh_counted :: "'v race \<Rightarrow> bool" where
  "sh_counted st = (case st of (s, p, R) \<Rightarrow> \<forall>T. finite T \<longrightarrow> (\<forall>t. t \<notin> T \<longrightarrow> p t = []) \<longrightarrow>
     sh_free_count s = of_nat (length (sh_free_list s)) + (\<Sum>t\<in>T. due (p t)))"

lemma sh_counted_upd:
  assumes "sh_counted (s, p, R)"
    and "sh_free_count s' - of_nat (length (sh_free_list s')) - due as =
      sh_free_count s - of_nat (length (sh_free_list s)) - due (p t)"
  shows "sh_counted (s', p(t := as), R')"
  unfolding sh_counted_def prod.case
proof (intro allI impI)
  fix T assume T: "finite T" "\<forall>u. u \<notin> T \<longrightarrow> (p(t := as)) u = []"
  let ?T = "insert t T"
  have "\<forall>u. u \<notin> ?T \<longrightarrow> p u = []" using T(2) by (metis fun_upd_other insertCI)
  then have old: "sh_free_count s = of_nat (length (sh_free_list s)) + (\<Sum>u\<in>?T. due (p u))"
    using assms(1) T(1) by (simp add: sh_counted_def)
  have "(\<Sum>u\<in>?T. due (p u)) = due (p t) + (\<Sum>u\<in>?T - {t}. due (p u))"
    using T(1) by (intro sum.remove) simp_all
  moreover have "(\<Sum>u\<in>?T. due ((p(t := as)) u)) = due as + (\<Sum>u\<in>?T - {t}. due ((p(t := as)) u))"
    using T(1) by (subst sum.remove [of _ t]) simp_all
  moreover have "(\<Sum>u\<in>?T - {t}. due ((p(t := as)) u)) = (\<Sum>u\<in>?T - {t}. due (p u))"
    by (rule sum.cong) auto
  moreover have "(\<Sum>u\<in>T. due ((p(t := as)) u)) = (\<Sum>u\<in>?T. due ((p(t := as)) u))"
    using T by (cases "t \<in> T") (auto simp: insert_absorb)
  ultimately show "sh_free_count s' = of_nat (length (sh_free_list s')) + (\<Sum>u\<in>T. due ((p(t := as)) u))"
    using old assms(2) by (simp add: algebra_simps)
qed

lemma sh_step_counted: "sh_step c ok a b \<Longrightarrow> sh_counted a \<Longrightarrow> sh_counted b"
proof (induction rule: sh_step.induct)
  case (call p t x R s)
  show ?case by (rule sh_counted_upd [OF call(4)]) (simp add: call(1))
next
  case (act p t a as s bs s' R)
  show ?case
    by (rule sh_counted_upd [OF act(5)]) (use sh_act_due [OF act(3)] act(1) in \<open>simp add: algebra_simps\<close>)
qed (simp_all add: sh_counted_def)

lemma sh_reach_counted: "sh_reach c ok a b \<Longrightarrow> sh_counted a \<Longrightarrow> sh_counted b"
  by (induction rule: sh_reach.induct) (auto intro: sh_step_counted)

lemma sh_counted_start: "sh_free_count s = of_nat (length (sh_free_list s)) \<Longrightarrow> sh_counted (s, idle, R)"
  by (simp add: sh_counted_def)

section \<open>Lemmas: the log\<close>

text \<open>The accesses that a call has left, at any point of it.\<close>

definition act_last :: "'v act \<Rightarrow> bool" where
  "act_last a = (case a of Store i v \<Rightarrow> False | SendDelete i \<Rightarrow> False | Push i \<Rightarrow> False | _ \<Rightarrow> True)"

definition sh_shape :: "'v act list \<Rightarrow> bool" where
  "sh_shape as \<longleftrightarrow> as = [] \<or> (\<exists>a. as = [a] \<and> act_last a) \<or> (\<exists>i v. as = [Store i v, Send i v]) \<or>
     (\<exists>i. as = [SendDelete i, Remove i]) \<or> (\<exists>i. as = [Push i, Count])"

text \<open>
  \<open>m\<close> is the memory and \<open>l\<close> what replaying the log would give. They agree except under the keys of calls
  that have done one of their two halves.
\<close>

definition sh_agree :: "'v threads \<Rightarrow> (u64 \<rightharpoonup> 'v) \<Rightarrow> (u64 \<rightharpoonup> 'v) \<Rightarrow> bool" where
  "sh_agree p m l \<longleftrightarrow>
     (\<forall>t i v. p t = [Send i v] \<longrightarrow> m i = Some v) \<and> (\<forall>t i. p t = [Remove i] \<longrightarrow> l i = None) \<and>
     (\<forall>i. m i = l i \<or> (\<exists>t v. p t = [Send i v]) \<or> (\<exists>t. p t = [Remove i]))"

abbreviation sh_logged :: "'v codec \<Rightarrow> 'v shared_store \<Rightarrow> 'v shared_store \<Rightarrow> bool" where
  "sh_logged c \<equiv> logged sh_map sh_wal (kv_apply c)"

definition sh_inv :: "'v codec \<Rightarrow> 'v shared_store \<Rightarrow> 'v race \<Rightarrow> bool" where
  "sh_inv c s0 st = (case st of (s, p, R) \<Rightarrow> sh_apart p \<and> (\<forall>t. sh_shape (p t)) \<and>
     (\<exists>l. sh_agree p (sh_map s) l \<and> sh_logged c s0 (s\<lparr>sh_map := l\<rparr>)))"

lemma act_keys_simps [simp]:
  "act_keys [] = {}" "act_keys (a # as) = act_key a \<union> act_keys as"
  "act_key (Store i v) = {i}" "act_key (Send i v) = {i}" "act_key (SendDelete i) = {i}" "act_key (Remove i) = {i}"
  "act_key (Modify i f) = {i}" "act_key (Pop mk) = {}" "act_key (Fetch mk) = {}" "act_key (Uncount i mk) = {}"
  "act_key (Push i) = {}" "act_key Count = {}" "act_key (Return i) = {}"
  by (simp_all add: act_keys_def act_key_def)

text \<open>What an access does to the memory (\<open>m\<close>) and to the log (\<open>l\<close>).\<close>

definition act_mem :: "'v act \<Rightarrow> (u64 \<rightharpoonup> 'v) \<Rightarrow> (u64 \<rightharpoonup> 'v)" where
  "act_mem a m = (case a of Store i v \<Rightarrow> m(i \<mapsto> v) | Remove i \<Rightarrow> m(i := None) | Modify i f \<Rightarrow> m(i := map_option f (m i)) | _ \<Rightarrow> m)"

definition act_log :: "'v act \<Rightarrow> (u64 \<rightharpoonup> 'v) \<Rightarrow> (u64 \<rightharpoonup> 'v) \<Rightarrow> (u64 \<rightharpoonup> 'v)" where
  "act_log a m l = (case a of Send i v \<Rightarrow> l(i \<mapsto> v) | SendDelete i \<Rightarrow> l(i := None)
     | Modify i f \<Rightarrow> (case m i of Some v \<Rightarrow> l(i \<mapsto> f v) | None \<Rightarrow> l) | _ \<Rightarrow> l)"

lemma sh_act_map: "sh_act c a s = (bs, s') \<Longrightarrow> sh_map s' = act_mem a (sh_map s)"
  by (cases a) (auto simp: act_mem_def fun_upd_idem split: list.splits option.splits)

lemma sh_act_logged:
  assumes "sh_act c a s = (bs, s')" and "codec_ok c"
  shows "sh_logged c (s\<lparr>sh_map := l\<rparr>) (s'\<lparr>sh_map := act_log a (sh_map s) l\<rparr>)"
proof (cases a)
  case (Send i v)
  with assms show ?thesis
    by (intro kv_logged_put [where i = i and v = v]) (auto simp: act_log_def sh_wal_insert_def)
next
  case (SendDelete i)
  with assms show ?thesis by (intro kv_logged_del [where i = i]) (auto simp: act_log_def)
next
  case (Modify i f)
  show ?thesis
  proof (cases "sh_map s i")
    case None
    with Modify assms show ?thesis by (auto simp: act_log_def intro!: logged_refl)
  next
    case (Some v)
    with Modify assms show ?thesis
      by (intro kv_logged_put [where i = i and v = "f v"]) (auto simp: act_log_def sh_wal_insert_def)
  qed
qed (use assms in \<open>auto simp: act_log_def split: list.splits option.splits intro!: logged_refl\<close>)

lemma sh_act_shape:
  assumes "sh_act c a s = (bs, s')" and "sh_shape (a # as)"
  shows "sh_shape (bs @ as)"
  using assms
  by (cases a) (auto simp: sh_shape_def act_last_def sh_use_def split: list.splits option.splits)

text \<open>The other threads are not concerned: their keys are different.\<close>

lemma sh_agree_upd:
  assumes "sh_agree p m l" and "sh_apart p"
    and "\<forall>i. i \<notin> act_keys (p t) \<longrightarrow> m' i = m i \<and> l' i = l i"
    and "\<And>i v. as = [Send i v] \<Longrightarrow> m' i = Some v" and "\<And>i. as = [Remove i] \<Longrightarrow> l' i = None"
    and "\<forall>i \<in> act_keys (p t). m' i = l' i \<or> (\<exists>v. as = [Send i v]) \<or> as = [Remove i]"
  shows "sh_agree (p(t := as)) m' l'"
proof -
  have other: "i \<notin> act_keys (p t)" if "u \<noteq> t" "i \<in> act_keys (p u)" for u i
    using assms(2) that unfolding sh_apart_def by blast
  have "m' i = Some v" if "(p(t := as)) u = [Send i v]" for u i v
  proof (cases "u = t")
    case False
    with that other [of u i] assms(1,3) show ?thesis by (auto simp: sh_agree_def)
  qed (use that assms(4) in simp)
  moreover have "l' i = None" if "(p(t := as)) u = [Remove i]" for u i
  proof (cases "u = t")
    case False
    with that other [of u i] assms(1,3) show ?thesis by (auto simp: sh_agree_def)
  qed (use that assms(5) in simp)
  moreover have "m' i = l' i \<or> (\<exists>u v. (p(t := as)) u = [Send i v]) \<or> (\<exists>u. (p(t := as)) u = [Remove i])" for i
  proof (cases "i \<in> act_keys (p t)")
    case True
    with assms(6) show ?thesis by (metis fun_upd_same)
  next
    case False
    with assms(1,3) consider "m' i = l' i" | u v where "p u = [Send i v]" "u \<noteq> t" | u where "p u = [Remove i]" "u \<noteq> t"
      unfolding sh_agree_def by (metis act_keys_simps(2,4,6) UnCI insertI1)
    then show ?thesis by cases (simp, (metis fun_upd_other)+)
  qed
  ultimately show ?thesis unfolding sh_agree_def by blast
qed

lemma sh_agree_act:
  assumes "sh_agree p m l" and "sh_apart p" and "sh_shape (p t)" and "p t = a # as"
    and "sh_act c a s = (bs, s')" and "m = sh_map s"
  shows "sh_agree (p(t := bs @ as)) (act_mem a m) (act_log a m l)"
proof (rule sh_agree_upd [OF assms(1,2)])
  have sem: "p t = [Send i v] \<Longrightarrow> m i = Some v" "p t = [Remove i] \<Longrightarrow> l i = None" for i v
    using assms(1) unfolding sh_agree_def by blast+
  have eq: "m i = l i" if "i \<in> act_keys (p t)" "p t \<noteq> [Remove i]" "\<forall>v. p t \<noteq> [Send i v]" for i
  proof -
    have "p u \<noteq> [Send i v] \<and> p u \<noteq> [Remove i]" if "u \<noteq> t" for u v
      using assms(2) that \<open>i \<in> act_keys (p t)\<close> unfolding sh_apart_def by fastforce
    with assms(1) that show ?thesis unfolding sh_agree_def by metis
  qed
  show "\<forall>i. i \<notin> act_keys (p t) \<longrightarrow> act_mem a m i = m i \<and> act_log a m l i = l i"
    unfolding assms(4) by (cases a) (auto simp: act_mem_def act_log_def split: option.split)
  show "act_mem a m i = Some v" if "bs @ as = [Send i v]" for i v
    using that assms(3-6) by (cases a) (auto simp: sh_shape_def act_last_def act_mem_def sh_use_def split: list.splits option.splits)
  show "act_log a m l i = None" if "bs @ as = [Remove i]" for i
    using that assms(3-6) by (cases a) (auto simp: sh_shape_def act_last_def act_log_def sh_use_def split: list.splits option.splits)
  show "\<forall>i\<in>act_keys (p t). act_mem a m i = act_log a m l i \<or> (\<exists>v. bs @ as = [Send i v]) \<or> bs @ as = [Remove i]"
    using sem eq assms(3-6)
    by (cases a) (auto simp: sh_shape_def act_last_def act_mem_def act_log_def sh_use_def split: list.splits option.splits)
qed

lemma sh_inv_act:
  assumes "sh_inv c s0 (s, p, R)" and "codec_ok c" and "p t = a # as" and "sh_act c a s = (bs, s')"
    and "sh_apart (p(t := bs @ as))"
  shows "sh_inv c s0 (s', p(t := bs @ as), R')"
proof -
  obtain l where l: "sh_agree p (sh_map s) l" "sh_logged c s0 (s\<lparr>sh_map := l\<rparr>)"
    and p: "sh_apart p" "\<And>u. sh_shape (p u)"
    using assms(1) by (auto simp: sh_inv_def)
  let ?l = "act_log a (sh_map s) l"
  have "sh_agree (p(t := bs @ as)) (sh_map s') ?l"
    using sh_agree_act [OF l(1) p assms(3,4) refl] sh_act_map [OF assms(4)] by simp
  moreover have "sh_logged c s0 (s'\<lparr>sh_map := ?l\<rparr>)"
    by (rule logged_trans [OF l(2) sh_act_logged [OF assms(4,2)]])
  moreover have "sh_shape ((p(t := bs @ as)) u)" for u
    using sh_act_shape [OF assms(4)] p(2) [of t] p(2) [of u] assms(3) by simp
  ultimately show ?thesis using assms(5) unfolding sh_inv_def prod.case by blast
qed

lemma sh_inv_call:
  assumes "sh_inv c s0 (s, p, R)" and "p t = []" and "sh_apart (p(t := sh_acts x))"
  shows "sh_inv c s0 (s, p(t := sh_acts x), R')"
proof -
  obtain l where l: "sh_agree p (sh_map s) l" "sh_logged c s0 (s\<lparr>sh_map := l\<rparr>)"
    and p: "sh_apart p" "\<And>u. sh_shape (p u)"
    using assms(1) by (auto simp: sh_inv_def)
  have "sh_agree (p(t := sh_acts x)) (sh_map s) l"
    by (rule sh_agree_upd [OF l(1) p(1)]) (cases x; simp add: assms(2))+
  moreover have "sh_shape ((p(t := sh_acts x)) u)" for u
    using p(2) by (cases x) (simp_all add: sh_shape_def act_last_def)
  ultimately show ?thesis using l(2) assms(3) unfolding sh_inv_def prod.case by blast
qed

lemma sh_inv_wal:
  assumes "sh_inv c s0 (s, p, R)" and "\<And>l. sh_logged c (s\<lparr>sh_map := l\<rparr>) (s'\<lparr>sh_map := l\<rparr>)" and "sh_map s' = sh_map s"
  shows "sh_inv c s0 (s', p, R)"
  using assms(1,3) logged_trans [OF _ assms(2)] unfolding sh_inv_def prod.case by metis

lemma sh_step_inv: "sh_step c sh_apart a b \<Longrightarrow> codec_ok c \<Longrightarrow> sh_inv c s0 a \<Longrightarrow> sh_inv c s0 b"
proof (induction rule: sh_step.induct)
  case (thread s p R now)
  show ?case by (rule sh_inv_wal [OF thread(2)]) (auto intro!: logged_thread)
next
  case (flush s p R now)
  show ?case by (rule sh_inv_wal [OF flush(2)]) (auto intro!: logged_flush)
qed (simp_all only: sh_inv_call sh_inv_act)

lemma sh_reach_inv: "sh_reach c sh_apart a b \<Longrightarrow> codec_ok c \<Longrightarrow> sh_inv c s0 a \<Longrightarrow> sh_inv c s0 b"
  by (induction rule: sh_reach.induct) (auto intro: sh_step_inv)

lemma sh_inv_start: "sh_inv c s (s, idle, R)"
  by (auto simp: sh_inv_def sh_apart_def sh_shape_def sh_agree_def intro!: exI [of _ "sh_map s"] logged_refl)

text \<open>When no call is under way, the memory is what the log says.\<close>

lemma sh_reach_logged:
  assumes "sh_reach c sh_apart (s0, idle, R0) (s, idle, R)" and "codec_ok c"
  shows "sh_logged c s0 s"
proof -
  have "sh_inv c s0 (s, idle, R)" by (rule sh_reach_inv [OF assms sh_inv_start])
  then obtain l where "sh_agree idle (sh_map s) l" "sh_logged c s0 (s\<lparr>sh_map := l\<rparr>)" by (auto simp: sh_inv_def)
  moreover from this(1) have "l = sh_map s" by (auto simp: sh_agree_def)
  ultimately show ?thesis by simp
qed

text \<open>Whatever calls overlap, the log is one that some contents would have.\<close>

lemma sh_step_any_logged:
  "sh_step c ok a b \<Longrightarrow> codec_ok c \<Longrightarrow> \<exists>l. sh_logged c ((fst a)\<lparr>sh_map := m\<rparr>) ((fst b)\<lparr>sh_map := l\<rparr>)"
proof (induction rule: sh_step.induct)
  case (act p t a as s bs s' R)
  then show ?case using sh_act_logged by fastforce
next
  case (call p t x R s)
  show ?case by (rule exI [of _ m]) (simp add: logged_refl)
next
  case (thread s p R now)
  show ?case by (rule exI [of _ m]) (auto intro!: logged_thread)
next
  case (flush s p R now)
  show ?case by (rule exI [of _ m]) (auto intro!: logged_flush)
qed

lemma sh_reach_any_logged:
  "sh_reach c ok a b \<Longrightarrow> codec_ok c \<Longrightarrow> \<exists>l. sh_logged c (fst a) ((fst b)\<lparr>sh_map := l\<rparr>)"
proof (induction rule: sh_reach.induct)
  case start
  show ?case by (intro exI [of _ "sh_map (fst a)"] logged_refl) simp_all
next
  case (step b d)
  then obtain m where m: "sh_logged c (fst a) ((fst b)\<lparr>sh_map := m\<rparr>)" by blast
  obtain l where "sh_logged c ((fst b)\<lparr>sh_map := m\<rparr>) ((fst d)\<lparr>sh_map := l\<rparr>)"
    using sh_step_any_logged [OF step(2,4)] by blast
  from logged_trans [OF m this] show ?case by blast
qed

text \<open>
  Such states of a store that recovers from its log. \<open>view\<close> is the part of the store that the calls share,
  \<open>put\<close> gives the store another content and log.
\<close>

locale overlapping_store = recoverable_store contents wal_of "kv_apply c" Map.empty exec opn checks now d cap good openable
  for contents :: "'s \<Rightarrow> u64 \<rightharpoonup> 'v" and wal_of and c :: "'v codec" and exec :: "'op \<Rightarrow> 's \<Rightarrow> 's" and opn checks now d cap good openable +
  fixes view :: "'s \<Rightarrow> 'v shared_store" and put :: "(u64 \<rightharpoonup> 'v) \<Rightarrow> wal_sys option \<Rightarrow> 's \<Rightarrow> 's"
  assumes view_map: "sh_map (view s) = contents s" and view_wal: "sh_wal (view s) = wal_of s"
    and put_contents: "contents (put m w s) = m" and put_wal: "wal_of (put m w s) = w"
begin

lemma view_logged: "sh_logged c (view s) t \<longleftrightarrow> logged contents wal_of (kv_apply c) s (put (sh_map t) (sh_wal t) s)"
  by (simp add: logged_def view_map view_wal put_contents put_wal)

lemma recover_view:
  assumes "opn bs = Ok s0" and "wal_base bs = fold encode_cmd cs WAL_MAGIC" and "sh_logged c (view s0) s"
    and "vec_capacity_ok (batch_bytes d)" and "d \<noteq> Async" and "sh_wal s = Some w"
    and "\<forall>r\<in>set (wal_recs (cs @ ws_sent w)). wal_fits r" and "openable (wal_recs (cs @ ws_sent w))"
  shows "\<exists>r. opn (durable (ws_file (wal_flush n w))) = Ok r \<and> contents r = sh_map s"
proof -
  have "logged contents wal_of (kv_apply c) s0 (put (sh_map s) (sh_wal s) s0)" using assms(3) by (simp add: view_logged)
  from recover_logged [OF assms(1,2) this assms(4,5) _ assms(7,8), of n] show ?thesis
    by (simp add: put_contents put_wal assms(6))
qed

lemma recover_overlapping:
  assumes "codec_ok c" and "opn bs = Ok s0" and "wal_base bs = fold encode_cmd cs WAL_MAGIC"
    and "vec_capacity_ok (batch_bytes d)" and "d \<noteq> Async"
    and "sh_reach c sh_apart (view s0, idle, {}) (s, idle, R)" and "sh_wal s = Some w"
    and "\<forall>r\<in>set (wal_recs (cs @ ws_sent w)). wal_fits r" and "openable (wal_recs (cs @ ws_sent w))"
  shows "\<exists>r. opn (durable (ws_file (wal_flush n w))) = Ok r \<and> contents r = sh_map s"
  by (rule recover_view [OF assms(2,3) sh_reach_logged [OF assms(6,1)] assms(4,5,7-9)])

lemma crash_overlapping:
  assumes "codec_ok c" and "opn bs = Ok s0" and "wal_base bs = fold encode_cmd cs WAL_MAGIC"
    and "vec_capacity_ok (batch_bytes d)" and "d \<noteq> Async"
    and "sh_reach c ok (view s0, idle, {}) (s, p, R)" and "sh_wal s = Some w"
    and "\<forall>r\<in>set (wal_recs (cs @ ws_sent w)). wal_fits r"
    and "prefix (durable (ws_file w)) f" and "prefix f (f_data (ws_file w) @ ws_buffer w)" and "opn f = Ok r"
  shows "\<exists>m. contents r = fold (kv_apply c) (take m (wal_recs (cs @ ws_sent w))) Map.empty \<and>
    (\<forall>t\<in>set (ws_acks w). \<exists>pre q post. ws_sent w = pre @ q # post \<and> q \<in> {Flush t, Shutdown t} \<and>
       length (wal_recs (cs @ pre)) \<le> m)"
proof -
  obtain l where "sh_logged c (view s0) (s\<lparr>sh_map := l\<rparr>)" using sh_reach_any_logged [OF assms(6,1)] by auto
  then have "logged contents wal_of (kv_apply c) s0 (put l (sh_wal s) s0)" by (simp add: view_logged)
  from crash_logged [OF assms(2,3) this assms(4,5) _ assms(8-11)] show ?thesis by (simp add: put_wal assms(7))
qed

end

interpretation nso: overlapping_store ns_nodes ns_wal c "ns_exec c" "\<lambda>bs. ns_open c checks now (file_of bs) k" checks now
  "durability k" "wal_channel_capacity k" "codec_ok c" no_max_id sh_node "\<lambda>m w s. s\<lparr>ns_nodes := m, ns_wal := w\<rparr>"
  by unfold_locales simp_all

interpretation eso: overlapping_store es_edges es_wal c "es_exec c" "\<lambda>bs. es_open c checks now (file_of bs) k" checks now
  "durability k" "wal_channel_capacity k" "codec_ok c" no_max_id sh_edge "\<lambda>m w s. s\<lparr>es_edges := m, es_wal := w\<rparr>"
  by unfold_locales simp_all

section \<open>Schedules\<close>

text \<open>
  A run in a given order: \<open>Begin t x\<close> lets thread \<open>t\<close> begin the call \<open>x\<close>, \<open>Go t\<close> lets it make its next
  access.
\<close>

datatype 'v turn = Begin nat "'v call" | Go nat

primrec sh_turn :: "'v codec \<Rightarrow> 'v turn \<Rightarrow> 'v race \<Rightarrow> 'v race" where
  "sh_turn c (Begin t x) st = (case st of (s, p, R) \<Rightarrow> (s, p(t := sh_acts x), R - sh_taken x))"
| "sh_turn c (Go t) st = (case st of (s, p, R) \<Rightarrow>
     (case p t of
       [] \<Rightarrow> (s, p, R)
     | a # as \<Rightarrow> (case sh_act c a s of (bs, s') \<Rightarrow> (s', p(t := bs @ as), R \<union> sh_returned a))))"

definition turn_ok :: "('v threads \<Rightarrow> bool) \<Rightarrow> 'v codec \<Rightarrow> 'v turn \<Rightarrow> 'v race \<Rightarrow> bool" where
  "turn_ok ok c x st = (case st of (s, p, R) \<Rightarrow> ok (fst (snd (sh_turn c x st))) \<and>
     (case x of
       Begin t y \<Rightarrow> p t = [] \<and> sh_taken y \<subseteq> R
     | Go t \<Rightarrow> p t \<noteq> [] \<and> sh_room (hd (p t)) s))"

primrec turns_ok :: "('v threads \<Rightarrow> bool) \<Rightarrow> 'v codec \<Rightarrow> 'v turn list \<Rightarrow> 'v race \<Rightarrow> bool" where
  "turns_ok ok c [] st = True"
| "turns_ok ok c (x # xs) st \<longleftrightarrow> turn_ok ok c x st \<and> turns_ok ok c xs (sh_turn c x st)"

lemma turn_step: "turn_ok ok c x st \<Longrightarrow> sh_step c ok st (sh_turn c x st)"
  by (cases x; cases st)
    (auto simp: turn_ok_def neq_Nil_conv split: prod.splits intro: sh_step.intros)

lemma turns_reach:
  assumes "turns_ok ok c xs st" and "sh_reach c ok st0 st"
  shows "sh_reach c ok st0 (fold (sh_turn c) xs st)"
  using assms
proof (induction xs arbitrary: st)
  case (Cons x xs)
  then have "sh_reach c ok st0 (sh_turn c x st)" by (simp add: sh_reach.step [OF _ turn_step])
  with Cons show ?case by simp
qed simp

lemma apart_two:
  assumes "\<And>t. t \<noteq> 0 \<Longrightarrow> t \<noteq> 1 \<Longrightarrow> p t = []"
  shows "sh_apart p \<longleftrightarrow> act_keys (p 0) \<inter> act_keys (p 1) = {}"
proof
  assume r: "act_keys (p 0) \<inter> act_keys (p 1) = {}"
  have "act_keys (p t) \<inter> act_keys (p u) = {}" if "t \<noteq> u" for t u
  proof (cases "t \<in> {0, 1} \<and> u \<in> {0, 1}")
    case True
    with r that show ?thesis by auto
  next
    case False
    then have "p t = [] \<or> p u = []" using assms by auto
    then show ?thesis by auto
  qed
  then show "sh_apart p" by (simp add: sh_apart_def)
qed (simp add: sh_apart_def)

text \<open>
  Two overlapping insertions into an empty store: memory is written by thread 0 first, the log by thread 1.
\<close>

definition overlap_turns :: "node turn list" where
  "overlap_turns = [Begin 0 (InsertNew (\<lambda>i. node_new i [1] 0 1)), Go 0, Go 0, Go 0,
     Begin 1 (InsertNew (\<lambda>i. node_new i [2] 0 1)), Go 1, Go 1, Go 1, Go 1, Go 0]"

lemma overlap_turns_ok:
  assumes "sh_free_list s = []" and "sh_next_id s = 0"
  shows "turns_ok sh_apart c overlap_turns (s, idle, {})"
  using assms by (simp add: overlap_turns_def turn_ok_def sh_room_def sh_use_def apart_two)

lemma overlap_turns_idle:
  assumes "sh_free_list s = []" and "sh_next_id s = 0"
  shows "\<exists>s' R. fold (sh_turn c) overlap_turns (s, idle, {}) = (s', idle, R)"
  using assms by (simp add: overlap_turns_def sh_use_def fun_eq_iff)

definition overlap_final :: "node shared_store" where
  "overlap_final = fst (fold (sh_turn node_example_codec) overlap_turns (sh_node node_example, idle, {}))"

definition overlap_wal :: wal_sys where
  "overlap_wal = (case sh_wal overlap_final of Some w \<Rightarrow> w | None \<Rightarrow> wal_example)"

lemma node_example_ids: "ns_free_list node_example = []" "ns_next_id node_example = 0"
  by code_simp+

lemma overlap_reach:
  "\<exists>R. sh_reach node_example_codec sh_apart (sh_node node_example, idle, {}) (overlap_final, idle, R)"
proof -
  have e: "sh_free_list (sh_node node_example) = []" "sh_next_id (sh_node node_example) = 0"
    by (simp_all add: node_example_ids)
  from overlap_turns_idle [OF e, of node_example_codec] obtain s R
    where f: "fold (sh_turn node_example_codec) overlap_turns (sh_node node_example, idle, {}) = (s, idle, R)" by blast
  then have "s = overlap_final" by (simp add: overlap_final_def)
  with turns_reach [OF overlap_turns_ok [OF e] sh_reach.start] f show ?thesis by metis
qed

lemma overlap_run_1: "sh_wal overlap_final = Some overlap_wal"
  by code_simp

lemma overlap_run_2: "\<forall>r\<in>set (wal_recs ([] @ ws_sent overlap_wal)). wal_fits r"
  by code_simp

lemma overlap_run_3: "no_max_id (wal_recs ([] @ ws_sent overlap_wal))"
  by code_simp

text \<open>The WAL thread then writes the record that it received first, that of thread 1, and the machine fails.\<close>

definition overlap_crashed :: "node shared_store" where
  "overlap_crashed = overlap_final\<lparr>sh_wal := map_option (wal_loop_iter 0) (sh_wal overlap_final)\<rparr>"

definition overlap_crash_wal :: wal_sys where
  "overlap_crash_wal = wal_loop_iter 0 overlap_wal"

definition overlap_reopened :: node_store where
  "overlap_reopened =
     (case ns_open node_example_codec False 0 (file_of (durable (ws_file overlap_crash_wal))) consistency_immediate of
       Ok s \<Rightarrow> s | _ \<Rightarrow> ns_new)"

lemma overlap_crash_reach:
  "\<exists>R. sh_reach node_example_codec sh_apart (sh_node node_example, idle, {}) (overlap_crashed, idle, R)"
proof -
  obtain R where "sh_reach node_example_codec sh_apart (sh_node node_example, idle, {}) (overlap_final, idle, R)"
    using overlap_reach by blast
  from sh_reach.step [OF this sh_step.thread] show ?thesis unfolding overlap_crashed_def by blast
qed

lemma overlap_crash_1: "sh_wal overlap_crashed = Some overlap_crash_wal"
  by (simp add: overlap_crashed_def overlap_run_1 overlap_crash_wal_def)

lemma overlap_crash_2: "\<forall>r\<in>set (wal_recs ([] @ ws_sent overlap_crash_wal)). wal_fits r"
  by code_simp

lemma overlap_crash_3: "prefix (durable (ws_file overlap_crash_wal)) (f_data (ws_file overlap_crash_wal) @ ws_buffer overlap_crash_wal)"
  by (rule durable_prefix)

lemma overlap_crash_4: "ns_open node_example_codec False 0 (file_of (durable (ws_file overlap_crash_wal))) consistency_immediate =
     Ok overlap_reopened"
  by code_simp

lemma overlap_crash_5: "ns_nodes overlap_reopened 0 = None"
  by code_simp

lemma overlap_crash_6: "map_option n_labels (ns_nodes overlap_reopened 1) = Some [2]"
  by code_simp

text \<open>
  An insertion by thread 0 and, between its two halves, a change of the new entry by thread 1.
\<close>

definition race_turns :: "u64 \<Rightarrow> (u64 \<Rightarrow> 'v) \<Rightarrow> ('v \<Rightarrow> 'v) \<Rightarrow> 'v turn list" where
  "race_turns i f g = [Begin 0 (InsertNew f), Go 0, Go 0, Go 0, Begin 1 (Change i g), Go 1, Go 0]"

definition sh_first_id :: "'v shared_store \<Rightarrow> u64" where
  "sh_first_id s = (case sh_free_list s of [] \<Rightarrow> sh_next_id s | i # rest \<Rightarrow> i)"

lemma sh_first_id_node: "sh_first_id (sh_node s) = fst (ns_alloc_id s)"
  by (simp add: sh_first_id_def ns_alloc_id_def split: list.split)

lemma sh_wal_insert_wal: "sh_wal s = sh_wal t \<Longrightarrow> sh_wal (sh_wal_insert c i v s) = sh_wal (sh_wal_insert c i v t)"
  by (simp add: sh_wal_insert_def split: option.split)

lemma race_turns_final:
  assumes "sh_next_id s \<noteq> - 1" and i: "sh_first_id s = i"
  shows "turns_ok (\<lambda>_. True) c (race_turns i f g) (s, idle, {})"
    and "\<exists>s'. fold (sh_turn c) (race_turns i f g) (s, idle, {}) = (s', idle, {}) \<and>
      sh_map s' = (sh_map s)(i \<mapsto> g (f i)) \<and>
      sh_wal s' = sh_wal (sh_wal_insert c i (f i) (sh_wal_insert c i (g (f i)) s))"
proof -
  have "turns_ok (\<lambda>_. True) c (race_turns i f g) (s, idle, {}) \<and>
    (\<exists>s'. fold (sh_turn c) (race_turns i f g) (s, idle, {}) = (s', idle, {}) \<and>
      sh_map s' = (sh_map s)(i \<mapsto> g (f i)) \<and>
      sh_wal s' = sh_wal (sh_wal_insert c i (f i) (sh_wal_insert c i (g (f i)) s)))"
  proof (cases "sh_free_list s")
    case Nil
    with assms show ?thesis
      by (auto simp: race_turns_def turn_ok_def sh_room_def sh_use_def sh_returned_def sh_first_id_def fun_eq_iff
          intro!: sh_wal_insert_wal)
  next
    case (Cons j rest)
    with assms show ?thesis
      by (auto simp: race_turns_def turn_ok_def sh_room_def sh_use_def sh_returned_def sh_first_id_def fun_eq_iff
          intro!: sh_wal_insert_wal)
  qed
  then show "turns_ok (\<lambda>_. True) c (race_turns i f g) (s, idle, {})"
    and "\<exists>s'. fold (sh_turn c) (race_turns i f g) (s, idle, {}) = (s', idle, {}) \<and>
      sh_map s' = (sh_map s)(i \<mapsto> g (f i)) \<and>
      sh_wal s' = sh_wal (sh_wal_insert c i (f i) (sh_wal_insert c i (g (f i)) s))" by blast+
qed

lemma sh_twice_logged:
  assumes "codec_ok c" and "sh_wal s' = sh_wal (sh_wal_insert c i v (sh_wal_insert c i v' s))"
  shows "sh_logged c s (s'\<lparr>sh_map := (sh_map s)(i \<mapsto> v)\<rparr>)"
proof -
  let ?t = "(sh_wal_insert c i v' s)\<lparr>sh_map := (sh_map s)(i \<mapsto> v')\<rparr>"
  have "sh_logged c s ?t"
    by (rule kv_logged_put [OF assms(1), where i = i and v = v']) (simp_all add: sh_wal_insert_def)
  moreover have "sh_logged c ?t (s'\<lparr>sh_map := (sh_map s)(i \<mapsto> v)\<rparr>)"
    by (rule kv_logged_put [OF assms(1), where i = i and v = v]) (simp_all add: assms(2) sh_wal_insert_def)
  ultimately show ?thesis by (rule logged_trans)
qed

lemma race_example_ser:
  "ser node_example_codec n = Some (the (ser node_example_codec n))"
  using codec_okD [OF node_example_codec_ok] by (metis option.sel)

lemma race_example_len_1: "length (the (ser node_example_codec (node_new 0 [1] 0 1))) < 2 ^ 32 - 9"
  by code_simp

lemma race_example_len_2: "length (the (ser node_example_codec ((node_new 0 [1] 0 1)\<lparr>n_deleted_tx := 3\<rparr>))) < 2 ^ 32 - 9"
  by code_simp

lemmas race_example_len = race_example_len_1 race_example_len_2

text \<open>
  A hard deletion by thread 0 up to its last access, and the two accesses of an allocation by thread 1 that
  takes the identifier again.
\<close>

definition count_turns :: "node turn list" where
  "count_turns = [Begin 0 (HardDelete 0), Go 0, Go 0, Go 0, Begin 1 (InsertNew (\<lambda>i. node_new i [2] 0 1)), Go 1, Go 1]"

lemma count_turns_ok:
  "turns_ok (\<lambda>_. True) c count_turns (sh_node node_example_one, idle, {})"
  by (simp add: count_turns_def turn_ok_def sh_room_def sh_use_def node_example_one_def ns_new_def)

lemma count_turns_final:
  "\<exists>s p R. fold (sh_turn c) count_turns (sh_node node_example_one, idle, {}) = (s, p, R) \<and>
    sh_free_list s = [] \<and> p 0 = [Count] \<and> due (p 1) = 0 \<and> (\<forall>t. t \<notin> {0, 1} \<longrightarrow> p t = [])"
  by (simp add: count_turns_def sh_use_def node_example_one_def ns_new_def act_due_def)

section \<open>Properties\<close>

text \<open>
  C9. Calls on different nodes may overlap in any way: from a freshly opened store, let any number of threads
  allocate, insert, update, soft and hard delete, their accesses to memory, free list, counters and log
  interleaved with each other, with the WAL thread and with flushes, no two of them on one node at the same
  time. When none is under way, a flush makes a file from which opening rebuilds exactly the nodes in memory.
\<close>

theorem node_overlap_recovery:
  assumes "codec_ok c" and "ns_open c checks now (file_of bs) k = Ok s0"
    and "wal_base bs = fold encode_cmd cs WAL_MAGIC"
    and "vec_capacity_ok (batch_bytes (durability k))" and "durability k \<noteq> Async"
    and "sh_reach c sh_apart (sh_node s0, idle, {}) (s, idle, R)" and "sh_wal s = Some w"
    and "\<forall>r\<in>set (wal_recs (cs @ ws_sent w)). wal_fits r" and "no_max_id (wal_recs (cs @ ws_sent w))"
  shows "\<exists>r. ns_open c checks now (file_of (durable (ws_file (wal_flush n w)))) k = Ok r \<and> ns_nodes r = sh_map s"
  by (rule nso.recover_overlapping [OF assms])

theorem node_overlap_recovery_witness:
  "\<exists>r. ns_open node_example_codec False 0 (file_of (durable (ws_file (wal_flush 0 overlap_wal)))) consistency_immediate = Ok r \<and>
    ns_nodes r = sh_map overlap_final"
proof -
  obtain R where "sh_reach node_example_codec sh_apart (sh_node node_example, idle, {}) (overlap_final, idle, R)"
    using overlap_reach by blast
  from node_overlap_recovery [OF node_example_codec_ok node_example_open node_example_run(6,4,5) this
      overlap_run_1 overlap_run_2 overlap_run_3] show ?thesis .
qed

text \<open>
  C19. A crash at any point of any interleaving, also between the halves of calls and of calls on one node: whatever
  part of the unsynced bytes reached the file, if the store opens afterwards its nodes are those of an initial run
  of the records sent, in the order sent, and the run includes every record sent before a flush that was answered.
\<close>

theorem node_overlap_crash:
  assumes "codec_ok c" and "ns_open c checks now (file_of bs) k = Ok s0"
    and "wal_base bs = fold encode_cmd cs WAL_MAGIC"
    and "vec_capacity_ok (batch_bytes (durability k))" and "durability k \<noteq> Async"
    and "sh_reach c ok (sh_node s0, idle, {}) (s, p, R)" and "sh_wal s = Some w"
    and "\<forall>r\<in>set (wal_recs (cs @ ws_sent w)). wal_fits r"
    and "prefix (durable (ws_file w)) f" and "prefix f (f_data (ws_file w) @ ws_buffer w)"
    and "ns_open c checks now (file_of f) k = Ok r"
  shows "\<exists>m. ns_nodes r = fold (kv_apply c) (take m (wal_recs (cs @ ws_sent w))) Map.empty \<and>
    (\<forall>t\<in>set (ws_acks w). \<exists>pre q post. ws_sent w = pre @ q # post \<and> q \<in> {Flush t, Shutdown t} \<and>
       length (wal_recs (cs @ pre)) \<le> m)"
  by (rule nso.crash_overlapping [OF assms])

theorem node_overlap_crash_witness:
  "\<exists>m. ns_nodes overlap_reopened =
     fold (kv_apply node_example_codec) (take m (wal_recs ([] @ ws_sent overlap_crash_wal))) Map.empty \<and>
     ns_nodes overlap_reopened 0 = None \<and> map_option n_labels (ns_nodes overlap_reopened 1) = Some [2]"
proof -
  obtain R where "sh_reach node_example_codec sh_apart (sh_node node_example, idle, {}) (overlap_crashed, idle, R)"
    using overlap_crash_reach by blast
  from node_overlap_crash [OF node_example_codec_ok node_example_open node_example_run(6,4,5) this
      overlap_crash_1 overlap_crash_2 prefix_order.refl overlap_crash_3 overlap_crash_4] overlap_crash_5 overlap_crash_6
  show ?thesis by blast
qed

text \<open>The same for edges: allocation, insertion, soft and hard deletion.\<close>

theorem edge_overlap_recovery:
  assumes "codec_ok c" and "es_open c checks now (file_of bs) k = Ok s0"
    and "wal_base bs = fold encode_cmd cs WAL_MAGIC"
    and "vec_capacity_ok (batch_bytes (durability k))" and "durability k \<noteq> Async"
    and "sh_reach c sh_apart (sh_edge s0, idle, {}) (s, idle, R)" and "sh_wal s = Some w"
    and "\<forall>r\<in>set (wal_recs (cs @ ws_sent w)). wal_fits r" and "no_max_id (wal_recs (cs @ ws_sent w))"
  shows "\<exists>r. es_open c checks now (file_of (durable (ws_file (wal_flush n w)))) k = Ok r \<and> es_edges r = sh_map s"
  by (rule eso.recover_overlapping [OF assms])

text \<open>
  C10. Identifiers are never shared, however calls overlap. The start is a store in which the stored and the free
  identifiers are sound (\<open>ns_ids_inv\<close>): a new store is, and a reopened one if and only if its log
  inserts under none of the identifiers that it freed. Let any number of threads run allocations, insertions,
  deletions and updates, also on the same nodes, where \<open>insert_with_id\<close> is called with an identifier that \<open>alloc_id\<close>
  handed out, and identifiers do not run out. At every moment the free list has no duplicates and no stored
  identifier; the identifiers that callers hold (\<open>R\<close>) are neither stored nor free; and the identifiers that a thread
  has taken and not yet passed on are neither stored, nor free, nor held by a caller, nor taken by another thread.
\<close>

theorem node_overlap_ids:
  assumes "ns_ids_inv {} s0" and "sh_reach c ok (sh_node s0, idle, {}) (s, p, R)"
  shows "distinct (sh_free_list s) \<and> set (sh_free_list s) \<inter> dom (sh_map s) = {} \<and>
    R \<inter> (dom (sh_map s) \<union> set (sh_free_list s)) = {} \<and>
    (\<forall>t. distinct (owned (p t)) \<and> set (owned (p t)) \<inter> (dom (sh_map s) \<union> set (sh_free_list s) \<union> R) = {}) \<and>
    (\<forall>t u. t = u \<or> set (owned (p t)) \<inter> set (owned (p u)) = {})"
proof -
  have "sh_ids (s, p, R)"
    using sh_reach_ids [OF assms(2) sh_ids_start] assms(1) by (simp add: ns_ids_inv_def)
  then show ?thesis by (rule sh_ids_disjoint)
qed

theorem node_overlap_ids_witness:
  "\<exists>s p. sh_reach node_example_codec (\<lambda>_. True) (sh_node (ns_with_capacity 8), idle, {}) (s, p, {}) \<and>
     0 \<in> set (owned (p 0)) \<and> 0 \<notin> set (owned (p 1)) \<and> 0 \<notin> dom (sh_map s)"
proof -
  let ?f = "\<lambda>i. node_new i [1] 0 1"
  let ?xs = "[Begin 0 (InsertNew ?f), Begin 1 (InsertNew ?f), Go 0, Go 1, Go 0, Go 1]"
  let ?a = "(sh_node (ns_with_capacity 8), idle, {})"
  have ok: "turns_ok (\<lambda>_. True) node_example_codec ?xs ?a"
    by (simp add: turn_ok_def sh_room_def sh_use_def ns_with_capacity_def)
  have "\<exists>s p. fold (sh_turn node_example_codec) ?xs ?a = (s, p, {}) \<and> 0 \<in> set (owned (p 0))"
    by (simp add: sh_use_def ns_with_capacity_def sh_returned_def)
  then obtain s p where f: "fold (sh_turn node_example_codec) ?xs ?a = (s, p, {})" "0 \<in> set (owned (p 0))" by blast
  have r: "sh_reach node_example_codec (\<lambda>_. True) ?a (s, p, {})"
    using turns_reach [OF ok sh_reach.start] f(1) by simp
  have "ns_ids_inv {} (ns_with_capacity 8)" by (simp add: ns_ids_inv_def ids_ok_def ns_with_capacity_def)
  note ids = node_overlap_ids [OF this r]
  then have "(0 :: nat) = 1 \<or> set (owned (p 0)) \<inter> set (owned (p 1)) = {}"
    and "set (owned (p 0)) \<inter> (dom (sh_map s) \<union> set (sh_free_list s) \<union> {}) = {}" by blast+
  with f(2) have "0 \<notin> set (owned (p 1))" "0 \<notin> dom (sh_map s)" by auto
  with r f(2) show ?thesis by blast
qed

text \<open>
  C31. The count of free identifiers is exact up to the updates that are due: at every moment of any
  interleaving \<open>free_count\<close> is the length of the free list, plus one for every thread that has popped and not yet
  subtracted, minus one for every thread that has pushed and not yet added, modulo \<open>2 ^ 64\<close>. When no call is under
  way it is the length; in between it can be below zero, which \<open>free_count()\<close> reads as \<open>u64::MAX\<close>.
\<close>

theorem node_overlap_free_count:
  assumes "ns_free_count s0 = of_nat (length (ns_free_list s0))"
    and "sh_reach c ok (sh_node s0, idle, {}) (s, p, R)" and "finite T" and "\<forall>t. t \<notin> T \<longrightarrow> p t = []"
  shows "sh_free_count s = of_nat (length (sh_free_list s)) + (\<Sum>t\<in>T. due (p t))"
  using sh_reach_counted [OF assms(2) sh_counted_start] assms(1,3,4) by (simp add: sh_counted_def)

theorem node_overlap_free_count_witness:
  "\<exists>s p R. sh_reach node_example_codec (\<lambda>_. True) (sh_node node_example_one, idle, {}) (s, p, R) \<and>
     sh_free_list s = [] \<and> sh_free_count s = - 1"
proof -
  obtain s p R where f: "fold (sh_turn node_example_codec) count_turns (sh_node node_example_one, idle, {}) = (s, p, R)"
    "sh_free_list s = []" "p 0 = [Count]" "due (p 1) = 0" "\<forall>t. t \<notin> {0, 1} \<longrightarrow> p t = []"
    using count_turns_final by blast
  have r: "sh_reach node_example_codec (\<lambda>_. True) (sh_node node_example_one, idle, {}) (s, p, R)"
    using turns_reach [OF count_turns_ok sh_reach.start] f(1) by metis
  have "ns_free_count node_example_one = of_nat (length (ns_free_list node_example_one))"
    by (simp add: node_example_one_def ns_new_def)
  from node_overlap_free_count [OF this r _ f(5)] f(2-4) have "sh_free_count s = - 1" by (simp add: act_due_def)
  with r f(2) show ?thesis by blast
qed

text \<open>
  C33. Calls on one node must not overlap: \<open>insert_node\<close> makes the node visible before it logs it. A thread that
  finds the node and soft-deletes it in between has its record written first, so that everybody sees the node
  deleted and a restart brings it back as it was inserted.
\<close>

theorem node_insert_delete_race:
  assumes "codec_ok c" and "ns_open c checks now (file_of bs) k = Ok s0"
    and "wal_base bs = fold encode_cmd cs WAL_MAGIC"
    and "vec_capacity_ok (batch_bytes (durability k))" and "durability k \<noteq> Async"
    and "ns_next_id s0 \<noteq> - 1" and "fst (ns_alloc_id s0) = i" and "i \<noteq> - 1"
    and "\<forall>r\<in>set (wal_recs cs). wal_fits r" and "no_max_id (wal_recs cs)"
    and "ser c (node_new i labels row tx) = Some b" and "length b < 2 ^ 32 - 9"
    and "ser c ((node_new i labels row tx)\<lparr>n_deleted_tx := td\<rparr>) = Some b'" and "length b' < 2 ^ 32 - 9"
  shows "\<exists>s w r. sh_reach c (\<lambda>_. True) (sh_node s0, idle, {}) (s, idle, {}) \<and>
    sh_map s i = Some ((node_new i labels row tx)\<lparr>n_deleted_tx := td\<rparr>) \<and> sh_wal s = Some w \<and>
    ns_open c checks now (file_of (durable (ws_file (wal_flush n w)))) k = Ok r \<and>
    ns_nodes r i = Some (node_new i labels row tx)"
proof -
  let ?f = "\<lambda>i. node_new i labels row tx" and ?g = "\<lambda>n. n\<lparr>n_deleted_tx := td\<rparr>"
  have first: "sh_first_id (sh_node s0) = i" "sh_next_id (sh_node s0) \<noteq> - 1"
    by (simp_all add: sh_first_id_node assms(6,7))
  from race_turns_final(2) [OF first(2,1), of c ?f ?g] obtain s
    where s: "fold (sh_turn c) (race_turns i ?f ?g) (sh_node s0, idle, {}) = (s, idle, {})"
      "sh_map s = (ns_nodes s0)(i \<mapsto> ?g (?f i))"
      "sh_wal s = sh_wal (sh_wal_insert c i (?f i) (sh_wal_insert c i (?g (?f i)) (sh_node s0)))" by auto
  have r: "sh_reach c (\<lambda>_. True) (sh_node s0, idle, {}) (s, idle, {})"
    using turns_reach [OF race_turns_final(1) [OF first(2,1)] sh_reach.start] s(1) by metis
  obtain w0 where w0: "wal_spawn checks now (file_of bs) (durability k) (wal_channel_capacity k) = Ok w0" "ns_wal s0 = Some w0"
    using ns_open_Ok [OF assms(2)] by blast
  have o: "wal_open (wal_base bs) w0" by (rule wal_spawn_open [OF w0(1) assms(4)])
  let ?w = "wal_send_insert i b (wal_send_insert i b' w0)"
  have w: "sh_wal s = Some ?w" unfolding s(3) by (simp add: sh_wal_insert_def w0(2) assms(11,13))
  have sent: "ws_sent ?w = [Insert i b', Insert i b]"
    using wal_open_calls(4) [OF wal_open_calls(1) [OF o]] wal_open_calls(4) [OF o] wal_spawn_OkD(7) [OF w0(1)] by simp
  have "\<forall>x\<in>set (wal_recs (cs @ ws_sent ?w)). wal_fits x" "no_max_id (wal_recs (cs @ ws_sent ?w))"
    using assms(8-10,12,14) by (auto simp: sent wal_fits_def no_max_id_def)
  moreover have "sh_logged c (sh_node s0) (s\<lparr>sh_map := (ns_nodes s0)(i \<mapsto> ?f i)\<rparr>)"
    using sh_twice_logged [OF assms(1) s(3)] by simp
  ultimately obtain q where "ns_open c checks now (file_of (durable (ws_file (wal_flush n ?w)))) k = Ok q"
    "ns_nodes q = (ns_nodes s0)(i \<mapsto> ?f i)"
    using nso.recover_view [OF assms(2,3) _ assms(4,5), where s = "s\<lparr>sh_map := (ns_nodes s0)(i \<mapsto> ?f i)\<rparr>" and w = ?w and n = n] w
    by auto
  with r s(2) w show ?thesis by (intro exI [of _ s] exI [of _ ?w] exI [of _ q]) simp
qed

theorem node_insert_delete_race_witness:
  "\<exists>s w r. sh_reach node_example_codec (\<lambda>_. True) (sh_node node_example, idle, {}) (s, idle, {}) \<and>
    sh_map s 0 = Some ((node_new 0 [1] 0 1)\<lparr>n_deleted_tx := 3\<rparr>) \<and> sh_wal s = Some w \<and>
    ns_open node_example_codec False 0 (file_of (durable (ws_file (wal_flush 0 w)))) consistency_immediate = Ok r \<and>
    ns_nodes r 0 = Some (node_new 0 [1] 0 1)"
proof -
  let ?c = node_example_codec and ?n = "node_new 0 [1] 0 1"
  have i: "ns_next_id node_example \<noteq> - 1" "fst (ns_alloc_id node_example) = 0" "(0 :: u64) \<noteq> - 1"
    by (simp_all add: node_example_ids ns_alloc_id_def)
  have e: "\<forall>r\<in>set (wal_recs []). wal_fits r" "no_max_id (wal_recs [])" by (simp_all add: no_max_id_def)
  show ?thesis
    by (rule node_insert_delete_race [OF node_example_codec_ok node_example_open node_example_run(6,4,5) i e
          race_example_ser race_example_len(1) race_example_ser race_example_len(2)])
qed

end
