(* ===== verification/Recovered_Ids.thy ===== *)
theory Recovered_Ids
  imports Node_Store
begin

text \<open>
  The identifiers of a node store after \<open>open\<close> (\<^verbatim>\<open>src/src/storage/node_store.rs\<close>). Replaying a deletion
  puts the identifier on the free list, replaying an insertion does not take it off. When that leaves the
  allocator sound, and when not, is read off the log.
\<close>

section \<open>What happened to an identifier in a log\<close>

definition rec_inserts :: "node codec \<Rightarrow> NodeId \<Rightarrow> wal_rec \<Rightarrow> bool" where
  "rec_inserts c i r = (case r of (opcode, j, payload) \<Rightarrow> opcode = 1 \<and> j = i \<and> de c payload \<noteq> None)"

definition rec_deletes :: "NodeId \<Rightarrow> wal_rec \<Rightarrow> bool" where
  "rec_deletes i r = (case r of (opcode, j, payload) \<Rightarrow> opcode = 2 \<and> j = i)"

definition log_inserted :: "node codec \<Rightarrow> NodeId \<Rightarrow> wal_rec list \<Rightarrow> bool" where
  "log_inserted c i rs \<longleftrightarrow> (\<exists>r\<in>set rs. rec_inserts c i r)"

definition log_deleted :: "node codec \<Rightarrow> NodeId \<Rightarrow> wal_rec list \<Rightarrow> bool" where
  "log_deleted c i rs \<longleftrightarrow> (\<exists>xs r ys. rs = xs @ r # ys \<and> rec_deletes i r \<and> log_inserted c i xs)"

text \<open>An identifier is inserted, deleted, and inserted again.\<close>

definition log_reinserted :: "node codec \<Rightarrow> NodeId \<Rightarrow> wal_rec list \<Rightarrow> bool" where
  "log_reinserted c i rs \<longleftrightarrow> (\<exists>xs r ys. rs = xs @ r # ys \<and> rec_inserts c i r \<and> log_deleted c i xs)"

lemma split_snoc:
  "(\<exists>xs r ys. rs @ [x] = xs @ r # ys \<and> P xs r) \<longleftrightarrow> (\<exists>xs r ys. rs = xs @ r # ys \<and> P xs r) \<or> P rs x"
proof
  assume "\<exists>xs r ys. rs @ [x] = xs @ r # ys \<and> P xs r"
  then obtain xs r ys where "rs @ [x] = xs @ r # ys" "P xs r" by blast
  then show "(\<exists>xs r ys. rs = xs @ r # ys \<and> P xs r) \<or> P rs x" by (cases ys rule: rev_cases) auto
next
  assume "(\<exists>xs r ys. rs = xs @ r # ys \<and> P xs r) \<or> P rs x"
  then show "\<exists>xs r ys. rs @ [x] = xs @ r # ys \<and> P xs r"
  proof
    assume "\<exists>xs r ys. rs = xs @ r # ys \<and> P xs r"
    then obtain xs r ys where "rs = xs @ r # ys" "P xs r" by blast
    then show ?thesis by (intro exI [of _ xs] exI [of _ r] exI [of _ "ys @ [x]"]) simp
  next
    assume "P rs x"
    then show ?thesis by blast
  qed
qed

lemma log_inserted_snoc [simp]: "log_inserted c i (rs @ [r]) \<longleftrightarrow> log_inserted c i rs \<or> rec_inserts c i r"
  by (auto simp: log_inserted_def)

lemma log_deleted_snoc [simp]:
  "log_deleted c i (rs @ [r]) \<longleftrightarrow> log_deleted c i rs \<or> (rec_deletes i r \<and> log_inserted c i rs)"
  unfolding log_deleted_def by (rule split_snoc)

lemma log_reinserted_snoc [simp]:
  "log_reinserted c i (rs @ [r]) \<longleftrightarrow> log_reinserted c i rs \<or> (rec_inserts c i r \<and> log_deleted c i rs)"
  unfolding log_reinserted_def by (rule split_snoc)

lemma log_nil [simp]: "\<not> log_inserted c i []" "\<not> log_deleted c i []" "\<not> log_reinserted c i []"
  by (simp_all add: log_inserted_def log_deleted_def log_reinserted_def)

section \<open>What replay makes of it\<close>

abbreviation replayed :: "node codec \<Rightarrow> wal_rec list \<Rightarrow> u64 \<times> node_store" where
  "replayed c rs \<equiv> fold (ns_replay_record c) rs (0, ns_new)"

definition free_sound :: "node_store \<Rightarrow> bool" where
  "free_sound s \<longleftrightarrow> distinct (ns_free_list s) \<and> set (ns_free_list s) \<inter> dom (ns_nodes s) = {}"

text \<open>The effects of one record.\<close>

lemma replay_dom:
  "i \<in> dom (ns_nodes (snd (ns_replay_record c r st))) \<longleftrightarrow>
    rec_inserts c i r \<or> (i \<in> dom (ns_nodes (snd st)) \<and> \<not> rec_deletes i r)"
  by (cases r; cases st) (auto simp: ns_replay_record_def rec_inserts_def rec_deletes_def split: option.splits if_splits)

lemma replay_free:
  "i \<in> set (ns_free_list (snd (ns_replay_record c r st))) \<longleftrightarrow>
    i \<in> set (ns_free_list (snd st)) \<or> (i \<in> dom (ns_nodes (snd st)) \<and> rec_deletes i r)"
  by (cases r; cases st) (auto simp: ns_replay_record_def rec_deletes_def split: option.splits if_splits)

lemma replay_max: "rec_inserts c i r \<or> i \<le> fst st \<Longrightarrow> i \<le> fst (ns_replay_record c r st)"
  by (cases r; cases st) (auto simp: ns_replay_record_def rec_inserts_def le_max_iff_disj split: option.splits)

lemma replay_count:
  "ns_free_count (snd st) = of_nat (length (ns_free_list (snd st))) \<Longrightarrow>
    ns_free_count (snd (ns_replay_record c r st)) = of_nat (length (ns_free_list (snd (ns_replay_record c r st))))"
  by (cases r; cases st) (auto simp: ns_replay_record_def split: option.splits)

lemma replay_sound:
  "free_sound (snd (ns_replay_record c r st)) \<longleftrightarrow>
    free_sound (snd st) \<and> (\<forall>i. rec_inserts c i r \<longrightarrow> i \<notin> set (ns_free_list (snd st)))"
  by (cases r; cases st) (auto simp: ns_replay_record_def rec_inserts_def free_sound_def split: option.splits)

text \<open>The effects of a log.\<close>

lemma replayed_seen:
  "i \<in> dom (ns_nodes (snd (replayed c rs))) \<or> i \<in> set (ns_free_list (snd (replayed c rs))) \<longleftrightarrow> log_inserted c i rs"
  by (induction rs rule: rev_induct) (auto simp: ns_new_def replay_dom replay_free)

lemma replayed_free: "i \<in> set (ns_free_list (snd (replayed c rs))) \<longleftrightarrow> log_deleted c i rs"
proof (induction rs rule: rev_induct)
  case (snoc r rs)
  then show ?case using replayed_seen [of i c rs] by (auto simp: replay_free)
qed (simp add: ns_new_def)

lemma replayed_sound: "free_sound (snd (replayed c rs)) \<longleftrightarrow> \<not> (\<exists>i. log_reinserted c i rs)"
  by (induction rs rule: rev_induct) (simp add: ns_new_def free_sound_def, auto simp: replay_sound replayed_free)

lemma replayed_count: "ns_free_count (snd (replayed c rs)) = of_nat (length (ns_free_list (snd (replayed c rs))))"
  by (induction rs rule: rev_induct) (simp_all add: ns_new_def replay_count)

lemma replayed_max: "log_inserted c i rs \<Longrightarrow> i \<le> fst (replayed c rs)"
  by (induction rs rule: rev_induct) (auto intro: replay_max)

lemma replayed_below:
  assumes "no_max_id rs" and "log_inserted c i rs"
  shows "i < fst (replayed c rs) + 1"
proof -
  have "fst (replayed c rs) \<noteq> - 1" using ns_replay_max [OF assms(1), of 0 c ns_new] by simp
  with replayed_max [OF assms(2)] show ?thesis by (simp add: u64_less_Suc)
qed

lemma ns_open_replayed:
  assumes "ns_open c checks now (file_of (fold encode_cmd cs WAL_MAGIC)) k = Ok s" and "\<forall>r\<in>set (wal_recs cs). wal_fits r"
  shows "ns_nodes s = ns_nodes (snd (replayed c (wal_recs cs)))"
    and "ns_free_list s = ns_free_list (snd (replayed c (wal_recs cs)))"
    and "ns_free_count s = ns_free_count (snd (replayed c (wal_recs cs)))"
    and "ns_next_id s = (if wal_recs cs = [] then 0 else fst (replayed c (wal_recs cs)) + 1)"
proof -
  let ?bs = "fold encode_cmd cs WAL_MAGIC"
  have bs: "?bs = WAL_MAGIC @ concat (map wal_frame (wal_recs cs))" by (simp add: fold_encode_cmd wal_log_def)
  have r: "replay_wal ?bs = (wal_recs cs, None)" using wl.replay_frames [OF assms(2)] by (simp add: bs)
  have l: "4 < length ?bs \<longleftrightarrow> wal_recs cs \<noteq> []" unfolding bs by (rule nsr.log_longer)
  have "ns_nodes s = ns_nodes (snd (replayed c (wal_recs cs))) \<and>
    ns_free_list s = ns_free_list (snd (replayed c (wal_recs cs))) \<and>
    ns_free_count s = ns_free_count (snd (replayed c (wal_recs cs))) \<and>
    ns_next_id s = (if wal_recs cs = [] then 0 else fst (replayed c (wal_recs cs)) + 1)"
    using assms(1) r l
    by (auto simp: ns_open_def Let_def split_beta ns_new_def split: if_splits outcome.splits option.splits)
  then show "ns_nodes s = ns_nodes (snd (replayed c (wal_recs cs)))"
    and "ns_free_list s = ns_free_list (snd (replayed c (wal_recs cs)))"
    and "ns_free_count s = ns_free_count (snd (replayed c (wal_recs cs)))"
    and "ns_next_id s = (if wal_recs cs = [] then 0 else fst (replayed c (wal_recs cs)) + 1)" by blast+
qed

section \<open>Properties\<close>

text \<open>
  C20. When the allocator is sound after \<open>open\<close>: opening a log gives a store whose free list has no duplicates
  and no stored identifier, whose count is the length of the list, and whose counter is past everything
  stored or free, exactly when no identifier was inserted, deleted and inserted again in the log. The
  stored and the free identifiers together are those ever inserted, and the free ones those ever deleted.
\<close>

theorem node_reopen_ids:
  assumes "ns_open c checks now (file_of (fold encode_cmd cs WAL_MAGIC)) k = Ok s"
    and "\<forall>r\<in>set (wal_recs cs). wal_fits r" and "no_max_id (wal_recs cs)"
  shows "(ns_ids_inv {} s \<longleftrightarrow> \<not> (\<exists>i. log_reinserted c i (wal_recs cs))) \<and>
    (\<forall>i. i \<in> dom (ns_nodes s) \<or> i \<in> set (ns_free_list s) \<longleftrightarrow> log_inserted c i (wal_recs cs)) \<and>
    (\<forall>i. i \<in> set (ns_free_list s) \<longleftrightarrow> log_deleted c i (wal_recs cs))"
proof -
  note s = ns_open_replayed [OF assms(1,2)]
  have seen: "i \<in> dom (ns_nodes s) \<or> i \<in> set (ns_free_list s) \<longleftrightarrow> log_inserted c i (wal_recs cs)" for i
    unfolding s by (rule replayed_seen)
  have "i < ns_next_id s" if "log_inserted c i (wal_recs cs)" for i
    using replayed_below [OF assms(3) that] that by (auto simp: s(4))
  then have "ns_ids_inv {} s \<longleftrightarrow> free_sound s"
    using seen replayed_count [of c "wal_recs cs"] by (auto simp: ns_ids_inv_def ids_ok_def free_sound_def s(2,3))
  moreover have "free_sound s \<longleftrightarrow> \<not> (\<exists>i. log_reinserted c i (wal_recs cs))"
    unfolding replayed_sound [symmetric] by (simp add: free_sound_def s)
  moreover have "\<forall>i. i \<in> set (ns_free_list s) \<longleftrightarrow> log_deleted c i (wal_recs cs)" by (simp add: s replayed_free)
  ultimately show ?thesis using seen by blast
qed

theorem node_reopen_ids_witness:
  "\<exists>s. ns_open node_example_codec False 0
      (file_of (fold encode_cmd [Insert 0 [0, 0, 0, 0, 0, 0], Delete 0, Insert 1 [0, 0, 0, 0, 0, 0]] WAL_MAGIC))
      consistency_immediate = Ok s \<and> ns_ids_inv {} s \<and> 0 \<in> set (ns_free_list s)"
proof -
  let ?b = "[0, 0, 0, 0, 0, 0] :: bytes"
  let ?cs = "[Insert 0 ?b, Delete 0, Insert 1 ?b]" and ?c = node_example_codec
  let ?bs = "fold encode_cmd ?cs WAL_MAGIC"
  obtain n where de: "de ?c ?b = Some n" by (simp add: node_example_codec_def)
  have fits: "\<forall>r\<in>set (wal_recs ?cs). wal_fits r" "no_max_id (wal_recs ?cs)" by (simp_all add: wal_fits_def no_max_id_def)
  have "replay_wal ?bs = (wal_recs ?cs, None)"
    using wl.replay_frames [OF fits(1)] by (simp only: fold_encode_cmd wal_log_def replay_wal_magic) simp
  moreover have "\<exists>w. wal_spawn False 0 (file_of ?bs) (durability consistency_immediate)
      (wal_channel_capacity consistency_immediate) = Ok w"
    by (rule wal_spawn_ok) code_simp
  ultimately obtain s where s: "ns_open ?c False 0 (file_of ?bs) consistency_immediate = Ok s"
    using ns_open_total [of False 0 "file_of ?bs" consistency_immediate] fits(2) by fastforce
  have recs: "wal_recs ?cs = (([] @ [(1, 0, ?b)]) @ [(2, 0, [])]) @ [(1, 1, ?b)]" by simp
  have "\<not> (\<exists>i. log_reinserted ?c i (wal_recs ?cs))" "log_deleted ?c 0 (wal_recs ?cs)"
    unfolding recs by (simp_all only: log_reinserted_snoc log_deleted_snoc log_inserted_snoc log_nil)
      (simp_all add: rec_inserts_def rec_deletes_def de)
  with node_reopen_ids [OF s fits] s show ?thesis by blast
qed

end
