(* ===== verification/Tx_Manager.thy ===== *)
theory Tx_Manager
  imports LG_Prelude
begin

text \<open>
  \<^verbatim>\<open>src/src/transaction/tx_manager.rs\<close>: tickets are handed out by one counter and published,
  in their order, by another. The first part has the operations as one thread performs them;
  the second has all interleavings of many threads, where the load that finds a ticket's turn
  and the store that publishes it are separate steps.
\<close>

section \<open>State and operations\<close>

definition SPIN_LIMIT :: nat where
  "SPIN_LIMIT = 100000"

record tx_manager =
  tm_next_tx_id :: TxId
  tm_committed_tx_id :: TxId

definition tm_new :: tx_manager where
  "tm_new = \<lparr>tm_next_tx_id = 1, tm_committed_tx_id = 0\<rparr>"

definition tm_begin_read :: "tx_manager \<Rightarrow> TxId" where
  "tm_begin_read s = tm_committed_tx_id s"

definition tm_begin_write :: "tx_manager \<Rightarrow> TxId \<times> tx_manager" where
  "tm_begin_write s = (tm_next_tx_id s, s\<lparr>tm_next_tx_id := tm_next_tx_id s + 1\<rparr>)"

text \<open>
  The loop of \<open>commit\<close>: \<open>loads n\<close> is what the \<open>n\<close>-th load of \<open>committed_tx_id\<close> returns, which
  other threads determine. The result is the number of the load that found the ticket's turn;
  \<open>None\<close> is the timeout. The backoff between two loads has no effect on the state.
\<close>

function tm_commit_loop :: "TxId \<Rightarrow> (nat \<Rightarrow> TxId) \<Rightarrow> nat \<Rightarrow> nat option" where
  "tm_commit_loop expected loads spins =
     (if loads spins = expected then Some spins
      else let spins' = spins + 1 in
        if spins' > SPIN_LIMIT then None else tm_commit_loop expected loads spins')"
  by pat_completeness auto
termination
  by (relation "measure (\<lambda>(expected, loads, spins). SPIN_LIMIT - spins)") auto

declare tm_commit_loop.simps [simp del]

text \<open>
  \<open>commit\<close> while no other thread runs: every load returns the counter. Ticket 0, for which
  \<open>tx_id - 1\<close> would overflow, is never handed out.
\<close>

definition tm_commit :: "TxId \<Rightarrow> tx_manager \<Rightarrow> bool \<times> tx_manager" where
  "tm_commit tx_id s =
     (case tm_commit_loop (tx_id - 1) (\<lambda>_. tm_committed_tx_id s) 0 of
       Some _ \<Rightarrow> (True, s\<lparr>tm_committed_tx_id := tx_id\<rparr>)
     | None \<Rightarrow> (False, s))"

text \<open>\<open>rollback\<close> has no limit: alone, it either finds its turn at once or never returns.\<close>

partial_function (option) tm_rollback :: "TxId \<Rightarrow> tx_manager \<Rightarrow> tx_manager option" where
  "tm_rollback tx_id s =
     (if tm_committed_tx_id s = tx_id - 1 then Some (s\<lparr>tm_committed_tx_id := tx_id\<rparr>)
      else tm_rollback tx_id s)"

definition tm_latest_committed :: "tx_manager \<Rightarrow> TxId" where
  "tm_latest_committed s = tm_committed_tx_id s"

section \<open>Many threads\<close>

text \<open>
  What a thread is doing with its ticket: it holds it (buffering writes, or after a timeout),
  spins in \<open>commit\<close> or \<open>rollback\<close>, or has seen its turn and is about to store.
\<close>

datatype tx_pc =
    Idle
  | Holding TxId
  | CommitSpin TxId nat
  | CommitStore TxId
  | RollbackSpin TxId
  | RollbackStore TxId

record tx_sys =
  sy_tm :: tx_manager
  sy_pc :: "nat \<Rightarrow> tx_pc"
  sy_published :: "TxId list"

primrec ticket :: "tx_pc \<Rightarrow> TxId option" where
  "ticket Idle = None"
| "ticket (Holding tx) = Some tx"
| "ticket (CommitSpin tx n) = Some tx"
| "ticket (CommitStore tx) = Some tx"
| "ticket (RollbackSpin tx) = Some tx"
| "ticket (RollbackStore tx) = Some tx"

abbreviation sy_committed :: "tx_sys \<Rightarrow> TxId" where
  "sy_committed s \<equiv> tm_committed_tx_id (sy_tm s)"

abbreviation sy_next :: "tx_sys \<Rightarrow> TxId" where
  "sy_next s \<equiv> tm_next_tx_id (sy_tm s)"

definition sy_init :: tx_sys where
  "sy_init = \<lparr>sy_tm = tm_new, sy_pc = (\<lambda>_. Idle), sy_published = []\<rparr>"

definition goto :: "nat \<Rightarrow> tx_pc \<Rightarrow> tx_sys \<Rightarrow> tx_sys" where
  "goto t pc s = s\<lparr>sy_pc := (sy_pc s)(t := pc)\<rparr>"

definition publish :: "TxId \<Rightarrow> tx_sys \<Rightarrow> tx_sys" where
  "publish tx s = s\<lparr>sy_tm := (sy_tm s)\<lparr>tm_committed_tx_id := tx\<rparr>, sy_published := sy_published s @ [tx]\<rparr>"

text \<open>The ticket counter is assumed not to have run through all of \<open>u64\<close>.\<close>

inductive tx_step :: "tx_sys \<Rightarrow> tx_sys \<Rightarrow> bool" where
  begin_write: "sy_pc s t = Idle \<Longrightarrow> sy_next s \<noteq> - 1 \<Longrightarrow> tm_begin_write (sy_tm s) = (tx, m) \<Longrightarrow>
    tx_step s (goto t (Holding tx) (s\<lparr>sy_tm := m\<rparr>))"
| commit: "sy_pc s t = Holding tx \<Longrightarrow> tx_step s (goto t (CommitSpin tx 0) s)"
| commit_turn: "sy_pc s t = CommitSpin tx n \<Longrightarrow> sy_committed s = tx - 1 \<Longrightarrow>
    tx_step s (goto t (CommitStore tx) s)"
| commit_wait: "sy_pc s t = CommitSpin tx n \<Longrightarrow> sy_committed s \<noteq> tx - 1 \<Longrightarrow> n + 1 \<le> SPIN_LIMIT \<Longrightarrow>
    tx_step s (goto t (CommitSpin tx (n + 1)) s)"
| commit_timeout: "sy_pc s t = CommitSpin tx n \<Longrightarrow> sy_committed s \<noteq> tx - 1 \<Longrightarrow> n + 1 > SPIN_LIMIT \<Longrightarrow>
    tx_step s (goto t (Holding tx) s)"
| commit_store: "sy_pc s t = CommitStore tx \<Longrightarrow> tx_step s (goto t Idle (publish tx s))"
| rollback: "sy_pc s t = Holding tx \<Longrightarrow> tx_step s (goto t (RollbackSpin tx) s)"
| rollback_turn: "sy_pc s t = RollbackSpin tx \<Longrightarrow> sy_committed s = tx - 1 \<Longrightarrow>
    tx_step s (goto t (RollbackStore tx) s)"
| rollback_wait: "sy_pc s t = RollbackSpin tx \<Longrightarrow> sy_committed s \<noteq> tx - 1 \<Longrightarrow>
    tx_step s (goto t (RollbackSpin tx) s)"
| rollback_store: "sy_pc s t = RollbackStore tx \<Longrightarrow> tx_step s (goto t Idle (publish tx s))"

inductive tx_reach :: "tx_sys \<Rightarrow> tx_sys \<Rightarrow> bool" for s0 where
  start: "tx_reach s0 s0"
| step: "tx_reach s0 s \<Longrightarrow> tx_step s s' \<Longrightarrow> tx_reach s0 s'"

section \<open>Lemmas: one thread\<close>

lemma tm_commit_loop_Some:
  "tm_commit_loop expected loads n = Some k \<longleftrightarrow>
    n \<le> k \<and> (k = n \<or> k \<le> SPIN_LIMIT) \<and> loads k = expected \<and> (\<forall>j. n \<le> j \<and> j < k \<longrightarrow> loads j \<noteq> expected)"
proof (induction expected loads n rule: tm_commit_loop.induct)
  case (1 expected loads n)
  show ?case
  proof (cases "loads n = expected \<or> n + 1 > SPIN_LIMIT")
    case True
    then show ?thesis
      by (subst tm_commit_loop.simps) (auto simp: Let_def le_Suc_eq dest: le_antisym)
  next
    case False
    then have "tm_commit_loop expected loads n = tm_commit_loop expected loads (n + 1)"
      by (subst tm_commit_loop.simps) (simp add: Let_def)
    with 1 False show ?thesis
      by (auto simp: Let_def Suc_le_eq order.strict_iff_order)
  qed
qed

lemma tm_commit_loop_result:
  "(case tm_commit_loop expected loads 0 of
     Some k \<Rightarrow> k \<le> SPIN_LIMIT \<and> loads k = expected \<and> (\<forall>j<k. loads j \<noteq> expected)
   | None \<Rightarrow> \<forall>j\<le>SPIN_LIMIT. loads j \<noteq> expected)"
proof (cases "tm_commit_loop expected loads 0")
  case (Some k)
  then have "(k = 0 \<or> k \<le> SPIN_LIMIT) \<and> loads k = expected \<and> (\<forall>j<k. loads j \<noteq> expected)"
    by (simp add: tm_commit_loop_Some)
  with Some show ?thesis by (cases "k = 0") simp_all
next
  case None
  have "loads j \<noteq> expected" if "j \<le> SPIN_LIMIT" for j
  proof
    assume j: "loads j = expected"
    then obtain k where "k \<le> j" "\<forall>i<k. loads i \<noteq> expected" "loads k = expected"
      using ex_least_nat_le [of "\<lambda>j. loads j = expected" j] by blast
    with that have "tm_commit_loop expected loads 0 = Some k" by (simp add: tm_commit_loop_Some)
    with None show False by simp
  qed
  with None show ?thesis by simp
qed

lemma tm_commit_eq:
  "tm_commit tx s =
    (if tm_committed_tx_id s = tx - 1 then (True, s\<lparr>tm_committed_tx_id := tx\<rparr>) else (False, s))"
  using tm_commit_loop_result [where expected = "tx - 1" and loads = "\<lambda>_. tm_committed_tx_id s"]
  by (auto simp: tm_commit_def split: option.splits)

lemma tm_rollback_eq:
  "tm_rollback tx s =
    (if tm_committed_tx_id s = tx - 1 then Some (s\<lparr>tm_committed_tx_id := tx\<rparr>) else None)"
proof (cases "tm_committed_tx_id s = tx - 1")
  case True
  then show ?thesis by (subst tm_rollback.simps) simp
next
  case False
  have "tm_committed_tx_id s = tx - 1" if "tm_rollback tx s = Some y" for y
    using that by (rule tm_rollback.raw_induct [rotated]) (auto split: if_splits)
  with False show ?thesis by (cases "tm_rollback tx s") auto
qed

section \<open>Lemmas: many threads\<close>

lemma u64_between:
  fixes c n j :: u64
  assumes "c < n"
  shows "c < j \<longleftrightarrow> j = c + 1 \<or> c + 1 < j" and "c + 1 \<le> n" and "unat (c + 1) = Suc (unat c)" and "c < c + 1"
proof -
  have "unat c < unat n" using assms by (simp add: word_less_nat_alt)
  moreover have "unat n < 2 ^ 64" using unsigned_less [of n] by simp
  ultimately have "unat (c + 1) = Suc (unat c)" by (simp add: unat_word_ariths)
  then show "unat (c + 1) = Suc (unat c)" and "c < j \<longleftrightarrow> j = c + 1 \<or> c + 1 < j" and "c < c + 1"
    and "c + 1 \<le> n"
    using assms by (auto simp: word_less_nat_alt word_le_nat_alt word_unat_eq_iff)
qed

text \<open>
  The tickets between the two counters are exactly those that threads have in hand, each in one
  hand only; a thread about to store has the next ticket to publish; what has been published are
  the tickets from 1 on, in order.
\<close>

definition tx_inv :: "tx_sys \<Rightarrow> bool" where
  "tx_inv s \<longleftrightarrow>
     sy_committed s < sy_next s \<and>
     (\<forall>k. (\<exists>t. ticket (sy_pc s t) = Some k) \<longleftrightarrow> sy_committed s < k \<and> k < sy_next s) \<and>
     (\<forall>t t' k. ticket (sy_pc s t) = Some k \<longrightarrow> ticket (sy_pc s t') = Some k \<longrightarrow> t = t') \<and>
     (\<forall>t k. sy_pc s t = CommitStore k \<or> sy_pc s t = RollbackStore k \<longrightarrow> k = sy_committed s + 1) \<and>
     sy_published s = map of_nat [1..<Suc (unat (sy_committed s))]"

lemma tx_invI:
  assumes "sy_committed s < sy_next s"
    and "\<And>t k. ticket (sy_pc s t) = Some k \<Longrightarrow> sy_committed s < k \<and> k < sy_next s"
    and "\<And>k. sy_committed s < k \<Longrightarrow> k < sy_next s \<Longrightarrow> \<exists>t. ticket (sy_pc s t) = Some k"
    and "\<And>t t' k. ticket (sy_pc s t) = Some k \<Longrightarrow> ticket (sy_pc s t') = Some k \<Longrightarrow> t = t'"
    and "\<And>t k. sy_pc s t = CommitStore k \<or> sy_pc s t = RollbackStore k \<Longrightarrow> k = sy_committed s + 1"
    and "sy_published s = map of_nat [1..<Suc (unat (sy_committed s))]"
  shows "tx_inv s"
  unfolding tx_inv_def using assms by blast

lemma tx_invD:
  assumes "tx_inv s"
  shows "sy_committed s < sy_next s"
    and "ticket (sy_pc s t) = Some k \<Longrightarrow> sy_committed s < k \<and> k < sy_next s"
    and "sy_committed s < k \<Longrightarrow> k < sy_next s \<Longrightarrow> \<exists>t. ticket (sy_pc s t) = Some k"
    and "ticket (sy_pc s t) = Some k \<Longrightarrow> ticket (sy_pc s t') = Some k \<Longrightarrow> t = t'"
    and "sy_pc s t = CommitStore k \<or> sy_pc s t = RollbackStore k \<Longrightarrow> k = sy_committed s + 1"
    and "sy_published s = map of_nat [1..<Suc (unat (sy_committed s))]"
  using assms unfolding tx_inv_def by blast+

lemma goto_simps [simp]:
  "sy_tm (goto t pc s) = sy_tm s" "sy_pc (goto t pc s) = (sy_pc s)(t := pc)"
  "sy_published (goto t pc s) = sy_published s"
  by (simp_all add: goto_def)

lemma publish_simps [simp]:
  "sy_committed (publish tx s) = tx" "sy_next (publish tx s) = sy_next s"
  "sy_pc (publish tx s) = sy_pc s" "sy_published (publish tx s) = sy_published s @ [tx]"
  by (simp_all add: publish_def)

text \<open>A step that only moves a thread on with its ticket.\<close>

lemma tx_inv_goto:
  assumes inv: "tx_inv s" and same: "ticket pc = ticket (sy_pc s t)"
    and store: "\<And>k. pc = CommitStore k \<or> pc = RollbackStore k \<Longrightarrow> sy_committed s = k - 1"
  shows "tx_inv (goto t pc s)"
proof -
  have tick: "ticket (sy_pc (goto t pc s) u) = ticket (sy_pc s u)" for u
    using same by simp
  show ?thesis
  proof (rule tx_invI)
    show "k = sy_committed (goto t pc s) + 1"
      if u: "sy_pc (goto t pc s) u = CommitStore k \<or> sy_pc (goto t pc s) u = RollbackStore k" for u k
    proof (cases "u = t")
      case True
      with u store [of k] show ?thesis by simp
    next
      case False
      with u tx_invD(5) [OF inv, of u k] show ?thesis by simp
    qed
    show "sy_committed (goto t pc s) < k \<and> k < sy_next (goto t pc s)"
      if "ticket (sy_pc (goto t pc s) u) = Some k" for u k
      using that tx_invD(2) [OF inv] unfolding tick by simp
    show "\<exists>u. ticket (sy_pc (goto t pc s) u) = Some k"
      if "sy_committed (goto t pc s) < k" "k < sy_next (goto t pc s)" for k
      using that tx_invD(3) [OF inv] unfolding tick by simp
    show "u = u'" if "ticket (sy_pc (goto t pc s) u) = Some k" "ticket (sy_pc (goto t pc s) u') = Some k" for u u' k
      using that tx_invD(4) [OF inv] unfolding tick by blast
  qed (use tx_invD(1,6) [OF inv] in simp_all)
qed

lemma tx_inv_publish:
  assumes inv: "tx_inv s" and pc: "sy_pc s t = CommitStore tx \<or> sy_pc s t = RollbackStore tx"
  shows "tx_inv (goto t Idle (publish tx s))"
proof -
  have tx: "tx = sy_committed s + 1" by (rule tx_invD(5) [OF inv pc])
  have held: "ticket (sy_pc s t) = Some tx" using pc by auto
  note btw = u64_between [OF tx_invD(1) [OF inv]]
  have tick: "ticket (sy_pc (goto t Idle (publish tx s)) u) = (if u = t then None else ticket (sy_pc s u))" for u
    by simp
  have other: "sy_pc s u \<noteq> CommitStore k \<and> sy_pc s u \<noteq> RollbackStore k" if "u \<noteq> t" for u k
    using tx_invD(4) [OF inv held, of u] tx_invD(5) [OF inv, of u k] that tx by auto
  show ?thesis
  proof (rule tx_invI)
    show "sy_committed (goto t Idle (publish tx s)) < sy_next (goto t Idle (publish tx s))"
      using tx_invD(2) [OF inv held] by simp
    show "\<exists>u. ticket (sy_pc (goto t Idle (publish tx s)) u) = Some k"
      if "sy_committed (goto t Idle (publish tx s)) < k" "k < sy_next (goto t Idle (publish tx s))" for k
    proof -
      have "sy_committed s < k" using that(1) btw(1) [of k] tx by simp
      from tx_invD(3) [OF inv this] that(2) obtain u where u: "ticket (sy_pc s u) = Some k" by auto
      with held that(1) have "u \<noteq> t" by auto
      with u show ?thesis unfolding tick by auto
    qed
    show "sy_committed (goto t Idle (publish tx s)) < k \<and> k < sy_next (goto t Idle (publish tx s))"
      if "ticket (sy_pc (goto t Idle (publish tx s)) u) = Some k" for u k
    proof -
      have u: "u \<noteq> t" "ticket (sy_pc s u) = Some k" using that by (auto split: if_splits)
      then have "k \<noteq> tx" using tx_invD(4) [OF inv held, of u] by auto
      with tx_invD(2) [OF inv u(2)] btw(1) [of k] tx show ?thesis by simp
    qed
    show "sy_published (goto t Idle (publish tx s)) =
        map of_nat [1..<Suc (unat (sy_committed (goto t Idle (publish tx s))))]"
      using tx_invD(6) [OF inv] btw(3) by (simp add: tx)
  qed (use other in \<open>auto split: if_splits dest: tx_invD(4) [OF inv]\<close>)
qed

lemma tx_inv_begin:
  assumes inv: "tx_inv s" and "sy_pc s t = Idle" and "sy_next s \<noteq> - 1"
    and "tm_begin_write (sy_tm s) = (tx, m)"
  shows "tx_inv (goto t (Holding tx) (s\<lparr>sy_tm := m\<rparr>))"
proof -
  have tx: "tx = sy_next s" and m: "m = (sy_tm s)\<lparr>tm_next_tx_id := sy_next s + 1\<rparr>"
    using assms(4) by (auto simp: tm_begin_write_def)
  have "1 + sy_next s \<noteq> 0" using assms(3) by (metis add.commute eq_neg_iff_add_eq_0)
  then have n: "k < sy_next s + 1 \<longleftrightarrow> k \<le> sy_next s" for k
    by (simp add: word_less_nat_alt word_le_nat_alt unatSuc add.commute [of "sy_next s"] less_Suc_eq_le)
  let ?s' = "goto t (Holding tx) (s\<lparr>sy_tm := m\<rparr>)"
  have tick: "ticket (sy_pc ?s' u) = (if u = t then Some (sy_next s) else ticket (sy_pc s u))" for u
    by (simp add: tx)
  have fresh: "ticket (sy_pc s u) \<noteq> Some (sy_next s)" for u
    using tx_invD(2) [OF inv, of u "sy_next s"] by auto
  show ?thesis
  proof (rule tx_invI)
    show "sy_committed ?s' < sy_next ?s'"
      using tx_invD(1) [OF inv] by (simp add: m n)
    show "sy_committed ?s' < k \<and> k < sy_next ?s'" if "ticket (sy_pc ?s' u) = Some k" for u k
      using that tx_invD(1) [OF inv] unfolding tick
      by (auto simp: m n split: if_splits dest: tx_invD(2) [OF inv])
    show "\<exists>u. ticket (sy_pc ?s' u) = Some k" if "sy_committed ?s' < k" "k < sy_next ?s'" for k
    proof (cases "k = sy_next s")
      case True
      then show ?thesis unfolding tick by auto
    next
      case False
      with that have "sy_committed s < k" "k < sy_next s" by (auto simp: m n)
      from tx_invD(3) [OF inv this] obtain u where "ticket (sy_pc s u) = Some k" by blast
      with assms(2) show ?thesis unfolding tick by (intro exI [of _ u]) auto
    qed
    show "u = u'" if "ticket (sy_pc ?s' u) = Some k" "ticket (sy_pc ?s' u') = Some k" for u u' k
      using that tx_invD(4) [OF inv] fresh unfolding tick by (auto split: if_splits)
  qed (use tx_invD(5,6) [OF inv] in \<open>auto simp: m split: if_splits\<close>)
qed

lemma tx_step_inv:
  assumes "tx_step s s'" and "tx_inv s"
  shows "tx_inv s'"
  using assms
proof (induction rule: tx_step.induct)
  case (begin_write s t tx m)
  then show ?case by (intro tx_inv_begin)
qed (auto intro!: tx_inv_goto tx_inv_publish)

lemma tx_inv_init: "tx_inv sy_init"
  by (auto simp: tx_inv_def sy_init_def tm_new_def)

lemma tx_reach_inv: "tx_reach s0 s \<Longrightarrow> tx_inv s0 \<Longrightarrow> tx_inv s"
  by (induction rule: tx_reach.induct) (auto intro: tx_step_inv)

lemma tx_step_monotone:
  assumes "tx_step s s'" and "tx_inv s"
  shows "sy_committed s \<le> sy_committed s'"
  using assms
proof (induction rule: tx_step.induct)
  case (begin_write s t tx m)
  then show ?case by (auto simp: tm_begin_write_def)
next
  case (commit_store s t tx)
  then show ?case using tx_invD(2) [of s t tx] by auto
next
  case (rollback_store s t tx)
  then show ?case using tx_invD(2) [of s t tx] by auto
qed simp_all

lemma tx_reach_trans: "tx_reach b c \<Longrightarrow> tx_reach a b \<Longrightarrow> tx_reach a c"
  by (induction rule: tx_reach.induct) (auto intro: tx_reach.step)

text \<open>From every point of its work, the thread with the next ticket can publish it on its own.\<close>

lemma tx_finish_commit:
  assumes "sy_pc s t = CommitStore tx"
  shows "\<exists>s'. tx_reach s s' \<and> sy_committed s' = tx \<and> (\<forall>u. u \<noteq> t \<longrightarrow> sy_pc s' u = sy_pc s u)"
  using tx_reach.step [OF tx_reach.start tx_step.commit_store [OF assms]] by (intro exI) auto

lemma tx_finish_spin:
  assumes "sy_pc s t = CommitSpin tx n" and "sy_committed s = tx - 1"
  shows "\<exists>s'. tx_reach s s' \<and> sy_committed s' = tx \<and> (\<forall>u. u \<noteq> t \<longrightarrow> sy_pc s' u = sy_pc s u)"
proof -
  let ?s = "goto t (CommitStore tx) s"
  have "tx_reach s ?s" using tx_reach.step [OF tx_reach.start tx_step.commit_turn [OF assms]] .
  with tx_finish_commit [of ?s t tx] show ?thesis by (auto dest: tx_reach_trans)
qed

lemma tx_finish_rollback:
  assumes "sy_pc s t = RollbackStore tx"
  shows "\<exists>s'. tx_reach s s' \<and> sy_committed s' = tx \<and> (\<forall>u. u \<noteq> t \<longrightarrow> sy_pc s' u = sy_pc s u)"
  using tx_reach.step [OF tx_reach.start tx_step.rollback_store [OF assms]] by (intro exI) auto

lemma tx_finish:
  assumes "ticket (sy_pc s t) = Some tx" and "sy_committed s = tx - 1"
  shows "\<exists>s'. tx_reach s s' \<and> sy_committed s' = tx \<and> (\<forall>u. u \<noteq> t \<longrightarrow> sy_pc s' u = sy_pc s u)"
proof (cases "sy_pc s t")
  case (Holding k)
  let ?s = "goto t (CommitSpin tx 0) s"
  have "tx_reach s ?s"
    using tx_reach.step [OF tx_reach.start tx_step.commit] Holding assms(1) by simp
  with tx_finish_spin [of ?s t tx 0] assms(2) show ?thesis by (auto dest: tx_reach_trans)
next
  case (RollbackSpin k)
  let ?s = "goto t (RollbackStore tx) s"
  have "tx_reach s ?s"
    using tx_reach.step [OF tx_reach.start tx_step.rollback_turn] RollbackSpin assms by simp
  with tx_finish_rollback [of ?s t tx] show ?thesis by (auto dest: tx_reach_trans)
qed (use assms tx_finish_spin tx_finish_commit tx_finish_rollback in auto)

section \<open>Example\<close>

text \<open>Two threads with tickets 1 and 2; the second is waiting in \<open>commit\<close>.\<close>

definition sy_example :: tx_sys where
  "sy_example =
     goto 1 (CommitSpin 2 0)
       (goto 1 (Holding 2)
         ((goto 0 (Holding 1) (sy_init\<lparr>sy_tm := snd (tm_begin_write tm_new)\<rparr>))
           \<lparr>sy_tm := snd (tm_begin_write (snd (tm_begin_write tm_new)))\<rparr>))"

lemma sy_example_reach: "tx_reach sy_init sy_example"
proof -
  let ?s1 = "goto 0 (Holding 1) (sy_init\<lparr>sy_tm := snd (tm_begin_write tm_new)\<rparr>)"
  have "tx_reach sy_init ?s1"
    by (rule tx_reach.step [OF tx_reach.start], rule tx_step.begin_write)
      (simp_all add: sy_init_def tm_new_def tm_begin_write_def)
  then have "tx_reach sy_init (goto 1 (Holding 2) (?s1\<lparr>sy_tm := snd (tm_begin_write (snd (tm_begin_write tm_new)))\<rparr>))"
    by (rule tx_reach.step, intro tx_step.begin_write)
      (simp_all add: sy_init_def tm_new_def tm_begin_write_def)
  then show ?thesis
    unfolding sy_example_def by (rule tx_reach.step) (rule tx_step.commit, simp)
qed

section \<open>Properties\<close>

text \<open>
  C3. In-order commit: in every interleaving of any number of threads, the tickets published are
  1, 2, 3 and so on without gap or repetition, the tickets not yet published are exactly those
  in the hands of threads, no two threads have the same ticket, and at most one thread is past
  the test and about to store.
\<close>

theorem tx_commit_in_order:
  assumes "tx_reach sy_init s"
  shows "sy_published s = map of_nat [1..<Suc (unat (sy_committed s))] \<and>
    {k. \<exists>t. ticket (sy_pc s t) = Some k} = {k. sy_committed s < k \<and> k < sy_next s} \<and>
    (\<forall>t t' k. ticket (sy_pc s t) = Some k \<and> ticket (sy_pc s t') = Some k \<longrightarrow> t = t') \<and>
    (\<forall>t t' k k'. sy_pc s t \<in> {CommitStore k, RollbackStore k} \<and> sy_pc s t' \<in> {CommitStore k', RollbackStore k'} \<longrightarrow>
      t = t')"
proof -
  have inv: "tx_inv s" by (rule tx_reach_inv [OF assms tx_inv_init])
  have "t = t'" if "sy_pc s t \<in> {CommitStore k, RollbackStore k}" "sy_pc s t' \<in> {CommitStore k', RollbackStore k'}"
    for t t' k k'
  proof -
    have "k = sy_committed s + 1" "k' = sy_committed s + 1"
      using tx_invD(5) [OF inv, of t k] tx_invD(5) [OF inv, of t' k'] that by auto
    moreover have "ticket (sy_pc s t) = Some k" "ticket (sy_pc s t') = Some k'" using that by auto
    ultimately show ?thesis using tx_invD(4) [OF inv] by simp
  qed
  moreover have "{k. \<exists>t. ticket (sy_pc s t) = Some k} = {k. sy_committed s < k \<and> k < sy_next s}"
    using tx_invD(2,3) [OF inv] by blast
  ultimately show ?thesis using tx_invD(4,6) [OF inv] by blast
qed

theorem tx_commit_in_order_witness:
  "{k. \<exists>t. ticket (sy_pc sy_example t) = Some k} = {k. sy_committed sy_example < k \<and> k < sy_next sy_example}"
  using tx_commit_in_order [OF sy_example_reach] by blast

text \<open>
  C25. The protocol is not stuck while threads keep running: whenever a ticket is outstanding, the
  thread that has the next one can publish it by its own steps alone (commit or rollback), from
  wherever it is, leaving every other thread where it was.
\<close>

theorem tx_commit_progress:
  assumes "tx_reach sy_init s" and "sy_committed s + 1 < sy_next s"
  shows "\<exists>t s'. ticket (sy_pc s t) = Some (sy_committed s + 1) \<and> tx_reach s s' \<and>
    sy_committed s' = sy_committed s + 1 \<and> (\<forall>u. u \<noteq> t \<longrightarrow> sy_pc s' u = sy_pc s u)"
proof -
  have inv: "tx_inv s" by (rule tx_reach_inv [OF assms(1) tx_inv_init])
  have "sy_committed s < sy_committed s + 1" by (rule u64_between(4) [OF tx_invD(1) [OF inv]])
  from tx_invD(3) [OF inv this assms(2)] obtain t where "ticket (sy_pc s t) = Some (sy_committed s + 1)" by blast
  with tx_finish [of s t "sy_committed s + 1"] show ?thesis by (auto intro!: exI [of _ t])
qed

theorem tx_commit_progress_witness:
  "\<exists>t s'. ticket (sy_pc sy_example t) = Some 1 \<and> tx_reach sy_example s' \<and> sy_committed s' = 1"
proof -
  have c: "sy_committed sy_example = 0" "sy_next sy_example = 3"
    by (simp_all add: sy_example_def sy_init_def tm_new_def tm_begin_write_def)
  have "sy_committed sy_example + 1 < sy_next sy_example" by (simp add: c)
  from tx_commit_progress [OF sy_example_reach this] show ?thesis by (simp add: c) blast
qed

text \<open>
  C29. The spin limit: \<open>commit\<close> loads the counter at most \<open>SPIN_LIMIT + 1\<close> times. It returns at the
  first load that shows its predecessor's ticket, and times out exactly when none of those loads does.
\<close>

theorem tx_commit_spin_limit:
  "(\<forall>k. tm_commit_loop expected loads 0 = Some k \<longleftrightarrow>
      k \<le> SPIN_LIMIT \<and> loads k = expected \<and> (\<forall>j<k. loads j \<noteq> expected)) \<and>
   (tm_commit_loop expected loads 0 = None \<longleftrightarrow> (\<forall>j\<le>SPIN_LIMIT. loads j \<noteq> expected))"
proof -
  have "tm_commit_loop expected loads 0 = Some k \<longleftrightarrow>
      k \<le> SPIN_LIMIT \<and> loads k = expected \<and> (\<forall>j<k. loads j \<noteq> expected)" for k
    by (auto simp: tm_commit_loop_Some)
  moreover have "tm_commit_loop expected loads 0 = None \<longleftrightarrow> (\<forall>j\<le>SPIN_LIMIT. loads j \<noteq> expected)"
    using tm_commit_loop_result [where expected = expected and loads = loads] by (auto split: option.splits)
  ultimately show ?thesis by blast
qed

theorem tx_commit_spin_limit_witness:
  "tm_commit_loop 4 (\<lambda>n. if n = 2 then 4 else 0) 0 = Some 2"
proof -
  have "2 \<le> SPIN_LIMIT" by (simp add: SPIN_LIMIT_def)
  then show ?thesis
    by (subst conjunct1 [OF tx_commit_spin_limit, rule_format]) auto
qed

text \<open>
  Snapshots do not go back: \<open>begin_read\<close> at a later moment of any run returns a snapshot at
  least as new, and never one of a ticket that has not been handed out.
\<close>

theorem tx_read_monotone:
  assumes "tx_reach sy_init s" and "tx_reach s s'"
  shows "tm_begin_read (sy_tm s) \<le> tm_begin_read (sy_tm s') \<and> tm_begin_read (sy_tm s') < sy_next s'"
proof -
  have inv: "tx_inv s" by (rule tx_reach_inv [OF assms(1) tx_inv_init])
  have "sy_committed s \<le> sy_committed s'"
    using assms(2)
  proof (induction rule: tx_reach.induct)
    case start
    then show ?case by simp
  next
    case (step a b)
    then show ?case using tx_step_monotone tx_reach_inv [OF _ inv] by (metis order.trans)
  qed
  moreover have "tx_inv s'" by (rule tx_reach_inv [OF assms(2) inv])
  ultimately show ?thesis by (simp add: tm_begin_read_def tx_invD(1))
qed

theorem tx_read_monotone_witness:
  "tm_begin_read (sy_tm sy_init) \<le> tm_begin_read (sy_tm sy_example)"
  using tx_read_monotone [OF tx_reach.start sy_example_reach] by blast

end
