(* ===== verification/Transaction.thy ===== *)
theory Transaction
  imports Tx_Manager Node_Store Edge_Store Prop_Store
begin

text \<open>
  \<^verbatim>\<open>src/src/transaction/mod.rs\<close>: the database handle with its transaction manager and three
  stores, and transactions, which buffer their writes and apply them on commit. A transaction
  borrows the database; here its operations take both and return what they change.
\<close>

section \<open>State\<close>

record codecs =
  c_node :: "node codec"
  c_edge :: "edge codec"
  c_val :: "val option codec"

record database =
  db_tx_manager :: tx_manager
  db_nodes :: node_store
  db_edges :: edge_store
  db_props :: prop_store

record transaction =
  t_tx_id :: TxId
  t_snapshot :: TxId
  t_is_write :: bool
  t_committed :: bool
  t_node_inserts :: "(NodeId \<times> LabelId list \<times> u32) list"
  t_node_updates :: "(NodeId \<times> LabelId list) list"
  t_node_deletes :: "NodeId list"
  t_edge_inserts :: "(EdgeId \<times> NodeId \<times> NodeId \<times> LabelId \<times> u32) list"
  t_edge_deletes :: "EdgeId list"
  t_prop_writes :: "(LabelId \<times> rstring \<times> u32 \<times> val option) list"

definition transaction_new :: "TxId \<Rightarrow> TxId \<Rightarrow> bool \<Rightarrow> transaction" where
  "transaction_new tx_id snapshot is_write =
     \<lparr>t_tx_id = tx_id, t_snapshot = snapshot, t_is_write = is_write, t_committed = False,
      t_node_inserts = [], t_node_updates = [], t_node_deletes = [], t_edge_inserts = [],
      t_edge_deletes = [], t_prop_writes = []\<rparr>"

section \<open>Buffered writes\<close>

definition tr_create_node ::
  "LabelId list \<Rightarrow> u32 \<Rightarrow> transaction \<Rightarrow> database \<Rightarrow> NodeId \<times> transaction \<times> database" where
  "tr_create_node labels props_row t db =
     (let (i, ns) = ns_alloc_id_direct (db_nodes db)
      in (i, t\<lparr>t_node_inserts := t_node_inserts t @ [(i, labels, props_row)]\<rparr>, db\<lparr>db_nodes := ns\<rparr>))"

definition tr_update_node_labels :: "NodeId \<Rightarrow> LabelId list \<Rightarrow> transaction \<Rightarrow> transaction" where
  "tr_update_node_labels i labels t = t\<lparr>t_node_updates := t_node_updates t @ [(i, labels)]\<rparr>"

definition tr_delete_node :: "NodeId \<Rightarrow> transaction \<Rightarrow> transaction" where
  "tr_delete_node i t = t\<lparr>t_node_deletes := t_node_deletes t @ [i]\<rparr>"

definition tr_create_edge ::
  "NodeId \<Rightarrow> NodeId \<Rightarrow> LabelId \<Rightarrow> u32 \<Rightarrow> transaction \<Rightarrow> database \<Rightarrow> EdgeId \<times> transaction \<times> database" where
  "tr_create_edge src dst etype props_row t db =
     (let (i, es) = es_alloc_id_direct (db_edges db)
      in (i, t\<lparr>t_edge_inserts := t_edge_inserts t @ [(i, src, dst, etype, props_row)]\<rparr>, db\<lparr>db_edges := es\<rparr>))"

definition tr_delete_edge :: "EdgeId \<Rightarrow> transaction \<Rightarrow> transaction" where
  "tr_delete_edge i t = t\<lparr>t_edge_deletes := t_edge_deletes t @ [i]\<rparr>"

definition tr_set_prop :: "LabelId \<Rightarrow> rstring \<Rightarrow> u32 \<Rightarrow> val option \<Rightarrow> transaction \<Rightarrow> transaction" where
  "tr_set_prop label prop row v t = t\<lparr>t_prop_writes := t_prop_writes t @ [(label, prop, row, v)]\<rparr>"

section \<open>Reads\<close>

definition tr_get_node :: "NodeId \<Rightarrow> transaction \<Rightarrow> database \<Rightarrow> node option" where
  "tr_get_node i t db =
     (case ns_get i (db_nodes db) of
       Some n \<Rightarrow> if node_is_alive n (t_snapshot t) then Some n else None
     | None \<Rightarrow> None)"

definition tr_get_edge :: "EdgeId \<Rightarrow> transaction \<Rightarrow> database \<Rightarrow> edge option" where
  "tr_get_edge i t db =
     (case es_get i (db_edges db) of
       Some e \<Rightarrow> if edge_is_alive e (t_snapshot t) then Some e else None
     | None \<Rightarrow> None)"

section \<open>Commit and rollback\<close>

text \<open>Phase 2 of \<open>commit\<close>, store by store, and phase 3.\<close>

definition tr_apply_nodes :: "codecs \<Rightarrow> transaction \<Rightarrow> node_store \<Rightarrow> node_store" where
  "tr_apply_nodes c t s =
     (let s1 = fold (\<lambda>(i, labels, props_row) s. ns_insert_with_id (c_node c) i labels props_row (t_tx_id t) s)
            (t_node_inserts t) s;
          s2 = fold (\<lambda>(i, labels) s. snd (ns_update_labels (c_node c) i labels (t_tx_id t) s)) (t_node_updates t) s1
      in fold (\<lambda>i s. snd (ns_soft_delete (c_node c) i (t_tx_id t) s)) (t_node_deletes t) s2)"

definition tr_apply_edges :: "codecs \<Rightarrow> transaction \<Rightarrow> edge_store \<Rightarrow> edge_store" where
  "tr_apply_edges c t s =
     (let s1 = fold (\<lambda>(i, src, dst, etype, props_row) s.
            es_insert_with_id (c_edge c) i src dst etype props_row (t_tx_id t) s) (t_edge_inserts t) s
      in fold (\<lambda>i s. snd (es_soft_delete (c_edge c) i (t_tx_id t) s)) (t_edge_deletes t) s1)"

definition tr_apply_props :: "codecs \<Rightarrow> transaction \<Rightarrow> prop_store \<Rightarrow> prop_store" where
  "tr_apply_props c t s =
     fold (\<lambda>(label, prop, row, v) s. snd (ps_insert_prop (c_val c) label prop row v s)) (t_prop_writes t) s"

datatype commit_result = Commit_Ok | Commit_Err string

text \<open>\<open>now\<close> is the clock of the flushes.\<close>

definition tr_commit ::
  "codecs \<Rightarrow> nat \<Rightarrow> transaction \<Rightarrow> database \<Rightarrow> commit_result \<times> transaction \<times> database" where
  "tr_commit c now t db =
     (if \<not> t_is_write t then (Commit_Ok, t, db)
      else if t_committed t then (Commit_Err ''already committed or rolled back'', t, db)
      else
        (case tm_commit (t_tx_id t) (db_tx_manager db) of
          (False, _) \<Rightarrow> (Commit_Err ''timeout'', t, db)
        | (True, tm) \<Rightarrow>
            let t1 = t\<lparr>t_committed := True\<rparr>;
                db1 = db\<lparr>db_tx_manager := tm\<rparr>;
                db2 = db1\<lparr>db_nodes := tr_apply_nodes c t (db_nodes db1),
                         db_edges := tr_apply_edges c t (db_edges db1),
                         db_props := tr_apply_props c t (db_props db1)\<rparr>;
                db3 = db2\<lparr>db_nodes := ns_flush now (db_nodes db2), db_edges := es_flush now (db_edges db2),
                         db_props := ps_flush now (db_props db2)\<rparr>
            in (Commit_Ok, t1, db3)))"

text \<open>\<open>rollback\<close> waits for the ticket's turn: \<open>None\<close> if, with no other thread running, it never comes.\<close>

definition tr_rollback :: "transaction \<Rightarrow> database \<Rightarrow> (transaction \<times> database) option" where
  "tr_rollback t db =
     (if t_is_write t then
        (case tm_rollback (t_tx_id t) (db_tx_manager db) of
          None \<Rightarrow> None
        | Some tm \<Rightarrow> Some (t\<lparr>t_committed := True\<rparr>, db\<lparr>db_tx_manager := tm\<rparr>))
      else Some (t, db))"

definition tr_drop :: "transaction \<Rightarrow> database \<Rightarrow> database option" where
  "tr_drop t db =
     (if t_is_write t \<and> \<not> t_committed t then
        (case tm_rollback (t_tx_id t) (db_tx_manager db) of
          None \<Rightarrow> None
        | Some tm \<Rightarrow> Some (db\<lparr>db_tx_manager := tm\<rparr>))
      else Some db)"

section \<open>The database\<close>

definition db_open ::
  "codecs \<Rightarrow> bool \<Rightarrow> nat \<Rightarrow> ofile \<Rightarrow> ofile \<Rightarrow> ofile \<Rightarrow> Consistency \<Rightarrow> database outcome" where
  "db_open c checks now fn fe fp k =
     (case ns_open (c_node c) checks now fn k of
       Err e \<Rightarrow> Err e
     | Panicked \<Rightarrow> Panicked
     | Ok ns \<Rightarrow>
         (case es_open (c_edge c) checks now fe k of
           Err e \<Rightarrow> Err e
         | Panicked \<Rightarrow> Panicked
         | Ok es \<Rightarrow>
             (case ps_open (c_val c) checks now fp k of
               Err e \<Rightarrow> Err e
             | Panicked \<Rightarrow> Panicked
             | Ok ps \<Rightarrow> Ok \<lparr>db_tx_manager = tm_new, db_nodes = ns, db_edges = es, db_props = ps\<rparr>)))"

definition db_memory :: database where
  "db_memory = \<lparr>db_tx_manager = tm_new, db_nodes = ns_with_capacity 1024,
     db_edges = es_with_capacity 1024, db_props = ps_new\<rparr>"

definition db_begin_read :: "database \<Rightarrow> transaction" where
  "db_begin_read db = transaction_new 0 (tm_begin_read (db_tx_manager db)) False"

definition db_begin_write :: "database \<Rightarrow> transaction \<times> database" where
  "db_begin_write db =
     (let (tx_id, tm) = tm_begin_write (db_tx_manager db);
          snap = tm_latest_committed tm
      in (transaction_new tx_id snap True, db\<lparr>db_tx_manager := tm\<rparr>))"

section \<open>Lemmas: what commit does to the maps\<close>

lemma ns_flush_nodes [simp]: "ns_nodes (ns_flush now s) = ns_nodes s"
  by (simp add: ns_flush_def split: option.split)

lemma es_flush_edges [simp]: "es_edges (es_flush now s) = es_edges s"
  by (simp add: es_flush_def split: option.split)

lemma ps_flush_columns [simp]: "ps_columns (ps_flush now s) = ps_columns s"
  by (simp add: ps_flush_def split: option.split)

lemma tr_commit_Ok:
  assumes "t_is_write t" and "\<not> t_committed t" and "tm_committed_tx_id (db_tx_manager db) = t_tx_id t - 1"
  shows "\<exists>db'. tr_commit c now t db = (Commit_Ok, t\<lparr>t_committed := True\<rparr>, db') \<and>
    db_tx_manager db' = (db_tx_manager db)\<lparr>tm_committed_tx_id := t_tx_id t\<rparr> \<and>
    db_nodes db' = ns_flush now (tr_apply_nodes c t (db_nodes db)) \<and>
    db_edges db' = es_flush now (tr_apply_edges c t (db_edges db)) \<and>
    db_props db' = ps_flush now (tr_apply_props c t (db_props db))"
  using assms by (simp add: tr_commit_def tm_commit_eq Let_def)

text \<open>The node map after phase 2, node by node.\<close>

definition tr_node_after :: "transaction \<Rightarrow> (NodeId \<rightharpoonup> node) \<Rightarrow> (NodeId \<rightharpoonup> node)" where
  "tr_node_after t m =
     (let m1 = fold (\<lambda>(i, labels, row) m. m(i \<mapsto> node_new i labels row (t_tx_id t))) (t_node_inserts t) m;
          m2 = fold (\<lambda>(i, labels) m. m(i := map_option (\<lambda>n. n\<lparr>n_labels := labels, n_created_tx := t_tx_id t\<rparr>) (m i)))
            (t_node_updates t) m1
      in fold (\<lambda>i m. m(i := map_option (node_mark_deleted (t_tx_id t)) (m i))) (t_node_deletes t) m2)"

lemma fold_commute_map:
  assumes "\<And>x s. f (g x s) = h x (f s)"
  shows "f (fold g xs s) = fold h xs (f s)"
  using assms by (induction xs arbitrary: s) simp_all

lemma tr_apply_nodes_map: "ns_nodes (tr_apply_nodes c t s) = tr_node_after t (ns_nodes s)"
proof -
  have 1: "ns_nodes (fold (\<lambda>(i, l, r) s. ns_insert_with_id (c_node c) i l r tx s) xs s) =
      fold (\<lambda>(i, l, r) m. m(i \<mapsto> node_new i l r tx)) xs (ns_nodes s)" for xs s tx
    by (rule fold_commute_map) (auto split: prod.split)
  have 2: "ns_nodes (fold (\<lambda>(i, l) s. snd (ns_update_labels (c_node c) i l tx s)) xs s) =
      fold (\<lambda>(i, l) m. m(i := map_option (\<lambda>n. n\<lparr>n_labels := l, n_created_tx := tx\<rparr>) (m i))) xs (ns_nodes s)"
    for xs s tx
    by (rule fold_commute_map) (auto simp: ns_modify_ops ns_modify_nodes split: prod.split)
  have 3: "ns_nodes (fold (\<lambda>i s. snd (ns_soft_delete (c_node c) i tx s)) xs s) =
      fold (\<lambda>i m. m(i := map_option (node_mark_deleted tx) (m i))) xs (ns_nodes s)" for xs s tx
    by (rule fold_commute_map) (auto simp: ns_modify_ops ns_modify_nodes)
  show ?thesis
    by (simp add: tr_apply_nodes_def tr_node_after_def Let_def 1 2 3)
qed

lemma fold_map_at:
  assumes "\<And>x. g (g x) = g x"
  shows "fold (\<lambda>i m. m(i := map_option g (m i))) xs m = (\<lambda>i. if i \<in> set xs then map_option g (m i) else m i)"
proof (induction xs arbitrary: m)
  case Nil
  then show ?case by simp
next
  case (Cons x xs)
  have "map_option g (map_option g n) = map_option g n" for n
    by (cases n) (simp_all add: assms)
  then show ?case unfolding fold_simps(2) Cons.IH by (intro ext) simp
qed

text \<open>Of several writes under one key the last stands.\<close>

lemma map_of_rev_distinct: "distinct (map fst xs) \<Longrightarrow> map_of (rev xs) = map_of xs"
  by (rule map_of_inject_set [THEN iffD2]) (simp_all flip: rev_map)

lemma fold_insert_at:
  "fold (\<lambda>x m. m(fst x \<mapsto> mk (fst x) (snd x))) xs m i =
    (case map_of (rev xs) i of Some x \<Rightarrow> Some (mk i x) | None \<Rightarrow> m i)"
  by (induction xs rule: rev_induct) (auto split: option.split)

lemma fold_mark_deleted:
  "fold (\<lambda>i m. m(i := map_option (node_mark_deleted tx) (m i))) xs m =
     (\<lambda>i. if i \<in> set xs then map_option (node_mark_deleted tx) (m i) else m i)"
  "fold (\<lambda>i m. m(i := map_option (edge_mark_deleted tx) (m i))) xs m' =
     (\<lambda>i. if i \<in> set xs then map_option (edge_mark_deleted tx) (m' i) else m' i)"
  by (rule fold_map_at, simp add: node_mark_deleted_def edge_mark_deleted_def)+

lemma fold_insert_nodes:
  "fold (\<lambda>(i, l, r) m. m(i \<mapsto> node_new i l r tx)) xs m i =
    (case map_of (rev xs) i of Some x \<Rightarrow> Some (node_new i (fst x) (snd x) tx) | None \<Rightarrow> m i)"
proof -
  have "(\<lambda>(i, l, r) m. m(i \<mapsto> node_new i l r tx)) = (\<lambda>x m. m(fst x \<mapsto> node_new (fst x) (fst (snd x)) (snd (snd x)) tx))"
    by (simp add: fun_eq_iff)
  then show ?thesis
    using fold_insert_at [where mk = "\<lambda>i x. node_new i (fst x) (snd x) tx"] by simp
qed

lemma fold_insert_edges:
  "fold (\<lambda>(i, s, d, y, r) m. m(i \<mapsto> edge_new i s d y r tx)) xs m i =
    (case map_of (rev xs) i of
      Some x \<Rightarrow> Some (edge_new i (fst x) (fst (snd x)) (fst (snd (snd x))) (snd (snd (snd x))) tx) | None \<Rightarrow> m i)"
proof -
  have "(\<lambda>(i, s, d, y, r) m. m(i \<mapsto> edge_new i s d y r tx)) =
      (\<lambda>x m. m(fst x \<mapsto> edge_new (fst x) (fst (snd x)) (fst (snd (snd x))) (fst (snd (snd (snd x))))
        (snd (snd (snd (snd x)))) tx))"
    by (simp add: fun_eq_iff)
  then show ?thesis
    using fold_insert_at [where mk = "\<lambda>i x. edge_new i (fst x) (fst (snd x)) (fst (snd (snd x)))
      (snd (snd (snd x))) tx"] by simp
qed

lemma fold_update_nodes:
  "fold (\<lambda>(i, l) m. m(i := map_option (\<lambda>n. n\<lparr>n_labels := l, n_created_tx := tx\<rparr>) (m i))) us m i =
    (case map_of (rev us) i of Some l \<Rightarrow> map_option (\<lambda>n. n\<lparr>n_labels := l, n_created_tx := tx\<rparr>) (m i) | None \<Rightarrow> m i)"
proof (induction us rule: rev_induct)
  case Nil
  then show ?case by simp
next
  case (snoc u us)
  then show ?case by (cases u; cases "m i") (auto split: option.split)
qed

text \<open>A node after phase 2: inserted, then given new labels, then marked deleted.\<close>

lemma tr_node_after_at:
  "tr_node_after t m i =
    (let n = (case map_of (rev (t_node_inserts t)) i of
         Some x \<Rightarrow> Some (node_new i (fst x) (snd x) (t_tx_id t)) | None \<Rightarrow> m i);
       n1 = (case map_of (rev (t_node_updates t)) i of
         Some l \<Rightarrow> map_option (\<lambda>n. n\<lparr>n_labels := l, n_created_tx := t_tx_id t\<rparr>) n | None \<Rightarrow> n)
     in if i \<in> set (t_node_deletes t) then map_option (node_mark_deleted (t_tx_id t)) n1 else n1)"
  by (simp add: tr_node_after_def fold_mark_deleted fold_insert_nodes fold_update_nodes Let_def split: option.split)

text \<open>For a transaction that does not update labels.\<close>

lemma tr_node_after_cases:
  assumes "t_node_updates t = []" and "distinct (map fst (t_node_inserts t))"
  shows "tr_node_after t m i =
    (let n = (case map_of (t_node_inserts t) i of
         Some x \<Rightarrow> Some (node_new i (fst x) (snd x) (t_tx_id t)) | None \<Rightarrow> m i)
     in if i \<in> set (t_node_deletes t) then map_option (node_mark_deleted (t_tx_id t)) n else n)"
  by (simp add: tr_node_after_at assms map_of_rev_distinct)

lemma es_soft_delete_edges:
  "es_edges (snd (es_soft_delete c i tx s)) = (es_edges s)(i := map_option (edge_mark_deleted tx) (es_edges s i))"
  by (auto simp: es_soft_delete_def edge_mark_deleted_def Let_def fun_upd_idem split: option.split)

lemma es_insert_with_id_edges [simp]:
  "es_edges (es_insert_with_id c i src dst y row tx s) = (es_edges s)(i \<mapsto> edge_new i src dst y row tx)"
  by (simp add: es_insert_with_id_def Let_def)

lemma tr_edge_after_at:
  "es_edges (tr_apply_edges c t s) i =
    (let e = (case map_of (rev (t_edge_inserts t)) i of
         Some x \<Rightarrow> Some (edge_new i (fst x) (fst (snd x)) (fst (snd (snd x))) (snd (snd (snd x))) (t_tx_id t))
       | None \<Rightarrow> es_edges s i)
     in if i \<in> set (t_edge_deletes t) then map_option (edge_mark_deleted (t_tx_id t)) e else e)"
proof -
  have 1: "es_edges (fold (\<lambda>(i, src, dst, y, row) s. es_insert_with_id (c_edge c) i src dst y row tx s) xs s) =
      fold (\<lambda>(i, s, d, y, r) m. m(i \<mapsto> edge_new i s d y r tx)) xs (es_edges s)" for xs s tx
    by (rule fold_commute_map) (auto split: prod.split)
  have 2: "es_edges (fold (\<lambda>i s. snd (es_soft_delete (c_edge c) i tx s)) xs s) =
      fold (\<lambda>i m. m(i := map_option (edge_mark_deleted tx) (m i))) xs (es_edges s)" for xs s tx
    by (rule fold_commute_map) (simp add: es_soft_delete_edges)
  show ?thesis
    by (simp add: tr_apply_edges_def 1 2 fold_mark_deleted fold_insert_edges Let_def)
qed

lemma tr_edge_after_cases:
  assumes "distinct (map fst (t_edge_inserts t))"
  shows "es_edges (tr_apply_edges c t s) i =
    (let e = (case map_of (t_edge_inserts t) i of
         Some x \<Rightarrow> Some (edge_new i (fst x) (fst (snd x)) (fst (snd (snd x))) (snd (snd (snd x))) (t_tx_id t))
       | None \<Rightarrow> es_edges s i)
     in if i \<in> set (t_edge_deletes t) then map_option (edge_mark_deleted (t_tx_id t)) e else e)"
  by (simp add: tr_edge_after_at assms map_of_rev_distinct)

lemma tr_commit_cases:
  assumes "tr_commit c now t db = (r, t', db')"
  obtains (unchanged) "db' = db" "r \<noteq> Commit_Ok \<or> \<not> t_is_write t"
  | (applied) "r = Commit_Ok" "t_is_write t" "t' = t\<lparr>t_committed := True\<rparr>"
      "db_tx_manager db' = (db_tx_manager db)\<lparr>tm_committed_tx_id := t_tx_id t\<rparr>"
      "db_nodes db' = ns_flush now (tr_apply_nodes c t (db_nodes db))"
      "db_edges db' = es_flush now (tr_apply_edges c t (db_edges db))"
      "db_props db' = ps_flush now (tr_apply_props c t (db_props db))"
  using assms by (auto simp: tr_commit_def tm_commit_eq Let_def split: if_splits)

text \<open>What a reader at the snapshot of the committed transaction sees of a node or an edge.\<close>

definition node_at :: "node option \<Rightarrow> TxId \<Rightarrow> node option" where
  "node_at x tx = (case x of Some n \<Rightarrow> if node_is_alive n tx then Some n else None | None \<Rightarrow> None)"

definition edge_at :: "edge option \<Rightarrow> TxId \<Rightarrow> edge option" where
  "edge_at x tx = (case x of Some e \<Rightarrow> if edge_is_alive e tx then Some e else None | None \<Rightarrow> None)"

lemma tr_get_node_at: "tr_get_node i rd db = node_at (ns_nodes (db_nodes db) i) (t_snapshot rd)"
  by (simp add: tr_get_node_def ns_get_def node_at_def split: option.split)

lemma tr_get_edge_at: "tr_get_edge i rd db = edge_at (es_edges (db_edges db) i) (t_snapshot rd)"
  by (simp add: tr_get_edge_def es_get_def edge_at_def split: option.split)

lemma tr_node_after_seen:
  assumes "t_tx_id t < MAX_TX_ID"
    and "ins = map_of (rev (t_node_inserts t))" and "upd = map_of (rev (t_node_updates t))"
  shows "i \<in> set (t_node_deletes t) \<Longrightarrow> node_at (tr_node_after t m i) (t_tx_id t) = None"
    and "i \<notin> set (t_node_deletes t) \<Longrightarrow> ins i = Some (l, r) \<Longrightarrow> node_at (tr_node_after t m i) (t_tx_id t) =
      Some (node_new i (case upd i of Some l' \<Rightarrow> l' | None \<Rightarrow> l) r (t_tx_id t))"
    and "i \<notin> set (t_node_deletes t) \<Longrightarrow> ins i = None \<Longrightarrow> upd i = Some l \<Longrightarrow> node_at (tr_node_after t m i) (t_tx_id t) =
      (case m i of
        Some n \<Rightarrow> if t_tx_id t < n_deleted_tx n then Some (n\<lparr>n_labels := l, n_created_tx := t_tx_id t\<rparr>) else None
      | None \<Rightarrow> None)"
    and "i \<notin> set (t_node_deletes t) \<Longrightarrow> ins i = None \<Longrightarrow> upd i = None \<Longrightarrow> tr_node_after t m i = m i"
proof -
  note after = tr_node_after_at [of t m i, folded assms(2,3), unfolded Let_def]
  show "node_at (tr_node_after t m i) (t_tx_id t) = None" if "i \<in> set (t_node_deletes t)"
    using that nv.mark_hides [of "t_tx_id t" "t_tx_id t"] unfolding after node_at_def by (auto split: option.split)
  show "node_at (tr_node_after t m i) (t_tx_id t) =
      Some (node_new i (case upd i of Some l' \<Rightarrow> l' | None \<Rightarrow> l) r (t_tx_id t))"
    if "i \<notin> set (t_node_deletes t)" "ins i = Some (l, r)"
    using that assms(1) by (cases "upd i") (simp_all add: node_at_def after node_is_alive_def node_new_def)
qed (simp_all add: tr_node_after_at node_at_def node_is_alive_def flip: assms(2,3) split: option.split)

lemma tr_edge_after_seen:
  assumes "t_tx_id t < MAX_TX_ID" and "ins = map_of (rev (t_edge_inserts t))"
  shows "i \<in> set (t_edge_deletes t) \<Longrightarrow> edge_at (es_edges (tr_apply_edges c t s) i) (t_tx_id t) = None"
    and "i \<notin> set (t_edge_deletes t) \<Longrightarrow> ins i = Some (src, dst, y, r) \<Longrightarrow>
      edge_at (es_edges (tr_apply_edges c t s) i) (t_tx_id t) = Some (edge_new i src dst y r (t_tx_id t))"
    and "i \<notin> set (t_edge_deletes t) \<Longrightarrow> ins i = None \<Longrightarrow> es_edges (tr_apply_edges c t s) i = es_edges s i"
proof -
  note after = tr_edge_after_at [of c t s i, folded assms(2), unfolded Let_def]
  show "edge_at (es_edges (tr_apply_edges c t s) i) (t_tx_id t) = None" if "i \<in> set (t_edge_deletes t)"
    using that ev.mark_hides [of "t_tx_id t" "t_tx_id t"] unfolding after edge_at_def by (auto split: option.split)
  show "edge_at (es_edges (tr_apply_edges c t s) i) (t_tx_id t) = Some (edge_new i src dst y r (t_tx_id t))"
    if "i \<notin> set (t_edge_deletes t)" "ins i = Some (src, dst, y, r)"
    using that assms(1) by (simp add: edge_at_def after edge_is_alive_def edge_new_def)
qed (simp add: tr_edge_after_at flip: assms(2))

text \<open>
  A transaction whose writes do not collide: what it creates is new, and what it deletes is not
  deleted yet. \<open>create_node\<close> and \<open>create_edge\<close> see to the first.
\<close>

definition tr_clean :: "transaction \<Rightarrow> database \<Rightarrow> bool" where
  "tr_clean t db \<longleftrightarrow>
     distinct (map fst (t_node_inserts t)) \<and> distinct (map fst (t_edge_inserts t)) \<and>
     (\<forall>i\<in>fst ` set (t_node_inserts t). ns_nodes (db_nodes db) i = None) \<and>
     (\<forall>i\<in>fst ` set (t_edge_inserts t). es_edges (db_edges db) i = None) \<and>
     (\<forall>i\<in>set (t_node_deletes t). case ns_nodes (db_nodes db) i of Some n \<Rightarrow> n_deleted_tx n = MAX_TX_ID | None \<Rightarrow> True) \<and>
     (\<forall>i\<in>set (t_edge_deletes t). case es_edges (db_edges db) i of Some e \<Rightarrow> e_deleted_tx e = MAX_TX_ID | None \<Rightarrow> True)"

lemma tr_cleanD:
  assumes "tr_clean t db"
  shows "distinct (map fst (t_node_inserts t))" and "distinct (map fst (t_edge_inserts t))"
    and "(i, x) \<in> set (t_node_inserts t) \<Longrightarrow> ns_nodes (db_nodes db) i = None"
    and "(j, y) \<in> set (t_edge_inserts t) \<Longrightarrow> es_edges (db_edges db) j = None"
  using assms by (force simp: tr_clean_def)+

text \<open>What a reader sees of a version, apart from the mark of a later deletion.\<close>

definition node_seen :: "node option \<Rightarrow> TxId \<Rightarrow> node option" where
  "node_seen x tx = (case x of Some n \<Rightarrow> if node_is_alive n tx then Some (n\<lparr>n_deleted_tx := 0\<rparr>) else None | None \<Rightarrow> None)"

definition edge_seen :: "edge option \<Rightarrow> TxId \<Rightarrow> edge option" where
  "edge_seen x tx = (case x of Some e \<Rightarrow> if edge_is_alive e tx then Some (e\<lparr>e_deleted_tx := 0\<rparr>) else None | None \<Rightarrow> None)"

lemma node_seen_marked:
  assumes "case x of Some n \<Rightarrow> n_deleted_tx n = MAX_TX_ID | None \<Rightarrow> True" and "tx < t"
  shows "node_seen (map_option (node_mark_deleted t) x) tx = node_seen x tx"
proof (cases x)
  case (Some n)
  with assms nv.mark_live_keeps_older [of n tx t] show ?thesis
    by (simp add: node_seen_def) (simp add: node_mark_deleted_def)
qed (simp add: node_seen_def)

lemma edge_seen_marked:
  assumes "case x of Some e \<Rightarrow> e_deleted_tx e = MAX_TX_ID | None \<Rightarrow> True" and "tx < t"
  shows "edge_seen (map_option (edge_mark_deleted t) x) tx = edge_seen x tx"
proof (cases x)
  case (Some e)
  with assms ev.mark_live_keeps_older [of e tx t] show ?thesis
    by (simp add: edge_seen_def) (simp add: edge_mark_deleted_def)
qed (simp add: edge_seen_def)

lemma node_unseen_new: "n_created_tx n = t \<Longrightarrow> tx < t \<Longrightarrow> node_seen (Some n) tx = None"
  by (auto simp: node_seen_def node_is_alive_def)

lemma edge_unseen_new: "e_created_tx e = t \<Longrightarrow> tx < t \<Longrightarrow> edge_seen (Some e) tx = None"
  by (auto simp: edge_seen_def edge_is_alive_def)

lemma tr_node_stable:
  assumes "tr_clean t db" and "t_node_updates t = []" and "tx < t_tx_id t"
  shows "node_seen (tr_node_after t (ns_nodes (db_nodes db)) i) tx = node_seen (ns_nodes (db_nodes db) i) tx"
proof -
  note cases = tr_node_after_cases [OF assms(2), of "ns_nodes (db_nodes db)" i]
  show ?thesis
  proof (cases "map_of (t_node_inserts t) i")
    case None
    with cases assms node_seen_marked [of "ns_nodes (db_nodes db) i" tx "t_tx_id t"] show ?thesis
      by (simp add: tr_clean_def Let_def)
  next
    case (Some x)
    then have "ns_nodes (db_nodes db) i = None"
      using tr_cleanD(3) [OF assms(1)] by (blast dest: map_of_SomeD)
    moreover obtain n where "tr_node_after t (ns_nodes (db_nodes db)) i = Some n" "n_created_tx n = t_tx_id t"
      using cases assms(1) Some by (auto simp: tr_clean_def Let_def node_mark_deleted_def split: if_splits)
    ultimately show ?thesis using node_unseen_new assms(3) by (simp add: node_seen_def)
  qed
qed

lemma tr_edge_stable:
  assumes "tr_clean t db" and "tx < t_tx_id t"
  shows "edge_seen (es_edges (tr_apply_edges c t (db_edges db)) i) tx = edge_seen (es_edges (db_edges db) i) tx"
proof -
  note cases = tr_edge_after_cases [of t c "db_edges db" i]
  show ?thesis
  proof (cases "map_of (t_edge_inserts t) i")
    case None
    with cases assms edge_seen_marked [of "es_edges (db_edges db) i" tx "t_tx_id t"] show ?thesis
      by (simp add: tr_clean_def Let_def)
  next
    case (Some x)
    then have "es_edges (db_edges db) i = None"
      using tr_cleanD(4) [OF assms(1)] by (blast dest: map_of_SomeD)
    moreover obtain e where "es_edges (tr_apply_edges c t (db_edges db)) i = Some e" "e_created_tx e = t_tx_id t"
      using cases assms(1) Some by (auto simp: tr_clean_def Let_def edge_mark_deleted_def split: if_splits)
    ultimately show ?thesis using edge_unseen_new assms(2) by (simp add: edge_seen_def)
  qed
qed

lemma tr_get_node_seen: "map_option (\<lambda>n. n\<lparr>n_deleted_tx := 0\<rparr>) (tr_get_node i rd db) = node_seen (ns_nodes (db_nodes db) i) (t_snapshot rd)"
  by (simp add: tr_get_node_def ns_get_def node_seen_def split: option.split)

lemma tr_get_edge_seen: "map_option (\<lambda>e. e\<lparr>e_deleted_tx := 0\<rparr>) (tr_get_edge i rd db) = edge_seen (es_edges (db_edges db) i) (t_snapshot rd)"
  by (simp add: tr_get_edge_def es_get_def edge_seen_def split: option.split)

text \<open>Updating labels moves the creation of the version to the updating transaction.\<close>

lemma tr_updated_created:
  assumes "i \<in> fst ` set (t_node_updates t)" and "tr_node_after t m i = Some n"
  shows "n_created_tx n = t_tx_id t"
proof -
  from assms(1) obtain l where "map_of (rev (t_node_updates t)) i = Some l"
    by (metis map_of_eq_None_iff not_None_eq set_rev)
  with assms(2) show ?thesis
    by (auto simp: tr_node_after_at Let_def node_mark_deleted_def split: if_splits)
qed

text \<open>The property cells after phase 2: the last write to a cell stands.\<close>

lemma tr_apply_props_get:
  "ps_get_prop l n r (tr_apply_props c t s) =
    (case map_of (rev (map (\<lambda>(l, n, r, v). ((l, n, r), v)) (t_prop_writes t))) (l, n, r) of
      Some v \<Rightarrow> v | None \<Rightarrow> ps_get_prop l n r s)"
proof -
  have "ps_get_prop l n r (fold (\<lambda>(l, n, r, v) s. snd (ps_insert_prop (c_val c) l n r v s)) ws s) =
    (case map_of (rev (map (\<lambda>(l, n, r, v). ((l, n, r), v)) ws)) (l, n, r) of Some v \<Rightarrow> v | None \<Rightarrow> ps_get_prop l n r s)" for ws
    by (induction ws rule: rev_induct) (auto simp: ps_get_put split: prod.split)
  then show ?thesis by (simp add: tr_apply_props_def)
qed

text \<open>Commit as runs of the three stores.\<close>

definition tr_node_ops :: "transaction \<Rightarrow> node_op list" where
  "tr_node_ops t = map (\<lambda>(i, l, r). NInsertWithId i l r (t_tx_id t)) (t_node_inserts t) @
     map (\<lambda>(i, l). NUpdateLabels i l (t_tx_id t)) (t_node_updates t) @
     map (\<lambda>i. NSoftDelete i (t_tx_id t)) (t_node_deletes t)"

definition tr_edge_ops :: "transaction \<Rightarrow> edge_op list" where
  "tr_edge_ops t = map (\<lambda>(i, s, d, y, r). EInsertWithId i s d y r (t_tx_id t)) (t_edge_inserts t) @
     map (\<lambda>i. ESoftDelete i (t_tx_id t)) (t_edge_deletes t)"

definition tr_prop_ops :: "transaction \<Rightarrow> prop_op list" where
  "tr_prop_ops t = map (\<lambda>(l, n, r, v). PInsert l n r v) (t_prop_writes t)"

lemma tr_apply_runs:
  "tr_apply_nodes c t s = fold (ns_exec (c_node c)) (tr_node_ops t) s"
  "tr_apply_edges c t s' = fold (es_exec (c_edge c)) (tr_edge_ops t) s'"
  "tr_apply_props c t s'' = fold (ps_exec (c_val c)) (tr_prop_ops t) s''"
proof -
  let ?tx = "t_tx_id t"
  have n: "(\<lambda>(i, l, r) s. ns_insert_with_id (c_node c) i l r ?tx s) = ns_exec (c_node c) \<circ> (\<lambda>(i, l, r). NInsertWithId i l r ?tx)"
    "(\<lambda>(i, l) s. snd (ns_update_labels (c_node c) i l ?tx s)) = ns_exec (c_node c) \<circ> (\<lambda>(i, l). NUpdateLabels i l ?tx)"
    "(\<lambda>i s. snd (ns_soft_delete (c_node c) i ?tx s)) = ns_exec (c_node c) \<circ> (\<lambda>i. NSoftDelete i ?tx)"
    by (simp_all add: fun_eq_iff)
  have e: "(\<lambda>(i, a, b, y, r) s. es_insert_with_id (c_edge c) i a b y r ?tx s) =
      es_exec (c_edge c) \<circ> (\<lambda>(i, a, b, y, r). EInsertWithId i a b y r ?tx)"
    "(\<lambda>i s. snd (es_soft_delete (c_edge c) i ?tx s)) = es_exec (c_edge c) \<circ> (\<lambda>i. ESoftDelete i ?tx)"
    by (simp_all add: fun_eq_iff)
  have p: "(\<lambda>(l, n, r, v) s. snd (ps_insert_prop (c_val c) l n r v s)) = ps_exec (c_val c) \<circ> (\<lambda>(l, n, r, v). PInsert l n r v)"
    by (simp add: fun_eq_iff)
  show "tr_apply_nodes c t s = fold (ns_exec (c_node c)) (tr_node_ops t) s"
    unfolding tr_apply_nodes_def Let_def n tr_node_ops_def fold_append fold_map comp_def by simp
  show "tr_apply_edges c t s' = fold (es_exec (c_edge c)) (tr_edge_ops t) s'"
    unfolding tr_apply_edges_def Let_def e tr_edge_ops_def fold_append fold_map comp_def by simp
  show "tr_apply_props c t s'' = fold (ps_exec (c_val c)) (tr_prop_ops t) s''"
    unfolding tr_apply_props_def p tr_prop_ops_def fold_map by simp
qed

section \<open>Example\<close>

definition codecs_example :: codecs where
  "codecs_example = \<lparr>c_node = node_example_codec, c_edge = edge_example_codec, c_val = val_example_codec\<rparr>"

text \<open>One committed node, then a transaction that creates a node, deletes the first and sets a property.\<close>

definition db_example :: database where
  "db_example = db_memory\<lparr>db_tx_manager := \<lparr>tm_next_tx_id = 3, tm_committed_tx_id = 1\<rparr>,
     db_nodes := ns_insert_with_id node_example_codec 0 [7] 0 1 (ns_with_capacity 1024)\<rparr>"

definition tr_example :: transaction where
  "tr_example = tr_set_prop 1 [0x61] 0 (Some (VInt 5)) (tr_delete_node 0
     ((transaction_new 2 1 True)\<lparr>t_node_inserts := [(1, [8], 0)]\<rparr>))"

lemma tr_example_simps [simp]:
  "t_tx_id tr_example = 2" "t_is_write tr_example" "\<not> t_committed tr_example"
  "t_node_inserts tr_example = [(1, [8], 0)]" "t_node_updates tr_example = []"
  "t_node_deletes tr_example = [0]" "t_edge_inserts tr_example = []" "t_edge_deletes tr_example = []"
  "t_prop_writes tr_example = [(1, [0x61], 0, Some (VInt 5))]"
  by (simp_all add: tr_example_def tr_set_prop_def tr_delete_node_def transaction_new_def)

lemma db_example_simps [simp]:
  "tm_committed_tx_id (db_tx_manager db_example) = 1"
  "ns_nodes (db_nodes db_example) = [0 \<mapsto> node_new 0 [7] 0 1]"
  by (simp_all add: db_example_def ns_with_capacity_def)

lemma tr_example_clean: "tr_clean tr_example db_example"
  by (simp add: tr_clean_def)

text \<open>A database opened on an empty directory, and a first transaction that creates one node.\<close>

definition db_example_opened :: database where
  "db_example_opened = \<lparr>db_tx_manager = tm_new, db_nodes = node_example, db_edges = edge_example_opened,
     db_props = prop_example\<rparr>"

definition tr_example_first :: transaction where
  "tr_example_first = (transaction_new 1 0 True)\<lparr>t_node_inserts := [(0, [], 0)]\<rparr>"

definition tr_example_wal :: wal_sys where
  "tr_example_wal =
     (case ns_wal (tr_apply_nodes codecs_example tr_example_first (db_nodes db_example_opened)) of
       Some w \<Rightarrow> w | None \<Rightarrow> wal_example)"

lemma db_example_open:
  "db_open codecs_example False 0 (file_of []) (file_of []) (file_of []) consistency_immediate = Ok db_example_opened"
  by (simp add: db_open_def codecs_example_def db_example_opened_def node_example_open edge_example_run(1)
      prop_example_open)

lemma tr_example_first_run_1: "ns_wal (tr_apply_nodes codecs_example tr_example_first (db_nodes db_example_opened)) = Some tr_example_wal"
  by code_simp

lemma tr_example_first_run_2: "\<forall>r\<in>set (wal_recs ([] @ ws_sent tr_example_wal)). wal_fits r"
  by code_simp

lemma tr_example_first_run_3: "no_max_id (wal_recs ([] @ ws_sent tr_example_wal))"
  by code_simp

lemmas tr_example_first_run = tr_example_first_run_1 tr_example_first_run_2 tr_example_first_run_3

lemma tr_example_first_other:
  "\<exists>w. es_wal (tr_apply_edges codecs_example tr_example_first (db_edges db_example_opened)) = Some w \<and> ws_sent w = []"
  "\<exists>w. ps_wal (tr_apply_props codecs_example tr_example_first (db_props db_example_opened)) = Some w \<and> ws_sent w = []"
  using es_open_Ok [OF edge_example_run(1)] ps_open_Ok [OF prop_example_open] wal_spawn_OkD(7)
  by (fastforce simp: tr_apply_edges_def tr_apply_props_def tr_example_first_def transaction_new_def
      db_example_opened_def)+

section \<open>Properties\<close>

text \<open>
  Snapshot stability: for a reader whose snapshot is older than a transaction, committing that
  transaction changes nothing of what the reader sees of any node or edge, whatever the commit
  returns: same identifiers visible, same contents (up to the mark of the later deletion). The
  transaction must not update labels, must create under new identifiers and delete only what is
  not deleted yet.
\<close>

theorem tx_snapshot_stable:
  assumes "tr_clean t db" and "t_node_updates t = []" and "t_snapshot rd < t_tx_id t"
    and "tr_commit c now t db = (r, t', db')"
  shows "map_option (\<lambda>n. n\<lparr>n_deleted_tx := 0\<rparr>) (tr_get_node i rd db') =
      map_option (\<lambda>n. n\<lparr>n_deleted_tx := 0\<rparr>) (tr_get_node i rd db) \<and>
    map_option (\<lambda>e. e\<lparr>e_deleted_tx := 0\<rparr>) (tr_get_edge j rd db') =
      map_option (\<lambda>e. e\<lparr>e_deleted_tx := 0\<rparr>) (tr_get_edge j rd db)"
  using assms(4)
proof (cases rule: tr_commit_cases)
  case unchanged
  then show ?thesis by simp
next
  case applied
  then show ?thesis
    unfolding tr_get_node_seen tr_get_edge_seen
    using tr_node_stable [OF assms(1-3)] tr_edge_stable [OF assms(1,3)]
    by (simp add: tr_apply_nodes_map)
qed

theorem tx_snapshot_stable_witness:
  "map_option (\<lambda>n. n\<lparr>n_deleted_tx := 0\<rparr>)
      (tr_get_node 0 (transaction_new 0 1 False) (snd (snd (tr_commit codecs_example 0 tr_example db_example)))) =
    map_option (\<lambda>n. n\<lparr>n_deleted_tx := 0\<rparr>) (tr_get_node 0 (transaction_new 0 1 False) db_example)"
proof -
  obtain r t' db' where c: "tr_commit codecs_example 0 tr_example db_example = (r, t', db')"
    by (cases "tr_commit codecs_example 0 tr_example db_example")
  have "t_snapshot (transaction_new 0 1 False) < t_tx_id tr_example" by (simp add: transaction_new_def)
  from tx_snapshot_stable [OF tr_example_clean _ this c, of 0 0] c show ?thesis by simp
qed

text \<open>
  C5. A commit takes effect as a whole for later readers: when it is the transaction's turn, commit succeeds,
  and the snapshot of a read transaction begun next is this transaction. Whatever was buffered, it sees none of
  the nodes and edges deleted; every other node inserted as it was inserted, with the labels of its last update if it was
  also updated; every other node updated, if it is stored and not marked as deleted up to this transaction, with
  the labels of its last update; every other edge inserted as it was inserted. All other nodes and edges are stored
  as they were, and each property cell written reads as its last write, the others as before.
\<close>

theorem tx_commit_visible:
  assumes "t_is_write t" and "\<not> t_committed t" and "tm_committed_tx_id (db_tx_manager db) = t_tx_id t - 1"
    and "t_tx_id t < MAX_TX_ID"
    and "ins = map_of (rev (t_node_inserts t))" and "upd = map_of (rev (t_node_updates t))"
    and "eins = map_of (rev (t_edge_inserts t))"
  shows "\<exists>db' rd. tr_commit c now t db = (Commit_Ok, t\<lparr>t_committed := True\<rparr>, db') \<and>
    rd = db_begin_read db' \<and> t_snapshot rd = t_tx_id t \<and>
    (\<forall>i\<in>set (t_node_deletes t). tr_get_node i rd db' = None) \<and>
    (\<forall>i l r. i \<notin> set (t_node_deletes t) \<and> ins i = Some (l, r) \<longrightarrow>
       tr_get_node i rd db' = Some (node_new i (case upd i of Some l' \<Rightarrow> l' | None \<Rightarrow> l) r (t_tx_id t))) \<and>
    (\<forall>i l. i \<notin> set (t_node_deletes t) \<and> ins i = None \<and> upd i = Some l \<longrightarrow>
       tr_get_node i rd db' =
         (case ns_nodes (db_nodes db) i of
           Some n \<Rightarrow> if t_tx_id t < n_deleted_tx n then Some (n\<lparr>n_labels := l, n_created_tx := t_tx_id t\<rparr>) else None
         | None \<Rightarrow> None)) \<and>
    (\<forall>i. i \<notin> set (t_node_deletes t) \<and> ins i = None \<and> upd i = None \<longrightarrow>
       ns_nodes (db_nodes db') i = ns_nodes (db_nodes db) i) \<and>
    (\<forall>i\<in>set (t_edge_deletes t). tr_get_edge i rd db' = None) \<and>
    (\<forall>i src dst y r. i \<notin> set (t_edge_deletes t) \<and> eins i = Some (src, dst, y, r) \<longrightarrow>
       tr_get_edge i rd db' = Some (edge_new i src dst y r (t_tx_id t))) \<and>
    (\<forall>i. i \<notin> set (t_edge_deletes t) \<and> eins i = None \<longrightarrow> es_edges (db_edges db') i = es_edges (db_edges db) i) \<and>
    (\<forall>l n r. ps_get_prop l n r (db_props db') =
       (case map_of (rev (map (\<lambda>(l, n, r, v). ((l, n, r), v)) (t_prop_writes t))) (l, n, r) of
         Some v \<Rightarrow> v | None \<Rightarrow> ps_get_prop l n r (db_props db)))"
proof -
  obtain db' where commit: "tr_commit c now t db = (Commit_Ok, t\<lparr>t_committed := True\<rparr>, db')"
    and tm: "db_tx_manager db' = (db_tx_manager db)\<lparr>tm_committed_tx_id := t_tx_id t\<rparr>"
    and nodes: "db_nodes db' = ns_flush now (tr_apply_nodes c t (db_nodes db))"
    and edges: "db_edges db' = es_flush now (tr_apply_edges c t (db_edges db))"
    and props: "db_props db' = ps_flush now (tr_apply_props c t (db_props db))"
    using tr_commit_Ok [OF assms(1-3)] by blast
  define rd where "rd = db_begin_read db'"
  have snap: "t_snapshot rd = t_tx_id t"
    by (simp add: rd_def db_begin_read_def transaction_new_def tm_begin_read_def tm)
  have node: "ns_nodes (db_nodes db') = tr_node_after t (ns_nodes (db_nodes db))"
    and edge: "es_edges (db_edges db') = es_edges (tr_apply_edges c t (db_edges db))"
    by (simp_all add: nodes edges tr_apply_nodes_map)
  have get: "tr_get_node i rd db' = node_at (tr_node_after t (ns_nodes (db_nodes db)) i) (t_tx_id t)"
      "tr_get_edge i rd db' = edge_at (es_edges (tr_apply_edges c t (db_edges db)) i) (t_tx_id t)" for i
    by (simp_all add: tr_get_node_at tr_get_edge_at snap node edge)
  have "ps_get_prop l n r (db_props db') = ps_get_prop l n r (tr_apply_props c t (db_props db))" for l n r
    by (simp add: props ps_get_prop_def)
  with commit snap rd_def show ?thesis
    using tr_node_after_seen [OF assms(4-6), where m = "ns_nodes (db_nodes db)"]
      tr_edge_after_seen [OF assms(4,7), where c = c and s = "db_edges db"]
    by (intro exI [of _ db'] exI [of _ rd]) (simp add: get [unfolded rd_def] node edge tr_apply_props_get)
qed

theorem tx_commit_visible_witness:
  "\<exists>db'. tr_commit codecs_example 0 tr_example db_example = (Commit_Ok, tr_example\<lparr>t_committed := True\<rparr>, db') \<and>
    tr_get_node 1 (db_begin_read db') db' = Some (node_new 1 [8] 0 2) \<and>
    tr_get_node 0 (db_begin_read db') db' = None"
proof -
  have "t_tx_id tr_example < MAX_TX_ID" by (simp add: MAX_TX_ID_def)
  from tx_commit_visible [OF _ _ _ this refl refl refl, of db_example codecs_example 0] show ?thesis by auto
qed

text \<open>
  Commit is not atomic for concurrent readers: the ticket is published before the writes are
  applied, so a read transaction begun in between has the committing transaction as its snapshot,
  does not find a node it created, and finds it later at the same snapshot.
\<close>

theorem tx_commit_not_atomic:
  assumes "t_is_write t" and "\<not> t_committed t" and "tm_committed_tx_id (db_tx_manager db) = t_tx_id t - 1"
    and "tr_clean t db" and "t_node_updates t = []" and "t_tx_id t < MAX_TX_ID"
    and "(i, l, r) \<in> set (t_node_inserts t)" and "i \<notin> set (t_node_deletes t)"
    and "db1 = db\<lparr>db_tx_manager := snd (tm_commit (t_tx_id t) (db_tx_manager db))\<rparr>"
    and "tr_commit c now t db = (res, t', db')"
  shows "t_snapshot (db_begin_read db1) = t_tx_id t \<and> tr_get_node i (db_begin_read db1) db1 = None \<and>
    tr_get_node i (db_begin_read db1) db' = Some (node_new i l r (t_tx_id t))"
proof -
  have snap: "t_snapshot (db_begin_read db1) = t_tx_id t"
    by (simp add: assms(3,9) tm_commit_eq db_begin_read_def transaction_new_def tm_begin_read_def)
  have "ns_nodes (db_nodes db) i = None" by (rule tr_cleanD(3) [OF assms(4,7)])
  then have "tr_get_node i (db_begin_read db1) db1 = None"
    by (simp add: tr_get_node_def ns_get_def assms(9))
  moreover have "db_nodes db' = ns_flush now (tr_apply_nodes c t (db_nodes db))"
    using tr_commit_Ok [OF assms(1-3), of c now] assms(10) by auto
  then have "ns_nodes (db_nodes db') i = Some (node_new i l r (t_tx_id t))"
    using assms(4,7,8) tr_node_after_cases [OF assms(5), of "ns_nodes (db_nodes db)" i]
    by (simp add: tr_apply_nodes_map tr_clean_def Let_def)
  then have "tr_get_node i (db_begin_read db1) db' = Some (node_new i l r (t_tx_id t))"
    using assms(6) by (simp add: tr_get_node_def ns_get_def snap node_is_alive_def)
  ultimately show ?thesis using snap by blast
qed

theorem tx_commit_not_atomic_witness:
  "\<exists>db1 db'. tr_get_node 1 (db_begin_read db1) db1 = None \<and> tr_get_node 1 (db_begin_read db1) db' \<noteq> None"
proof -
  obtain r t' db' where c: "tr_commit codecs_example 0 tr_example db_example = (r, t', db')"
    by (cases "tr_commit codecs_example 0 tr_example db_example")
  have "t_tx_id tr_example < MAX_TX_ID" by (simp add: MAX_TX_ID_def)
  from tx_commit_not_atomic [OF _ _ _ tr_example_clean _ this _ _ refl c, of 1 "[8]" 0] show ?thesis by auto
qed

text \<open>
  Updating labels breaks snapshot isolation: the stored version is overwritten and its creation
  moved to the updating transaction, so a reader with an older snapshot that saw the node sees no
  version of it once the update is committed.
\<close>

theorem tx_update_hides_old_version:
  assumes "t_is_write t" and "\<not> t_committed t" and "tm_committed_tx_id (db_tx_manager db) = t_tx_id t - 1"
    and "i \<in> fst ` set (t_node_updates t)" and "t_snapshot rd < t_tx_id t"
    and "tr_commit c now t db = (res, t', db')"
  shows "tr_get_node i rd db' = None"
proof -
  have "db_nodes db' = ns_flush now (tr_apply_nodes c t (db_nodes db))"
    using tr_commit_Ok [OF assms(1-3), of c now] assms(6) by auto
  then have "n_created_tx n = t_tx_id t" if "ns_nodes (db_nodes db') i = Some n" for n
    using that tr_updated_created [OF assms(4)] by (simp add: tr_apply_nodes_map)
  then show ?thesis
    using assms(5) by (auto simp: tr_get_node_def ns_get_def node_is_alive_def split: option.split)
qed

theorem tx_update_hides_old_version_witness:
  "\<exists>db'. tr_get_node 0 (transaction_new 0 1 False) db_example \<noteq> None \<and>
     tr_commit codecs_example 0 (tr_update_node_labels 0 [9] (transaction_new 2 1 True)) db_example =
       (Commit_Ok, (tr_update_node_labels 0 [9] (transaction_new 2 1 True))\<lparr>t_committed := True\<rparr>, db') \<and>
     tr_get_node 0 (transaction_new 0 1 False) db' = None"
proof -
  let ?t = "tr_update_node_labels 0 [9] (transaction_new 2 1 True)"
  have t: "t_is_write ?t" "\<not> t_committed ?t" "tm_committed_tx_id (db_tx_manager db_example) = t_tx_id ?t - 1"
    "0 \<in> fst ` set (t_node_updates ?t)" "t_snapshot (transaction_new 0 1 False) < t_tx_id ?t"
    by (simp_all add: tr_update_node_labels_def transaction_new_def)
  obtain db' where c: "tr_commit codecs_example 0 ?t db_example = (Commit_Ok, ?t\<lparr>t_committed := True\<rparr>, db')"
    using tr_commit_Ok [OF t(1-3)] by blast
  have "tr_get_node 0 (transaction_new 0 1 False) db_example \<noteq> None"
    by (simp add: tr_get_node_def ns_get_def transaction_new_def node_is_alive_def MAX_TX_ID_def)
  with c tx_update_hides_old_version [OF t c] show ?thesis by blast
qed

text \<open>
  A finished transaction cannot be rolled back: \<open>rollback\<close> does not look at the flag, so after
  a successful commit (or an earlier rollback) it waits for a turn that has passed and, with no
  other thread to move the counter, never returns. Dropping the finished transaction is harmless.
\<close>

theorem tx_rollback_after_commit_hangs:
  assumes "t_is_write t" and "\<not> t_committed t" and "tm_committed_tx_id (db_tx_manager db) = t_tx_id t - 1"
    and "tr_commit c now t db = (res, t', db')"
  shows "tr_rollback t' db' = None \<and> tr_drop t' db' = Some db' \<and>
    (\<forall>t'' db''. tr_rollback t db = Some (t'', db'') \<longrightarrow> tr_rollback t'' db'' = None)"
proof -
  have "t_tx_id t \<noteq> t_tx_id t - 1" by simp
  with tr_commit_Ok [OF assms(1-3), of c now] assms show ?thesis
    by (auto simp: tr_rollback_def tr_drop_def tm_rollback_eq)
qed

theorem tx_rollback_after_commit_hangs_witness:
  "\<exists>t' db'. tr_commit codecs_example 0 tr_example db_example = (Commit_Ok, t', db') \<and> tr_rollback t' db' = None"
proof -
  obtain db' where c: "tr_commit codecs_example 0 tr_example db_example =
      (Commit_Ok, tr_example\<lparr>t_committed := True\<rparr>, db')"
    using tr_commit_Ok [of tr_example db_example codecs_example 0] by auto
  from tx_rollback_after_commit_hangs [OF _ _ _ c] c show ?thesis by auto
qed

text \<open>
  Out of turn: while an earlier ticket is outstanding, commit returns the timeout error after
  the spin limit and changes neither the transaction nor the database, so it may be tried again;
  but dropping the transaction, which rolls it back, does not return before its turn comes.
\<close>

theorem tx_commit_out_of_turn:
  assumes "t_is_write t" and "\<not> t_committed t" and "tm_committed_tx_id (db_tx_manager db) \<noteq> t_tx_id t - 1"
  shows "tr_commit c now t db = (Commit_Err ''timeout'', t, db) \<and> tr_drop t db = None"
  using assms by (simp add: tr_commit_def tm_commit_eq tr_drop_def tm_rollback_eq)

theorem tx_commit_out_of_turn_witness:
  "tr_drop (transaction_new 3 1 True) db_example = None"
  using tx_commit_out_of_turn [of "transaction_new 3 1 True" db_example codecs_example 0]
  by (simp add: transaction_new_def)

text \<open>
  C37. Reopening a database forgets which transactions were committed: the transaction manager starts
  anew at snapshot 0, so no read transaction begun before new commits sees any recovered node or edge
  that a transaction had created.
\<close>

theorem db_reopen_hides_committed:
  assumes "db_open c checks now fn fe fp k = Ok db"
  shows "(\<forall>i n. ns_nodes (db_nodes db) i = Some n \<and> n_created_tx n \<noteq> 0 \<longrightarrow>
      tr_get_node i (db_begin_read db) db = None) \<and>
    (\<forall>i e. es_edges (db_edges db) i = Some e \<and> e_created_tx e \<noteq> 0 \<longrightarrow>
      tr_get_edge i (db_begin_read db) db = None)"
proof -
  have "t_snapshot (db_begin_read db) = 0"
    using assms
    by (auto simp: db_open_def db_begin_read_def transaction_new_def tm_begin_read_def tm_new_def
        split: outcome.splits)
  then show ?thesis
    by (auto simp: tr_get_node_def tr_get_edge_def ns_get_def es_get_def node_is_alive_def edge_is_alive_def)
qed

theorem db_reopen_hides_committed_witness:
  "\<exists>db. db_open codecs_example False 0 (file_of (fold encode_cmd [Insert 0 [0, 0, 0, 0, 1, 0, 0]] WAL_MAGIC))
      (file_of []) (file_of []) consistency_immediate = Ok db \<and>
    ns_nodes (db_nodes db) 0 = Some (node_new 0 [] 0 1) \<and> tr_get_node 0 (db_begin_read db) db = None"
proof -
  let ?b = "[0, 0, 0, 0, 1, 0, 0] :: bytes"
  let ?bs = "fold encode_cmd [Insert 0 ?b] WAL_MAGIC"
  have rep: "replay_wal ?bs = ([(1, 0, ?b)], None)" "4 < length ?bs" by code_simp+
  have de: "de node_example_codec ?b = Some (node_new 0 [] 0 1)"
    by (simp add: node_example_codec_def node_new_def NULL_EDGE_def MAX_TX_ID_def)
  have "\<exists>w. wal_spawn False 0 (file_of ?bs) (durability consistency_immediate)
      (wal_channel_capacity consistency_immediate) = Ok w"
    by (rule wal_spawn_ok) code_simp
  then obtain s where s: "ns_open node_example_codec False 0 (file_of ?bs) consistency_immediate = Ok s"
    using ns_open_total [of False 0 "file_of ?bs" consistency_immediate] rep by (fastforce simp: no_max_id_def)
  have "ns_nodes s 0 = Some (node_new 0 [] 0 1)"
    using ns_open_Ok [OF s] rep de by (auto simp: kv_apply_def)
  moreover have o: "db_open codecs_example False 0 (file_of ?bs) (file_of []) (file_of []) consistency_immediate =
      Ok \<lparr>db_tx_manager = tm_new, db_nodes = s, db_edges = edge_example_opened, db_props = prop_example\<rparr>"
    using s by (simp add: db_open_def codecs_example_def edge_example_run(1) prop_example_open)
  ultimately show ?thesis
    using db_reopen_hides_committed [OF o] by auto
qed

text \<open>
  C1. Durability of commits: let a database be opened on log files, let its three stores be used by any
  sequence of their operations and of writes through \<open>get_mut\<close>, and let a transaction commit on it. Once commit has
  returned, opening the durable files again succeeds and gives exactly the nodes, edges and property columns that
  were in memory, except for the nodes and edges that were passed to \<open>get_mut\<close>, whose writes nothing logs. Assumed:
  values deserialise to what was serialised, property names are valid strings shorter than 256 bytes (longer ones are
  logged with a wrong length and do not come back), no payload reaches \<open>2 ^ 32 - 9\<close> bytes, no node or
  edge has the identifier \<open>u64::MAX\<close> and no property the row \<open>u32::MAX\<close>, and the durability level is one that syncs
  and whose buffer can be allocated.
\<close>

theorem tx_commit_durable:
  assumes codecs: "codec_ok (c_node c)" "codec_ok (c_edge c)" "val_codec_ok (c_val c)"
    and opened: "db_open c checks now (file_of bn) (file_of be) (file_of bp) k = Ok db0"
    and base: "wal_base bn = fold encode_cmd csn WAL_MAGIC" "wal_base be = fold encode_cmd cse WAL_MAGIC"
      "wal_base bp = fold encode_cmd csp WAL_MAGIC"
    and level: "vec_capacity_ok (batch_bytes (durability k))" "durability k \<noteq> Async"
    and runs: "db_nodes db = fold (ns_use (c_node c)) usn (db_nodes db0)"
      "db_edges db = fold (es_use (c_edge c)) use (db_edges db0)"
      "db_props db = fold (ps_exec (c_val c)) opsp (db_props db0)"
    and names: "\<forall>op\<in>set (opsp @ tr_prop_ops t). prop_op_ok op"
    and commit: "t_is_write t" "tr_commit c n t db = (Commit_Ok, t', db')"
    and wals: "ns_wal (tr_apply_nodes c t (db_nodes db)) = Some wn"
      "es_wal (tr_apply_edges c t (db_edges db)) = Some we"
      "ps_wal (tr_apply_props c t (db_props db)) = Some wp"
    and fits: "\<forall>r\<in>set (wal_recs (csn @ ws_sent wn)). wal_fits r" "no_max_id (wal_recs (csn @ ws_sent wn))"
      "\<forall>r\<in>set (wal_recs (cse @ ws_sent we)). wal_fits r" "no_max_id (wal_recs (cse @ ws_sent we))"
      "\<forall>r\<in>set (wal_recs (csp @ ws_sent wp)). wal_fits r" "ps_rows_ok (c_val c) (wal_recs (csp @ ws_sent wp))"
  shows "\<exists>wn' we' wp' db''. ns_wal (db_nodes db') = Some wn' \<and> es_wal (db_edges db') = Some we' \<and>
    ps_wal (db_props db') = Some wp' \<and>
    db_open c checks now (file_of (durable (ws_file wn'))) (file_of (durable (ws_file we')))
      (file_of (durable (ws_file wp'))) k = Ok db'' \<and>
    (\<forall>i. i \<notin> get_mut_keys usn \<longrightarrow> ns_nodes (db_nodes db'') i = ns_nodes (db_nodes db') i) \<and>
    (\<forall>i. i \<notin> get_mut_keys use \<longrightarrow> es_edges (db_edges db'') i = es_edges (db_edges db') i) \<and>
    ps_columns (db_props db'') = ps_columns (db_props db')"
proof -
  have db': "db_nodes db' = ns_flush n (tr_apply_nodes c t (db_nodes db))"
    "db_edges db' = es_flush n (tr_apply_edges c t (db_edges db))"
    "db_props db' = ps_flush n (tr_apply_props c t (db_props db))"
    using commit(2) by (cases rule: tr_commit_cases; use commit(1) in simp)+
  have o: "ns_open (c_node c) checks now (file_of bn) k = Ok (db_nodes db0)"
    "es_open (c_edge c) checks now (file_of be) k = Ok (db_edges db0)"
    "ps_open (c_val c) checks now (file_of bp) k = Ok (db_props db0)"
    using opened by (auto simp: db_open_def split: outcome.splits)
  let ?on = "usn @ map Call (tr_node_ops t)" and ?oe = "use @ map Call (tr_edge_ops t)" and ?op = "opsp @ tr_prop_ops t"
  have r: "tr_apply_nodes c t (db_nodes db) = fold (ns_use (c_node c)) ?on (db_nodes db0)"
    "tr_apply_edges c t (db_edges db) = fold (es_use (c_edge c)) ?oe (db_edges db0)"
    "tr_apply_props c t (db_props db) = fold (ps_exec (c_val c)) ?op (db_props db0)"
    by (simp_all add: runs tr_apply_runs ns_use_def es_use_def)
  note w = wals [unfolded r]
  obtain rn where rn: "ns_open (c_node c) checks now (file_of (durable (ws_file (wal_flush n wn)))) k = Ok rn"
    "\<forall>i. i \<notin> get_mut_keys usn \<longrightarrow> ns_nodes rn i = ns_nodes (fold (ns_use (c_node c)) ?on (db_nodes db0)) i"
    using nsr.recover_use [OF o(1) base(1) codecs(1) level w(1) [unfolded ns_use_def] fits(1,2), of n]
    by (auto simp: ns_use_def)
  obtain re where re: "es_open (c_edge c) checks now (file_of (durable (ws_file (wal_flush n we)))) k = Ok re"
    "\<forall>i. i \<notin> get_mut_keys use \<longrightarrow> es_edges re i = es_edges (fold (es_use (c_edge c)) ?oe (db_edges db0)) i"
    using esr.recover_use [OF o(2) base(2) codecs(2) level w(2) [unfolded es_use_def] fits(3,4), of n]
    by (auto simp: es_use_def)
  have "ps_wal (fold (ps_exec_ok (c_val c)) ?op (db_props db0)) = Some wp"
    using w(3) ps_exec_ok_fold [OF names] by simp
  from psr.recover_after_flush [OF o(3) base(3) codecs(3) level this fits(5,6), of n]
  obtain rp where rp: "ps_open (c_val c) checks now (file_of (durable (ws_file (wal_flush n wp)))) k = Ok rp"
    "ps_columns rp = ps_columns (fold (ps_exec (c_val c)) ?op (db_props db0))"
    using ps_exec_ok_fold [OF names] by auto
  have "ns_wal (db_nodes db') = Some (wal_flush n wn)" "es_wal (db_edges db') = Some (wal_flush n we)"
    "ps_wal (db_props db') = Some (wal_flush n wp)"
    using w by (simp_all add: db' r ns_flush_def es_flush_def ps_flush_def)
  moreover have "db_open c checks now (file_of (durable (ws_file (wal_flush n wn))))
      (file_of (durable (ws_file (wal_flush n we)))) (file_of (durable (ws_file (wal_flush n wp)))) k =
      Ok \<lparr>db_tx_manager = tm_new, db_nodes = rn, db_edges = re, db_props = rp\<rparr>"
    by (simp add: db_open_def rn(1) re(1) rp(1))
  ultimately show ?thesis
    using rn(2) re(2) rp(2) by (simp add: db' r)
qed

theorem tx_commit_durable_witness:
  "\<exists>t' db' wn' we' wp' db''.
    tr_commit codecs_example 0 tr_example_first db_example_opened = (Commit_Ok, t', db') \<and>
    ns_wal (db_nodes db') = Some wn' \<and> es_wal (db_edges db') = Some we' \<and> ps_wal (db_props db') = Some wp' \<and>
    db_open codecs_example False 0 (file_of (durable (ws_file wn'))) (file_of (durable (ws_file we')))
      (file_of (durable (ws_file wp'))) consistency_immediate = Ok db'' \<and>
    ns_nodes (db_nodes db'') 0 = ns_nodes (db_nodes db') 0"
proof -
  have t: "t_is_write tr_example_first" "\<not> t_committed tr_example_first"
    "tm_committed_tx_id (db_tx_manager db_example_opened) = t_tx_id tr_example_first - 1"
    by (simp_all add: tr_example_first_def transaction_new_def db_example_opened_def tm_new_def)
  obtain db' where c: "tr_commit codecs_example 0 tr_example_first db_example_opened =
      (Commit_Ok, tr_example_first\<lparr>t_committed := True\<rparr>, db')"
    using tr_commit_Ok [OF t] by blast
  obtain we wp where w: "es_wal (tr_apply_edges codecs_example tr_example_first (db_edges db_example_opened)) = Some we"
    "ws_sent we = []" "ps_wal (tr_apply_props codecs_example tr_example_first (db_props db_example_opened)) = Some wp"
    "ws_sent wp = []"
    using tr_example_first_other by blast
  have codecs: "codec_ok (c_node codecs_example)" "codec_ok (c_edge codecs_example)" "val_codec_ok (c_val codecs_example)"
    by (simp_all add: codecs_example_def node_example_codec_ok edge_example_codec_ok val_example_codec_ok)
  have names: "\<forall>op\<in>set ([] @ tr_prop_ops tr_example_first). prop_op_ok op"
    by (simp add: tr_prop_ops_def tr_example_first_def transaction_new_def)
  have none: "\<forall>r\<in>set (wal_recs ([] @ ws_sent we)). wal_fits r" "no_max_id (wal_recs ([] @ ws_sent we))"
    "\<forall>r\<in>set (wal_recs ([] @ ws_sent wp)). wal_fits r" "ps_rows_ok (c_val codecs_example) (wal_recs ([] @ ws_sent wp))"
    by (simp_all add: w no_max_id_def ps_rows_ok_def)
  have runs: "db_nodes db_example_opened = fold (ns_use (c_node codecs_example)) [] (db_nodes db_example_opened)"
    "db_edges db_example_opened = fold (es_use (c_edge codecs_example)) [] (db_edges db_example_opened)"
    "db_props db_example_opened = fold (ps_exec (c_val codecs_example)) [] (db_props db_example_opened)"
    by simp_all
  from tx_commit_durable [OF codecs db_example_open node_example_run(6) node_example_run(6) node_example_run(6)
      node_example_run(4,5) runs names t(1) c tr_example_first_run(1) w(1,3) tr_example_first_run(2,3) none] c
  show ?thesis by (metis empty_iff get_mut_keys_simps(1))
qed

end
