(* ===== verification/Concurrent_Commit.thy ===== *)
theory Concurrent_Commit
  imports Transaction
begin

text \<open>
  Transactions of several threads on one database (\<^verbatim>\<open>src/src/transaction/mod.rs\<close>). The atomic
  \<open>tr_commit\<close> is taken apart into the calls it makes on the stores, one step each, and the steps of
  any number of threads interleave: a thread publishes its ticket when its turn has come and then
  applies its writes while the next ticket may already be published and applied.
\<close>

section \<open>A commit as a sequence of store calls\<close>

datatype commit_op =
    CInsertNode NodeId "LabelId list" u32
  | CUpdateLabels NodeId "LabelId list"
  | CDeleteNode NodeId
  | CInsertEdge EdgeId NodeId NodeId LabelId u32
  | CDeleteEdge EdgeId
  | CSetProp LabelId rstring u32 "val option"
  | CFlushNodes nat
  | CFlushEdges nat
  | CFlushProps nat

definition commit_writes :: "transaction \<Rightarrow> commit_op list" where
  "commit_writes t =
     map (\<lambda>(i, labels, props_row). CInsertNode i labels props_row) (t_node_inserts t) @
     map (\<lambda>(i, labels). CUpdateLabels i labels) (t_node_updates t) @
     map CDeleteNode (t_node_deletes t) @
     map (\<lambda>(i, src, dst, etype, props_row). CInsertEdge i src dst etype props_row) (t_edge_inserts t) @
     map CDeleteEdge (t_edge_deletes t) @
     map (\<lambda>(label, prop, row, v). CSetProp label prop row v) (t_prop_writes t)"

definition commit_ops :: "nat \<Rightarrow> transaction \<Rightarrow> commit_op list" where
  "commit_ops now t = commit_writes t @ [CFlushNodes now, CFlushEdges now, CFlushProps now]"

primrec commit_op_exec :: "codecs \<Rightarrow> TxId \<Rightarrow> commit_op \<Rightarrow> database \<Rightarrow> database" where
  "commit_op_exec c tx (CInsertNode i labels props_row) db =
     db\<lparr>db_nodes := ns_insert_with_id (c_node c) i labels props_row tx (db_nodes db)\<rparr>"
| "commit_op_exec c tx (CUpdateLabels i labels) db =
     db\<lparr>db_nodes := snd (ns_update_labels (c_node c) i labels tx (db_nodes db))\<rparr>"
| "commit_op_exec c tx (CDeleteNode i) db = db\<lparr>db_nodes := snd (ns_soft_delete (c_node c) i tx (db_nodes db))\<rparr>"
| "commit_op_exec c tx (CInsertEdge i src dst etype props_row) db =
     db\<lparr>db_edges := es_insert_with_id (c_edge c) i src dst etype props_row tx (db_edges db)\<rparr>"
| "commit_op_exec c tx (CDeleteEdge i) db = db\<lparr>db_edges := snd (es_soft_delete (c_edge c) i tx (db_edges db))\<rparr>"
| "commit_op_exec c tx (CSetProp label prop row v) db =
     db\<lparr>db_props := snd (ps_insert_prop (c_val c) label prop row v (db_props db))\<rparr>"
| "commit_op_exec c tx (CFlushNodes now) db = db\<lparr>db_nodes := ns_flush now (db_nodes db)\<rparr>"
| "commit_op_exec c tx (CFlushEdges now) db = db\<lparr>db_edges := es_flush now (db_edges db)\<rparr>"
| "commit_op_exec c tx (CFlushProps now) db = db\<lparr>db_props := ps_flush now (db_props db)\<rparr>"

section \<open>Interleaved transactions\<close>

text \<open>
  What a thread does: nothing, buffer the writes of a transaction, or apply those of a published one.
  Readers have no state: what they see is a function of the database and their snapshot.
\<close>

datatype conc_pc = CIdle | CBuffering transaction | CApplying TxId "commit_op list"

record conc_sys =
  cs_db :: database
  cs_pc :: "nat \<Rightarrow> conc_pc"

definition conc_init :: conc_sys where
  "conc_init = \<lparr>cs_db = db_memory, cs_pc = (\<lambda>_. CIdle)\<rparr>"

definition conc_goto :: "nat \<Rightarrow> conc_pc \<Rightarrow> database \<Rightarrow> conc_sys \<Rightarrow> conc_sys" where
  "conc_goto t pc db s = \<lparr>cs_db = db, cs_pc = (cs_pc s)(t := pc)\<rparr>"

text \<open>
  \<open>ok op db\<close> is a condition on the calls that are applied, \<open>\<lambda>_ _. True\<close> for none. Tickets and
  identifiers are assumed not to run through all of \<open>u64\<close>. That the turn is seen and the ticket is
  stored in one step is no restriction: only the holder of the next ticket can store it.
\<close>

inductive conc_step :: "codecs \<Rightarrow> (commit_op \<Rightarrow> database \<Rightarrow> bool) \<Rightarrow> conc_sys \<Rightarrow> conc_sys \<Rightarrow> bool" for c ok where
  begin_write: "cs_pc s t = CIdle \<Longrightarrow> tm_next_tx_id (db_tx_manager (cs_db s)) \<noteq> - 1 \<Longrightarrow>
    db_begin_write (cs_db s) = (tr, db) \<Longrightarrow> conc_step c ok s (conc_goto t (CBuffering tr) db s)"
| create_node: "cs_pc s t = CBuffering tr \<Longrightarrow> ns_next_id (db_nodes (cs_db s)) \<noteq> - 1 \<Longrightarrow>
    tr_create_node labels row tr (cs_db s) = (i, tr', db) \<Longrightarrow> conc_step c ok s (conc_goto t (CBuffering tr') db s)"
| create_edge: "cs_pc s t = CBuffering tr \<Longrightarrow> es_next_id (db_edges (cs_db s)) \<noteq> - 1 \<Longrightarrow>
    tr_create_edge src dst etype row tr (cs_db s) = (j, tr', db) \<Longrightarrow> conc_step c ok s (conc_goto t (CBuffering tr') db s)"
| update_labels: "cs_pc s t = CBuffering tr \<Longrightarrow>
    conc_step c ok s (conc_goto t (CBuffering (tr_update_node_labels i labels tr)) (cs_db s) s)"
| delete_node: "cs_pc s t = CBuffering tr \<Longrightarrow> conc_step c ok s (conc_goto t (CBuffering (tr_delete_node i tr)) (cs_db s) s)"
| delete_edge: "cs_pc s t = CBuffering tr \<Longrightarrow> conc_step c ok s (conc_goto t (CBuffering (tr_delete_edge j tr)) (cs_db s) s)"
| set_prop: "cs_pc s t = CBuffering tr \<Longrightarrow>
    conc_step c ok s (conc_goto t (CBuffering (tr_set_prop label key row v tr)) (cs_db s) s)"
| commit: "cs_pc s t = CBuffering tr \<Longrightarrow> tm_commit (t_tx_id tr) (db_tx_manager (cs_db s)) = (True, tm) \<Longrightarrow>
    conc_step c ok s (conc_goto t (CApplying (t_tx_id tr) (commit_ops now tr)) ((cs_db s)\<lparr>db_tx_manager := tm\<rparr>) s)"
| apply_op: "cs_pc s t = CApplying tx (op # ops) \<Longrightarrow> ok op (cs_db s) \<Longrightarrow>
    conc_step c ok s (conc_goto t (CApplying tx ops) (commit_op_exec c tx op (cs_db s)) s)"
| return: "cs_pc s t = CApplying tx [] \<Longrightarrow> conc_step c ok s (conc_goto t CIdle (cs_db s) s)"
| rollback: "cs_pc s t = CBuffering tr \<Longrightarrow> tm_rollback (t_tx_id tr) (db_tx_manager (cs_db s)) = Some tm \<Longrightarrow>
    conc_step c ok s (conc_goto t CIdle ((cs_db s)\<lparr>db_tx_manager := tm\<rparr>) s)"

inductive conc_reach :: "codecs \<Rightarrow> (commit_op \<Rightarrow> database \<Rightarrow> bool) \<Rightarrow> conc_sys \<Rightarrow> conc_sys \<Rightarrow> bool" for c ok s0 where
  start: "conc_reach c ok s0 s0"
| step: "conc_reach c ok s0 s \<Longrightarrow> conc_step c ok s s' \<Longrightarrow> conc_reach c ok s0 s'"

abbreviation any_op :: "commit_op \<Rightarrow> database \<Rightarrow> bool" where
  "any_op \<equiv> \<lambda>_ _. True"

text \<open>No label updates, and no deletion of what is deleted already.\<close>

primrec clean_op :: "commit_op \<Rightarrow> database \<Rightarrow> bool" where
  "clean_op (CInsertNode i labels row) db \<longleftrightarrow> True"
| "clean_op (CUpdateLabels i labels) db \<longleftrightarrow> False"
| "clean_op (CDeleteNode i) db \<longleftrightarrow>
     (case ns_nodes (db_nodes db) i of Some n \<Rightarrow> n_deleted_tx n = MAX_TX_ID | None \<Rightarrow> True)"
| "clean_op (CInsertEdge j src dst etype row) db \<longleftrightarrow> True"
| "clean_op (CDeleteEdge j) db \<longleftrightarrow>
     (case es_edges (db_edges db) j of Some e \<Rightarrow> e_deleted_tx e = MAX_TX_ID | None \<Rightarrow> True)"
| "clean_op (CSetProp label prop row v) db \<longleftrightarrow> True"
| "clean_op (CFlushNodes now) db \<longleftrightarrow> True"
| "clean_op (CFlushEdges now) db \<longleftrightarrow> True"
| "clean_op (CFlushProps now) db \<longleftrightarrow> True"

text \<open>Everything up to the ticket \<open>tx\<close> is published and applied.\<close>

definition settled :: "TxId \<Rightarrow> conc_sys \<Rightarrow> bool" where
  "settled tx s \<longleftrightarrow> tx \<le> tm_committed_tx_id (db_tx_manager (cs_db s)) \<and>
     (\<forall>t tx' ops. cs_pc s t = CApplying tx' ops \<longrightarrow> tx < tx')"

section \<open>Lemmas: a commit in steps\<close>

lemma commit_writes_exec:
  "fold (commit_op_exec c (t_tx_id t)) (commit_writes t) db =
     db\<lparr>db_nodes := tr_apply_nodes c t (db_nodes db), db_edges := tr_apply_edges c t (db_edges db),
        db_props := tr_apply_props c t (db_props db)\<rparr>"
proof -
  let ?x = "commit_op_exec c (t_tx_id t)"
  have p1: "fold ?x (map (\<lambda>(i, labels, row). CInsertNode i labels row) xs) db = db\<lparr>db_nodes := fold (\<lambda>(i, labels, row). ns_insert_with_id (c_node c) i labels row (t_tx_id t)) xs (db_nodes db)\<rparr>" for xs db
    by (induction xs arbitrary: db) (simp_all add: case_prod_unfold)
  have p2: "fold ?x (map (\<lambda>(i, labels). CUpdateLabels i labels) xs) db = db\<lparr>db_nodes := fold (\<lambda>(i, labels) s. snd (ns_update_labels (c_node c) i labels (t_tx_id t) s)) xs (db_nodes db)\<rparr>" for xs db
    by (induction xs arbitrary: db) (simp_all add: case_prod_unfold)
  have p3: "fold ?x (map CDeleteNode xs) db = db\<lparr>db_nodes := fold (\<lambda>i s. snd (ns_soft_delete (c_node c) i (t_tx_id t) s)) xs (db_nodes db)\<rparr>" for xs db
    by (induction xs arbitrary: db) (simp_all add: case_prod_unfold)
  have p4: "fold ?x (map (\<lambda>(i, src, dst, y, row). CInsertEdge i src dst y row) xs) db = db\<lparr>db_edges := fold (\<lambda>(i, src, dst, y, row). es_insert_with_id (c_edge c) i src dst y row (t_tx_id t)) xs (db_edges db)\<rparr>" for xs db
    by (induction xs arbitrary: db) (simp_all add: case_prod_unfold)
  have p5: "fold ?x (map CDeleteEdge xs) db = db\<lparr>db_edges := fold (\<lambda>i s. snd (es_soft_delete (c_edge c) i (t_tx_id t) s)) xs (db_edges db)\<rparr>" for xs db
    by (induction xs arbitrary: db) (simp_all add: case_prod_unfold)
  have p6: "fold ?x (map (\<lambda>(l, p, row, v). CSetProp l p row v) xs) db = db\<lparr>db_props := fold (\<lambda>(l, p, row, v) s. snd (ps_insert_prop (c_val c) l p row v s)) xs (db_props db)\<rparr>" for xs db
    by (induction xs arbitrary: db) (simp_all add: case_prod_unfold)
  show ?thesis
    unfolding commit_writes_def fold_append comp_def p1 p2 p3 p4 p5 p6
    by (simp add: tr_apply_nodes_def tr_apply_edges_def tr_apply_props_def Let_def)
qed

lemma commit_ops_exec:
  "fold (commit_op_exec c (t_tx_id t)) (commit_ops now t) db =
     db\<lparr>db_nodes := ns_flush now (tr_apply_nodes c t (db_nodes db)),
        db_edges := es_flush now (tr_apply_edges c t (db_edges db)),
        db_props := ps_flush now (tr_apply_props c t (db_props db))\<rparr>"
  by (simp add: commit_ops_def commit_writes_exec)

lemma conc_reach_trans: "conc_reach c ok s s' \<Longrightarrow> conc_reach c ok s0 s \<Longrightarrow> conc_reach c ok s0 s'"
  by (induction rule: conc_reach.induct) (auto intro: conc_reach.step)

lemma conc_applies:
  "cs_pc s t = CApplying tx ops \<Longrightarrow>
    conc_reach c any_op s (conc_goto t (CApplying tx []) (fold (commit_op_exec c tx) ops (cs_db s)) s)"
proof (induction ops arbitrary: s)
  case Nil
  then have "conc_goto t (CApplying tx []) (cs_db s) s = s"
    by (simp add: conc_goto_def fun_upd_idem)
  then show ?case by (simp add: conc_reach.start)
next
  case (Cons op ops)
  let ?s1 = "conc_goto t (CApplying tx ops) (commit_op_exec c tx op (cs_db s)) s"
  have 1: "conc_step c any_op s ?s1" using Cons.prems by (rule conc_step.apply_op) simp
  have "conc_reach c any_op ?s1 (conc_goto t (CApplying tx []) (fold (commit_op_exec c tx) ops (cs_db ?s1)) ?s1)"
    by (rule Cons.IH) (simp add: conc_goto_def)
  then have "conc_reach c any_op s (conc_goto t (CApplying tx []) (fold (commit_op_exec c tx) ops (cs_db ?s1)) ?s1)"
    by (rule conc_reach_trans) (rule conc_reach.step [OF conc_reach.start 1])
  then show ?case by (simp add: conc_goto_def)
qed

text \<open>The atomic commit of \<^verbatim>\<open>Transaction\<close> and the steps given here agree: a successful commit is one of the interleavings.\<close>

lemma conc_commit_steps:
  assumes "cs_pc s t = CBuffering tr" and "t_is_write tr" and "tr_commit c now tr (cs_db s) = (Commit_Ok, tr', db')"
  shows "conc_reach c any_op s (conc_goto t CIdle db' s)"
proof -
  let ?db1 = "(cs_db s)\<lparr>db_tx_manager := (db_tx_manager (cs_db s))\<lparr>tm_committed_tx_id := t_tx_id tr\<rparr>\<rparr>"
  let ?s1 = "conc_goto t (CApplying (t_tx_id tr) (commit_ops now tr)) ?db1 s"
  let ?s2 = "conc_goto t (CApplying (t_tx_id tr) []) (fold (commit_op_exec c (t_tx_id tr)) (commit_ops now tr) (cs_db ?s1)) ?s1"
  have turn: "tm_commit (t_tx_id tr) (db_tx_manager (cs_db s)) =
      (True, (db_tx_manager (cs_db s))\<lparr>tm_committed_tx_id := t_tx_id tr\<rparr>)" "\<not> t_committed tr"
    using assms(2,3) by (auto simp: tr_commit_def tm_commit_eq split: if_splits)
  have db': "db' = fold (commit_op_exec c (t_tx_id tr)) (commit_ops now tr) ?db1"
  proof -
    have "tm_committed_tx_id (db_tx_manager (cs_db s)) = t_tx_id tr - 1"
      using turn(1) by (auto simp: tm_commit_eq split: if_splits)
    from tr_commit_Ok [OF assms(2) turn(2) this, of c now] assms(3) show ?thesis
      by (auto simp: commit_ops_exec intro!: database.equality)
  qed
  have "conc_reach c any_op s ?s1"
    by (rule conc_reach.step [OF conc_reach.start]) (rule conc_step.commit [OF assms(1) turn(1)])
  moreover have "conc_reach c any_op ?s1 ?s2" by (rule conc_applies) (simp add: conc_goto_def)
  ultimately have "conc_reach c any_op s ?s2" using conc_reach_trans by blast
  then have "conc_reach c any_op s (conc_goto t CIdle (cs_db ?s2) ?s2)"
    by (rule conc_reach.step) (rule conc_step.return [of _ _ "t_tx_id tr"], simp add: conc_goto_def)
  then show ?thesis by (simp add: db' conc_goto_def)
qed

section \<open>Lemmas: identifiers\<close>

text \<open>The identifiers that each thread has been given and not stored yet.\<close>

primrec op_node_ids :: "commit_op \<Rightarrow> NodeId list" where
  "op_node_ids (CInsertNode i labels row) = [i]"
| "op_node_ids (CUpdateLabels i labels) = []"
| "op_node_ids (CDeleteNode i) = []"
| "op_node_ids (CInsertEdge j src dst etype row) = []"
| "op_node_ids (CDeleteEdge j) = []"
| "op_node_ids (CSetProp label prop row v) = []"
| "op_node_ids (CFlushNodes now) = []"
| "op_node_ids (CFlushEdges now) = []"
| "op_node_ids (CFlushProps now) = []"

primrec op_edge_ids :: "commit_op \<Rightarrow> EdgeId list" where
  "op_edge_ids (CInsertNode i labels row) = []"
| "op_edge_ids (CUpdateLabels i labels) = []"
| "op_edge_ids (CDeleteNode i) = []"
| "op_edge_ids (CInsertEdge j src dst etype row) = [j]"
| "op_edge_ids (CDeleteEdge j) = []"
| "op_edge_ids (CSetProp label prop row v) = []"
| "op_edge_ids (CFlushNodes now) = []"
| "op_edge_ids (CFlushEdges now) = []"
| "op_edge_ids (CFlushProps now) = []"

primrec pc_node_ids :: "conc_pc \<Rightarrow> NodeId list" where
  "pc_node_ids CIdle = []"
| "pc_node_ids (CBuffering tr) = map fst (t_node_inserts tr)"
| "pc_node_ids (CApplying tx ops) = concat (map op_node_ids ops)"

primrec pc_edge_ids :: "conc_pc \<Rightarrow> EdgeId list" where
  "pc_edge_ids CIdle = []"
| "pc_edge_ids (CBuffering tr) = map fst (t_edge_inserts tr)"
| "pc_edge_ids (CApplying tx ops) = concat (map op_edge_ids ops)"

lemma commit_ops_ids:
  "concat (map op_node_ids (commit_ops now t)) = map fst (t_node_inserts t)"
  "concat (map op_edge_ids (commit_ops now t)) = map fst (t_edge_inserts t)"
proof -
  have nil: "(\<And>x. f x = []) \<Longrightarrow> concat (map f xs) = []" for f :: "'b \<Rightarrow> 'a list" and xs by simp
  show "concat (map op_node_ids (commit_ops now t)) = map fst (t_node_inserts t)"
    "concat (map op_edge_ids (commit_ops now t)) = map fst (t_edge_inserts t)"
    by (simp_all add: commit_ops_def commit_writes_def comp_def case_prod_unfold nil)
qed

definition own_ids :: "(nat \<Rightarrow> u64 list) \<Rightarrow> u64 set \<Rightarrow> u64 list \<Rightarrow> u64 \<Rightarrow> bool" where
  "own_ids ids live free next \<longleftrightarrow>
     (\<forall>t. distinct (ids t)) \<and> (\<forall>t u. t \<noteq> u \<longrightarrow> set (ids t) \<inter> set (ids u) = {}) \<and>
     ids_ok (\<Union>t. set (ids t)) live free next"

lemma own_ids_take:
  assumes "own_ids ids live free next" and "i \<notin> (\<Union>t. set (ids t))"
    and "ids_ok (insert i (\<Union>t. set (ids t))) live' free' next'"
  shows "own_ids (ids(t := ids t @ [i])) live' free' next'"
proof -
  have "(\<Union>u. set ((ids(t := ids t @ [i])) u)) = insert i (\<Union>t. set (ids t))" by (auto split: if_splits)
  with assms show ?thesis by (auto simp: own_ids_def)
qed

lemma own_ids_shrink:
  assumes "own_ids ids live free next" and "\<And>u. distinct (ids' u) \<and> set (ids' u) \<subseteq> set (ids u)"
    and "ids_ok (\<Union>t. set (ids' t)) live' free' next'"
  shows "own_ids ids' live' free' next'"
proof -
  have "set (ids' t) \<inter> set (ids' u) = {}" if "t \<noteq> u" for t u
    using assms(1) assms(2) [of t] assms(2) [of u] that by (fastforce simp: own_ids_def)
  with assms(2,3) show ?thesis by (simp add: own_ids_def)
qed

lemma own_ids_fill:
  assumes "own_ids ids live free next" and "ids t = i # rest"
  shows "own_ids (ids(t := rest)) (insert i live) free next" and "i \<notin> live"
proof -
  have "i \<in> (\<Union>t. set (ids t))" using assms(2) by (auto intro: exI [of _ t])
  moreover have others: "i \<notin> set (ids u)" if "u \<noteq> t" for u
  proof -
    have "set (ids t) \<inter> set (ids u) = {}" using assms(1) that by (auto simp: own_ids_def)
    with assms(2) show ?thesis by auto
  qed
  moreover have dist: "i \<notin> set rest" "distinct rest" using assms by (auto simp: own_ids_def dest: spec [of _ t])
  moreover have "(\<Union>u. set ((ids(t := rest)) u)) = (\<Union>t. set (ids t)) - {i}"
  proof (intro set_eqI iffI)
    fix x
    assume "x \<in> (\<Union>u. set ((ids(t := rest)) u))"
    then obtain u where "x \<in> set ((ids(t := rest)) u)" by blast
    with assms(2) dist(1) others [of u] have "x \<in> set (ids u)" "x \<noteq> i" by (auto split: if_splits)
    then show "x \<in> (\<Union>t. set (ids t)) - {i}" by blast
  next
    fix x
    assume "x \<in> (\<Union>t. set (ids t)) - {i}"
    then obtain u where "x \<in> set (ids u)" "x \<noteq> i" by blast
    with assms(2) have "x \<in> set ((ids(t := rest)) u)" by (cases "u = t") auto
    then show "x \<in> (\<Union>u. set ((ids(t := rest)) u))" by blast
  qed
  ultimately have "ids_ok (\<Union>u. set ((ids(t := rest)) u)) (insert i live) free next"
    using assms ids_ok_insert [of "\<Union>t. set (ids t)" live free "next" i] by (simp add: own_ids_def)
  then show "own_ids (ids(t := rest)) (insert i live) free next"
    using assms dist by (intro own_ids_shrink [OF assms(1)]) (auto simp: own_ids_def)
  have "(\<Union>t. set (ids t)) \<inter> (live \<union> set free) = {}" using assms(1) by (simp add: own_ids_def ids_ok_def)
  with \<open>i \<in> (\<Union>t. set (ids t))\<close> show "i \<notin> live" by blast
qed

lemma ids_ok_subset: "ids_ok R live free next \<Longrightarrow> R' \<subseteq> R \<Longrightarrow> ids_ok R' live free next"
  unfolding ids_ok_def by blast

lemma own_ids_drop:
  assumes "own_ids ids live free next"
  shows "own_ids (ids(t := [])) live free next"
proof (rule own_ids_shrink [OF assms])
  have "(\<Union>u. set ((ids(t := [])) u)) \<subseteq> (\<Union>t. set (ids t))" by (auto split: if_splits)
  moreover have "ids_ok (\<Union>t. set (ids t)) live free next" using assms by (simp add: own_ids_def)
  ultimately show "ids_ok (\<Union>u. set ((ids(t := [])) u)) live free next" by (rule ids_ok_subset [rotated])
next
  show "distinct ((ids(t := [])) u) \<and> set ((ids(t := [])) u) \<subseteq> set (ids u)" for u
    using assms by (simp add: own_ids_def)
qed

section \<open>Lemmas: the invariant of the identifiers\<close>

abbreviation ns_own :: "(nat \<Rightarrow> NodeId list) \<Rightarrow> node_store \<Rightarrow> bool" where
  "ns_own ids ns \<equiv> own_ids ids (dom (ns_nodes ns)) (ns_free_list ns) (ns_next_id ns)"

abbreviation es_own :: "(nat \<Rightarrow> EdgeId list) \<Rightarrow> edge_store \<Rightarrow> bool" where
  "es_own ids es \<equiv> own_ids ids (dom (es_edges es)) (es_free_list es) (es_next_id es)"

definition conc_ids :: "conc_sys \<Rightarrow> bool" where
  "conc_ids s \<longleftrightarrow> ns_own (pc_node_ids \<circ> cs_pc s) (db_nodes (cs_db s)) \<and> es_own (pc_edge_ids \<circ> cs_pc s) (db_edges (cs_db s))"

lemma conc_goto_simps [simp]:
  "cs_db (conc_goto t pc db s) = db" "cs_pc (conc_goto t pc db s) = (cs_pc s)(t := pc)"
  by (simp_all add: conc_goto_def)

lemma conc_goto_ids:
  "conc_ids (conc_goto t pc db s) \<longleftrightarrow>
    ns_own ((pc_node_ids \<circ> cs_pc s)(t := pc_node_ids pc)) (db_nodes db) \<and>
    es_own ((pc_edge_ids \<circ> cs_pc s)(t := pc_edge_ids pc)) (db_edges db)"
  by (simp add: conc_ids_def fun_upd_comp)

lemma es_soft_delete_frame:
  "dom (es_edges (snd (es_soft_delete c j tx s))) = dom (es_edges s)" "es_free_list (snd (es_soft_delete c j tx s)) = es_free_list s"
  "es_next_id (snd (es_soft_delete c j tx s)) = es_next_id s"
  by (auto simp: es_soft_delete_def Let_def split: option.split)

lemma es_insert_with_id_frame:
  "es_free_list (es_insert_with_id c j src dst y row tx s) = es_free_list s"
  "es_next_id (es_insert_with_id c j src dst y row tx s) = es_next_id s"
  by (simp_all add: es_insert_with_id_def Let_def)

lemma flush_frame:
  "ns_free_list (ns_flush now ns) = ns_free_list ns" "ns_next_id (ns_flush now ns) = ns_next_id ns"
  "es_free_list (es_flush now es) = es_free_list es" "es_next_id (es_flush now es) = es_next_id es"
  by (simp_all add: ns_flush_def es_flush_def split: option.split)

lemma op_exec_ids:
  assumes "ns_own (ids(t := op_node_ids op @ rest)) (db_nodes db)"
  shows "ns_own (ids(t := rest)) (db_nodes (commit_op_exec c tx op db))"
proof (cases op)
  case (CInsertNode i labels row)
  with assms own_ids_fill(1) [of "ids(t := i # rest)" _ _ _ t i rest] show ?thesis by simp
qed (use assms in \<open>simp_all add: ns_modify_ops flush_frame\<close>)

lemma op_exec_edge_ids:
  assumes "es_own (ids(t := op_edge_ids op @ rest)) (db_edges db)"
  shows "es_own (ids(t := rest)) (db_edges (commit_op_exec c tx op db))"
proof (cases op)
  case (CInsertEdge j src dst y row)
  with assms own_ids_fill(1) [of "ids(t := j # rest)" _ _ _ t j rest] show ?thesis
    by (simp add: es_insert_with_id_frame)
qed (use assms in \<open>simp_all add: es_soft_delete_frame flush_frame\<close>)

lemma ns_own_alloc:
  assumes "ns_own ids ns" and "ns_next_id ns \<noteq> - 1"
  shows "ns_own (ids(t := ids t @ [fst (ns_alloc_id ns)])) (snd (ns_alloc_id ns))"
proof (rule own_ids_take [OF assms(1)])
  have "nsa.ok (\<Union>t. set (ids t)) ns" using assms(1) by (simp add: own_ids_def)
  from nsa.alloc_fresh(2,3) [OF this assms(2)]
  show "fst (ns_alloc_id ns) \<notin> (\<Union>t. set (ids t))"
    "ids_ok (insert (fst (ns_alloc_id ns)) (\<Union>t. set (ids t))) (dom (ns_nodes (snd (ns_alloc_id ns))))
      (ns_free_list (snd (ns_alloc_id ns))) (ns_next_id (snd (ns_alloc_id ns)))" .
qed

lemma es_own_alloc:
  assumes "es_own ids es" and "es_next_id es \<noteq> - 1"
  shows "es_own (ids(t := ids t @ [fst (es_alloc_id es)])) (snd (es_alloc_id es))"
proof (rule own_ids_take [OF assms(1)])
  have "esa.ok (\<Union>t. set (ids t)) es" using assms(1) by (simp add: own_ids_def)
  from esa.alloc_fresh(2,3) [OF this assms(2)]
  show "fst (es_alloc_id es) \<notin> (\<Union>t. set (ids t))"
    "ids_ok (insert (fst (es_alloc_id es)) (\<Union>t. set (ids t))) (dom (es_edges (snd (es_alloc_id es))))
      (es_free_list (snd (es_alloc_id es))) (es_next_id (snd (es_alloc_id es)))" .
qed

lemma ids_idem:
  "cs_pc s t = pc \<Longrightarrow> (f \<circ> cs_pc s)(t := f pc) = f \<circ> cs_pc s"
  by (auto simp: fun_eq_iff)

lemma conc_step_ids:
  assumes "conc_step c ok s s'" and "conc_ids s"
  shows "conc_ids s'"
  using assms
proof (induction rule: conc_step.induct)
  case (begin_write s t tr db)
  then have "pc_node_ids (CBuffering tr) = pc_node_ids CIdle" "pc_edge_ids (CBuffering tr) = pc_edge_ids CIdle"
    "db_nodes db = db_nodes (cs_db s)" "db_edges db = db_edges (cs_db s)"
    by (auto simp: db_begin_write_def transaction_new_def split: prod.splits)
  with begin_write show ?case
    unfolding conc_goto_ids by (simp only: ids_idem conc_ids_def)
next
  case (create_node s t tr labels row i tr' db)
  have new: "tr' = tr\<lparr>t_node_inserts := t_node_inserts tr @ [(i, labels, row)]\<rparr>" "i = fst (ns_alloc_id (db_nodes (cs_db s)))"
    "db = (cs_db s)\<lparr>db_nodes := snd (ns_alloc_id (db_nodes (cs_db s)))\<rparr>"
    using create_node.hyps(3) by (auto simp: tr_create_node_def ns_alloc_id_direct_def Let_def split: prod.splits)
  have "ns_own ((pc_node_ids \<circ> cs_pc s)(t := pc_node_ids (CBuffering tr'))) (db_nodes db)"
    using ns_own_alloc [of "pc_node_ids \<circ> cs_pc s" "db_nodes (cs_db s)" t] create_node.prems create_node.hyps
    by (simp add: conc_ids_def new)
  moreover have "es_own ((pc_edge_ids \<circ> cs_pc s)(t := pc_edge_ids (CBuffering tr'))) (db_edges db)"
    using create_node.prems ids_idem [OF create_node.hyps(1), of pc_edge_ids] by (simp add: conc_ids_def new)
  ultimately show ?case unfolding conc_goto_ids by blast
next
  case (create_edge s t tr src dst y row j tr' db)
  have new: "tr' = tr\<lparr>t_edge_inserts := t_edge_inserts tr @ [(j, src, dst, y, row)]\<rparr>" "j = fst (es_alloc_id (db_edges (cs_db s)))"
    "db = (cs_db s)\<lparr>db_edges := snd (es_alloc_id (db_edges (cs_db s)))\<rparr>"
    using create_edge.hyps(3) by (auto simp: tr_create_edge_def es_alloc_id_direct_def Let_def split: prod.splits)
  have "es_own ((pc_edge_ids \<circ> cs_pc s)(t := pc_edge_ids (CBuffering tr'))) (db_edges db)"
    using es_own_alloc [of "pc_edge_ids \<circ> cs_pc s" "db_edges (cs_db s)" t] create_edge.prems create_edge.hyps
    by (simp add: conc_ids_def new)
  moreover have "ns_own ((pc_node_ids \<circ> cs_pc s)(t := pc_node_ids (CBuffering tr'))) (db_nodes db)"
    using create_edge.prems ids_idem [OF create_edge.hyps(1), of pc_node_ids] by (simp add: conc_ids_def new)
  ultimately show ?case unfolding conc_goto_ids by blast
next
  case (commit s t tr tm now)
  then show ?case unfolding conc_goto_ids
    using ids_idem [OF commit.hyps(1), of pc_node_ids] ids_idem [OF commit.hyps(1), of pc_edge_ids]
    by (simp add: conc_ids_def commit_ops_ids)
next
  case (apply_op s t tx op ops)
  have "ns_own ((pc_node_ids \<circ> cs_pc s)(t := op_node_ids op @ concat (map op_node_ids ops))) (db_nodes (cs_db s))"
    "es_own ((pc_edge_ids \<circ> cs_pc s)(t := op_edge_ids op @ concat (map op_edge_ids ops))) (db_edges (cs_db s))"
    using apply_op.prems ids_idem [OF apply_op.hyps(1), of pc_node_ids] ids_idem [OF apply_op.hyps(1), of pc_edge_ids]
    by (simp_all add: conc_ids_def)
  from op_exec_ids [OF this(1)] op_exec_edge_ids [OF this(2)] show ?case unfolding conc_goto_ids by simp
next
  case (return s t tx)
  then show ?case unfolding conc_goto_ids
    using ids_idem [OF return.hyps(1), of pc_node_ids] ids_idem [OF return.hyps(1), of pc_edge_ids] by (simp add: conc_ids_def)
next
  case (rollback s t tr tm)
  then show ?case unfolding conc_goto_ids
    using own_ids_drop [of "pc_node_ids \<circ> cs_pc s" _ _ _ t] own_ids_drop [of "pc_edge_ids \<circ> cs_pc s" _ _ _ t]
    by (simp add: conc_ids_def)
next
  case (update_labels s t tr i labels)
  then show ?case unfolding conc_goto_ids
    using ids_idem [OF update_labels.hyps, of pc_node_ids] ids_idem [OF update_labels.hyps, of pc_edge_ids]
    by (simp add: conc_ids_def tr_update_node_labels_def)
next
  case (delete_node s t tr i)
  then show ?case unfolding conc_goto_ids
    using ids_idem [OF delete_node.hyps, of pc_node_ids] ids_idem [OF delete_node.hyps, of pc_edge_ids]
    by (simp add: conc_ids_def tr_delete_node_def)
next
  case (delete_edge s t tr j)
  then show ?case unfolding conc_goto_ids
    using ids_idem [OF delete_edge.hyps, of pc_node_ids] ids_idem [OF delete_edge.hyps, of pc_edge_ids]
    by (simp add: conc_ids_def tr_delete_edge_def)
next
  case (set_prop s t tr label p row v)
  then show ?case unfolding conc_goto_ids
    using ids_idem [OF set_prop.hyps, of pc_node_ids] ids_idem [OF set_prop.hyps, of pc_edge_ids]
    by (simp add: conc_ids_def tr_set_prop_def)
qed

lemma conc_ids_init: "conc_ids conc_init"
  by (simp add: conc_ids_def conc_init_def db_memory_def own_ids_def ids_ok_def ns_with_capacity_def es_with_capacity_def)

lemma conc_reach_ids: "conc_reach c ok s0 s \<Longrightarrow> conc_ids s0 \<Longrightarrow> conc_ids s"
  by (induction rule: conc_reach.induct) (auto intro: conc_step_ids)

lemma conc_ids_insert_fresh:
  assumes "conc_ids s" and "cs_pc s t = CApplying tx (op # ops)"
  shows "i \<in> set (op_node_ids op) \<Longrightarrow> ns_nodes (db_nodes (cs_db s)) i = None"
    and "j \<in> set (op_edge_ids op) \<Longrightarrow> es_edges (db_edges (cs_db s)) j = None"
proof -
  let ?n = "pc_node_ids \<circ> cs_pc s" and ?e = "pc_edge_ids \<circ> cs_pc s"
  have own: "ns_own ?n (db_nodes (cs_db s))" "es_own ?e (db_edges (cs_db s))"
    using assms(1) by (simp_all add: conc_ids_def)
  show "i \<in> set (op_node_ids op) \<Longrightarrow> ns_nodes (db_nodes (cs_db s)) i = None"
    using own_ids_fill(2) [OF own(1), of t i] assms(2) by (cases op) auto
  show "j \<in> set (op_edge_ids op) \<Longrightarrow> es_edges (db_edges (cs_db s)) j = None"
    using own_ids_fill(2) [OF own(2), of t j] assms(2) by (cases op) auto
qed

section \<open>Lemmas: what a snapshot sees\<close>

text \<open>Tickets are never 0, and a settled snapshot stays settled.\<close>

definition conc_tickets :: "conc_sys \<Rightarrow> bool" where
  "conc_tickets s \<longleftrightarrow> tm_next_tx_id (db_tx_manager (cs_db s)) \<noteq> 0 \<and>
     (\<forall>t tr. cs_pc s t = CBuffering tr \<longrightarrow> t_tx_id tr \<noteq> 0)"

lemma conc_step_tickets: "conc_step c ok s s' \<Longrightarrow> conc_tickets s \<Longrightarrow> conc_tickets s'"
proof (induction rule: conc_step.induct)
  case (begin_write s t tr db)
  have "tm_next_tx_id (db_tx_manager (cs_db s)) + 1 \<noteq> 0"
    using begin_write.hyps(2) by (metis add_eq_0_iff add.commute)
  with begin_write show ?case
    by (auto simp: conc_tickets_def db_begin_write_def tm_begin_write_def transaction_new_def)
next
  case (rollback s t tr tm)
  then show ?case by (auto simp: conc_tickets_def tm_rollback_eq split: if_splits)
next
  case (apply_op s t tx op ops)
  then show ?case by (cases op) (auto simp: conc_tickets_def)
qed (auto simp: conc_tickets_def tr_create_node_def tr_create_edge_def tr_update_node_labels_def tr_delete_node_def
    tr_delete_edge_def tr_set_prop_def tm_commit_eq split: prod.splits if_splits)

lemma u64_pred_less: "tx \<noteq> (0 :: u64) \<Longrightarrow> s \<le> tx - 1 \<Longrightarrow> s < tx"
  using unat_minus_one [of tx] by (auto simp: word_less_nat_alt word_le_nat_alt unat_eq_0 [symmetric])

lemma conc_step_settled: "conc_step c ok s s' \<Longrightarrow> conc_tickets s \<Longrightarrow> settled tx s \<Longrightarrow> settled tx s'"
proof (induction rule: conc_step.induct)
  case (begin_write s t tr db)
  then show ?case by (auto simp: settled_def db_begin_write_def tm_begin_write_def)
next
  case (commit s t tr tm now)
  then have "tm_committed_tx_id (db_tx_manager (cs_db s)) = t_tx_id tr - 1" "tm_committed_tx_id tm = t_tx_id tr"
    "t_tx_id tr \<noteq> 0"
    by (auto simp: conc_tickets_def tm_commit_eq split: if_splits)
  with commit have "tx < t_tx_id tr" using u64_pred_less [of "t_tx_id tr" tx] by (simp add: settled_def)
  with commit \<open>tm_committed_tx_id tm = _\<close> show ?case by (auto simp: settled_def)
next
  case (rollback s t tr tm)
  then have "tm_committed_tx_id (db_tx_manager (cs_db s)) = t_tx_id tr - 1" "tm_committed_tx_id tm = t_tx_id tr"
    "t_tx_id tr \<noteq> 0"
    by (auto simp: conc_tickets_def tm_rollback_eq split: if_splits)
  with rollback have "tx < t_tx_id tr" using u64_pred_less [of "t_tx_id tr" tx] by (simp add: settled_def)
  with rollback \<open>tm_committed_tx_id tm = _\<close> show ?case by (auto simp: settled_def)
next
  case (apply_op s t tx' op ops)
  then show ?case by (cases op) (auto simp: settled_def)
qed (auto simp: settled_def tr_create_node_def tr_create_edge_def split: prod.splits)

text \<open>What a snapshot sees of the database.\<close>

definition seen :: "TxId \<Rightarrow> database \<Rightarrow> (NodeId \<rightharpoonup> node) \<times> (EdgeId \<rightharpoonup> edge)" where
  "seen tx db = (\<lambda>i. node_seen (ns_nodes (db_nodes db) i) tx, \<lambda>j. edge_seen (es_edges (db_edges db) j) tx)"

lemma op_exec_seen:
  assumes "clean_op op db" and "tx < tx'"
    and "\<And>i. i \<in> set (op_node_ids op) \<Longrightarrow> ns_nodes (db_nodes db) i = None"
    and "\<And>j. j \<in> set (op_edge_ids op) \<Longrightarrow> es_edges (db_edges db) j = None"
  shows "seen tx (commit_op_exec c tx' op db) = seen tx db"
proof (cases op)
  case (CInsertNode i labels row)
  then have "node_seen (Some (node_new i labels row tx')) tx = node_seen (ns_nodes (db_nodes db) i) tx"
    using assms(2,3) node_unseen_new [of "node_new i labels row tx'" tx' tx] by (simp add: node_seen_def node_new_def)
  with CInsertNode show ?thesis by (simp add: seen_def fun_eq_iff)
next
  case (CDeleteNode i)
  then show ?thesis
    using assms(1,2) node_seen_marked [of "ns_nodes (db_nodes db) i" tx tx']
    by (simp add: seen_def fun_eq_iff ns_modify_ops ns_modify_nodes)
next
  case (CInsertEdge j src dst y row)
  then have "edge_seen (Some (edge_new j src dst y row tx')) tx = edge_seen (es_edges (db_edges db) j) tx"
    using assms(2,4) edge_unseen_new [of "edge_new j src dst y row tx'" tx' tx] by (simp add: edge_seen_def edge_new_def)
  with CInsertEdge show ?thesis by (simp add: seen_def fun_eq_iff)
next
  case (CDeleteEdge j)
  then show ?thesis
    using assms(1,2) edge_seen_marked [of "es_edges (db_edges db) j" tx tx']
    by (simp add: seen_def fun_eq_iff es_soft_delete_edges)
qed (use assms(1) in \<open>simp_all add: seen_def\<close>)

lemma conc_step_seen:
  assumes "conc_step c clean_op s s'" and "conc_ids s" and "settled tx s"
  shows "seen tx (cs_db s') = seen tx (cs_db s)"
  using assms
proof (induction rule: conc_step.induct)
  case (apply_op s t tx' op ops)
  have "tx < tx'" using apply_op by (auto simp: settled_def)
  with apply_op show ?case
    using op_exec_seen [of op "cs_db s" tx tx' c] conc_ids_insert_fresh [OF apply_op.prems(1) apply_op.hyps(1)] by simp
next
  case (create_node s t tr labels row i tr' db)
  then have "db = (cs_db s)\<lparr>db_nodes := snd (ns_alloc_id (db_nodes (cs_db s)))\<rparr>"
    by (auto simp: tr_create_node_def ns_alloc_id_direct_def split: prod.splits)
  then show ?case by (simp add: seen_def)
next
  case (create_edge s t tr src dst y row j tr' db)
  then have "db = (cs_db s)\<lparr>db_edges := snd (es_alloc_id (db_edges (cs_db s)))\<rparr>"
    by (auto simp: tr_create_edge_def es_alloc_id_direct_def split: prod.splits)
  then show ?case by (simp add: seen_def)
qed (auto simp: seen_def db_begin_write_def split: prod.splits)

lemma conc_reach_seen:
  assumes "conc_reach c clean_op s s'" and "conc_ids s" and "conc_tickets s" and "settled tx s"
  shows "seen tx (cs_db s') = seen tx (cs_db s) \<and> conc_ids s' \<and> conc_tickets s' \<and> settled tx s'"
  using assms
proof (induction rule: conc_reach.induct)
  case (step s s')
  then show ?case
    using conc_step_seen conc_step_ids conc_step_tickets conc_step_settled by metis
qed simp

lemma conc_reach_tickets: "conc_reach c ok s0 s \<Longrightarrow> conc_tickets s0 \<Longrightarrow> conc_tickets s"
  by (induction rule: conc_reach.induct) (auto intro: conc_step_tickets)

lemma conc_tickets_init: "conc_tickets conc_init"
  by (simp add: conc_tickets_def conc_init_def db_memory_def tm_new_def)

section \<open>Lemmas: well-formed stores\<close>

text \<open>Every version is stored under its own identifier and made and deleted by published transactions.\<close>

definition db_versions_ok :: "TxId \<Rightarrow> database \<Rightarrow> bool" where
  "db_versions_ok published db \<longleftrightarrow>
     (\<forall>i n. ns_nodes (db_nodes db) i = Some n \<longrightarrow> n_id n = i \<and> n_created_tx n \<le> published \<and>
       (n_deleted_tx n = MAX_TX_ID \<or> n_deleted_tx n \<le> published)) \<and>
     (\<forall>j e. es_edges (db_edges db) j = Some e \<longrightarrow> e_id e = j \<and> e_created_tx e \<le> published \<and>
       (e_deleted_tx e = MAX_TX_ID \<or> e_deleted_tx e \<le> published))"

definition conc_wf :: "conc_sys \<Rightarrow> bool" where
  "conc_wf s \<longleftrightarrow> db_versions_ok (tm_committed_tx_id (db_tx_manager (cs_db s))) (cs_db s) \<and>
     (\<forall>t tx ops. cs_pc s t = CApplying tx ops \<longrightarrow> tx \<le> tm_committed_tx_id (db_tx_manager (cs_db s)))"

lemma db_versions_ok_mono: "db_versions_ok p db \<Longrightarrow> p \<le> q \<Longrightarrow> db_versions_ok q db"
  unfolding db_versions_ok_def by (meson order_trans)

lemma db_versions_ok_cong:
  "ns_nodes (db_nodes db') = ns_nodes (db_nodes db) \<Longrightarrow> es_edges (db_edges db') = es_edges (db_edges db) \<Longrightarrow>
    db_versions_ok p db' = db_versions_ok p db"
  by (simp add: db_versions_ok_def)

lemma op_exec_versions:
  assumes "db_versions_ok p db" and "tx \<le> p"
  shows "db_versions_ok p (commit_op_exec c tx op db)"
proof (cases op)
  case (CInsertNode i labels row)
  with assms show ?thesis by (auto simp: db_versions_ok_def)
next
  case (CUpdateLabels i labels)
  with assms show ?thesis
    unfolding db_versions_ok_def by (fastforce simp: ns_modify_ops ns_modify_nodes split: if_splits)
next
  case (CDeleteNode i)
  with assms show ?thesis
    by (auto simp: db_versions_ok_def ns_modify_ops ns_modify_nodes node_mark_deleted_def split: if_splits)
next
  case (CInsertEdge j src dst y row)
  with assms show ?thesis by (auto simp: db_versions_ok_def es_insert_with_id_def edge_new_def Let_def)
next
  case (CDeleteEdge j)
  with assms show ?thesis by (auto simp: db_versions_ok_def es_soft_delete_edges edge_mark_deleted_def split: if_splits)
qed (use assms in \<open>simp_all add: db_versions_ok_def\<close>)

lemma op_exec_tickets: "db_tx_manager (commit_op_exec c tx op db) = db_tx_manager db"
  by (cases op) simp_all

lemma conc_wf_publish:
  assumes "conc_wf s" and "tm_committed_tx_id (db_tx_manager (cs_db s)) = tx - 1" and "tx \<noteq> 0"
    and "tm_committed_tx_id tm = tx" and "pc = CIdle \<or> (\<exists>ops. pc = CApplying tx ops)"
  shows "conc_wf (conc_goto t pc ((cs_db s)\<lparr>db_tx_manager := tm\<rparr>) s)"
proof -
  let ?p = "tm_committed_tx_id (db_tx_manager (cs_db s))"
  have le: "?p \<le> tx" using u64_pred_less [OF assms(3), of ?p] assms(2) by simp
  have "db_versions_ok ?p (cs_db s)" using assms(1) by (simp add: conc_wf_def)
  from db_versions_ok_mono [OF this le] have "db_versions_ok tx ((cs_db s)\<lparr>db_tx_manager := tm\<rparr>)"
    by (simp add: db_versions_ok_def)
  moreover have "tx' \<le> tx" if "cs_pc s u = CApplying tx' ops" for u tx' ops
    using assms(1) that le order_trans unfolding conc_wf_def by blast
  ultimately show ?thesis using assms(4,5) by (auto simp: conc_wf_def)
qed

lemma own_ids_free: "own_ids ids live free nxt \<Longrightarrow> set (ids t) \<inter> live = {}"
  unfolding own_ids_def ids_ok_def by blast

lemma conc_step_wf: "conc_step c ok s s' \<Longrightarrow> conc_tickets s \<Longrightarrow> conc_wf s \<Longrightarrow> conc_wf s'"
proof (induction rule: conc_step.induct)
  case (begin_write s t tr db)
  then have "db_nodes db = db_nodes (cs_db s)" "db_edges db = db_edges (cs_db s)"
    "tm_committed_tx_id (db_tx_manager db) = tm_committed_tx_id (db_tx_manager (cs_db s))"
    by (auto simp: db_begin_write_def tm_begin_write_def)
  with begin_write.prems(2) show ?case by (simp add: conc_wf_def db_versions_ok_def)
next
  case (create_node s t tr labels row i tr' db)
  then have "db = (cs_db s)\<lparr>db_nodes := snd (ns_alloc_id (db_nodes (cs_db s)))\<rparr>"
    by (auto simp: tr_create_node_def ns_alloc_id_direct_def split: prod.splits)
  with create_node.prems(2) show ?case by (simp add: conc_wf_def db_versions_ok_def)
next
  case (create_edge s t tr src dst y row j tr' db)
  then have "db = (cs_db s)\<lparr>db_edges := snd (es_alloc_id (db_edges (cs_db s)))\<rparr>"
    by (auto simp: tr_create_edge_def es_alloc_id_direct_def split: prod.splits)
  with create_edge.prems(2) show ?case by (simp add: conc_wf_def db_versions_ok_def)
next
  case (commit s t tr tm now)
  then show ?case
    by (intro conc_wf_publish [where tx = "t_tx_id tr"]) (auto simp: conc_tickets_def tm_commit_eq split: if_splits)
next
  case (rollback s t tr tm)
  then show ?case
    by (intro conc_wf_publish [where tx = "t_tx_id tr"]) (auto simp: conc_tickets_def tm_rollback_eq split: if_splits)
next
  case (apply_op s t tx op ops)
  then have "tx \<le> tm_committed_tx_id (db_tx_manager (cs_db s))" unfolding conc_wf_def by blast
  with apply_op.prems(2) show ?case by (simp add: conc_wf_def op_exec_tickets op_exec_versions)
qed (auto simp: conc_wf_def)

lemma conc_init_wf: "conc_wf conc_init"
  by (simp add: conc_wf_def conc_init_def db_memory_def db_versions_ok_def ns_with_capacity_def es_with_capacity_def)

lemma conc_reach_wf: "conc_reach c ok s0 s \<Longrightarrow> conc_tickets s0 \<and> conc_wf s0 \<Longrightarrow> conc_tickets s \<and> conc_wf s"
  by (induction rule: conc_reach.induct) (auto intro: conc_step_tickets conc_step_wf)

section \<open>Example\<close>

text \<open>
  Two threads: the first creates node 0 and sets a cell to 1, the second deletes node 0 and sets the
  same cell to 2. Both tickets are published, nothing is applied yet.
\<close>

definition race_first :: transaction where
  "race_first = tr_set_prop 1 [0x61] 0 (Some (VInt 1))
     ((transaction_new 1 0 True)\<lparr>t_node_inserts := [(0, [7], 0)]\<rparr>)"

definition race_second :: transaction where
  "race_second = tr_set_prop 1 [0x61] 0 (Some (VInt 2)) (tr_delete_node 0 (transaction_new 2 0 True))"

definition race_db :: database where
  "race_db = db_memory\<lparr>db_tx_manager := \<lparr>tm_next_tx_id = 3, tm_committed_tx_id = 2\<rparr>,
     db_nodes := (ns_with_capacity 1024)\<lparr>ns_next_id := 1\<rparr>\<rparr>"

definition race_state :: conc_sys where
  "race_state = \<lparr>cs_db = race_db, cs_pc = (\<lambda>_. CIdle)
     (0 := CApplying 1 (commit_ops 0 race_first), 1 := CApplying 2 (commit_ops 0 race_second))\<rparr>"

lemma race_ops:
  "commit_ops 0 race_first =
     [CInsertNode 0 [7] 0, CSetProp 1 [0x61] 0 (Some (VInt 1)), CFlushNodes 0, CFlushEdges 0, CFlushProps 0]"
  "commit_ops 0 race_second =
     [CDeleteNode 0, CSetProp 1 [0x61] 0 (Some (VInt 2)), CFlushNodes 0, CFlushEdges 0, CFlushProps 0]"
  by (simp_all add: commit_ops_def commit_writes_def race_first_def race_second_def tr_set_prop_def tr_delete_node_def transaction_new_def)

lemma race_reachable: "conc_reach c ok conc_init race_state"
proof -
  let ?tm = "\<lambda>n m. \<lparr>tm_next_tx_id = n, tm_committed_tx_id = m\<rparr>"
  let ?db = "\<lambda>n m k. db_memory\<lparr>db_tx_manager := ?tm n m, db_nodes := (ns_with_capacity 1024)\<lparr>ns_next_id := k\<rparr>\<rparr>"
  let ?t0 = "transaction_new 1 0 True" and ?t1 = "(transaction_new 1 0 True)\<lparr>t_node_inserts := [(0, [7], 0)]\<rparr>"
  let ?u0 = "transaction_new 2 0 True"
  let ?s = "\<lambda>db a b. \<lparr>cs_db = db, cs_pc = (\<lambda>_. CIdle)(0 := a, 1 := b)\<rparr>"
  note defs = conc_goto_def db_begin_write_def tm_begin_write_def tm_latest_committed_def db_memory_def tm_new_def
    tr_create_node_def ns_alloc_id_direct_def ns_alloc_id_def ns_with_capacity_def transaction_new_def tm_commit_eq
    race_first_def race_second_def tr_set_prop_def tr_delete_node_def
  have 0: "conc_init = ?s (?db 1 0 0) CIdle CIdle"
    by (simp add: conc_init_def db_memory_def tm_new_def ns_with_capacity_def fun_upd_idem)
  have 1: "conc_step c ok (?s (?db 1 0 0) CIdle CIdle) (?s (?db 2 0 0) (CBuffering ?t0) CIdle)"
    using conc_step.begin_write [where c = c and ok = ok and s = "?s (?db 1 0 0) CIdle CIdle" and t = 0 and tr = ?t0 and db = "?db 2 0 0"]
    by (simp add: defs fun_upd_twist)
  have 2: "conc_step c ok (?s (?db 2 0 0) (CBuffering ?t0) CIdle) (?s (?db 2 0 1) (CBuffering ?t1) CIdle)"
    using conc_step.create_node [where c = c and ok = ok and s = "?s (?db 2 0 0) (CBuffering ?t0) CIdle" and t = 0 and tr = ?t0
        and labels = "[7]" and row = 0 and i = 0 and tr' = ?t1 and db = "?db 2 0 1"]
    by (simp add: defs fun_upd_twist)
  have 3: "conc_step c ok (?s (?db 2 0 1) (CBuffering ?t1) CIdle) (?s (?db 2 0 1) (CBuffering race_first) CIdle)"
    using conc_step.set_prop [where c = c and ok = ok and s = "?s (?db 2 0 1) (CBuffering ?t1) CIdle" and t = 0 and tr = ?t1
        and label = 1 and key = "[0x61]" and row = 0 and v = "Some (VInt 1)"]
    by (simp add: defs fun_upd_twist)
  have 4: "conc_step c ok (?s (?db 2 0 1) (CBuffering race_first) CIdle) (?s (?db 3 0 1) (CBuffering race_first) (CBuffering ?u0))"
    using conc_step.begin_write [where c = c and ok = ok and s = "?s (?db 2 0 1) (CBuffering race_first) CIdle" and t = 1
        and tr = ?u0 and db = "?db 3 0 1"]
    by (simp add: defs fun_upd_twist)
  have 5: "conc_step c ok (?s (?db 3 0 1) (CBuffering race_first) (CBuffering ?u0))
      (?s (?db 3 0 1) (CBuffering race_first) (CBuffering (tr_delete_node 0 ?u0)))"
    using conc_step.delete_node [where c = c and ok = ok and s = "?s (?db 3 0 1) (CBuffering race_first) (CBuffering ?u0)" and t = 1
        and tr = ?u0 and i = 0]
    by (simp add: conc_goto_def fun_upd_twist)
  have 6: "conc_step c ok (?s (?db 3 0 1) (CBuffering race_first) (CBuffering (tr_delete_node 0 ?u0)))
      (?s (?db 3 0 1) (CBuffering race_first) (CBuffering race_second))"
    using conc_step.set_prop [where c = c and ok = ok and t = 1 and tr = "tr_delete_node 0 ?u0"
        and s = "?s (?db 3 0 1) (CBuffering race_first) (CBuffering (tr_delete_node 0 ?u0))"
        and label = 1 and key = "[0x61]" and row = 0 and v = "Some (VInt 2)"]
    by (simp add: conc_goto_def race_second_def fun_upd_twist)
  have 7: "conc_step c ok (?s (?db 3 0 1) (CBuffering race_first) (CBuffering race_second))
      (?s (?db 3 1 1) (CApplying 1 (commit_ops 0 race_first)) (CBuffering race_second))"
    using conc_step.commit [where c = c and ok = ok and t = 0 and tr = race_first and now = 0 and tm = "?tm 3 1"
        and s = "?s (?db 3 0 1) (CBuffering race_first) (CBuffering race_second)"]
    by (simp add: defs fun_upd_twist)
  have 8: "conc_step c ok (?s (?db 3 1 1) (CApplying 1 (commit_ops 0 race_first)) (CBuffering race_second)) race_state"
    using conc_step.commit [where c = c and ok = ok and t = 1 and tr = race_second and now = 0 and tm = "?tm 3 2"
        and s = "?s (?db 3 1 1) (CApplying 1 (commit_ops 0 race_first)) (CBuffering race_second)"]
    by (simp add: defs race_state_def race_db_def fun_upd_twist)
  note run = conc_reach.step [OF conc_reach.step [OF conc_reach.step [OF conc_reach.step [OF conc_reach.step
    [OF conc_reach.step [OF conc_reach.step [OF conc_reach.step [OF conc_reach.start 1] 2] 3] 4] 5] 6] 7] 8]
  show ?thesis unfolding 0 by (rule run)
qed

lemma conc_apply_next:
  "conc_reach c any_op s0 s \<Longrightarrow> cs_pc s t = CApplying tx (op # ops) \<Longrightarrow>
    conc_reach c any_op s0 (conc_goto t (CApplying tx ops) (commit_op_exec c tx op (cs_db s)) s)"
  by (erule conc_reach.step) (erule conc_step.apply_op, simp)

lemma u64_less_max: "tx < MAX_TX_ID \<longleftrightarrow> tx \<noteq> MAX_TX_ID"
proof -
  have "MAX_TX_ID = - 1" by (simp add: MAX_TX_ID_def)
  then show ?thesis using word_order.not_eq_extremum [of tx] by simp
qed

section \<open>Properties\<close>

text \<open>
  C2. Snapshot isolation under interleaving: on a database made by \<open>Database::memory\<close>, whatever transactions threads
  have run before, let everything up to a
  reader's snapshot be published and applied. Then no further steps of any threads, the application of
  commits half-way through included, change what the reader sees of any node or edge, apart from the
  mark of a later deletion, as long as no labels are updated and nothing is deleted twice.
\<close>

theorem conc_snapshot_isolation:
  assumes "conc_reach c any_op conc_init s" and "settled (t_snapshot rd) s" and "conc_reach c clean_op s s'"
  shows "map_option (\<lambda>n. n\<lparr>n_deleted_tx := 0\<rparr>) (tr_get_node i rd (cs_db s')) =
      map_option (\<lambda>n. n\<lparr>n_deleted_tx := 0\<rparr>) (tr_get_node i rd (cs_db s)) \<and>
    map_option (\<lambda>e. e\<lparr>e_deleted_tx := 0\<rparr>) (tr_get_edge j rd (cs_db s')) =
      map_option (\<lambda>e. e\<lparr>e_deleted_tx := 0\<rparr>) (tr_get_edge j rd (cs_db s))"
proof -
  have "seen (t_snapshot rd) (cs_db s') = seen (t_snapshot rd) (cs_db s)"
    using conc_reach_seen [OF assms(3) _ _ assms(2)] conc_reach_ids [OF assms(1) conc_ids_init]
      conc_reach_tickets [OF assms(1) conc_tickets_init] by blast
  then show ?thesis unfolding tr_get_node_seen tr_get_edge_seen by (simp add: seen_def fun_eq_iff)
qed

theorem conc_snapshot_isolation_witness:
  "\<exists>s s'. conc_reach codecs_example any_op conc_init s \<and> conc_reach codecs_example clean_op s s' \<and>
    cs_db s \<noteq> cs_db s' \<and> map_option n_labels (tr_get_node 0 (transaction_new 0 1 False) (cs_db s')) = Some [7]"
proof -
  let ?rd = "transaction_new 0 1 False"
  let ?db = "fold (commit_op_exec codecs_example 1) (commit_ops 0 race_first) (cs_db race_state)"
  let ?s = "conc_goto 0 CIdle ?db (conc_goto 0 (CApplying 1 []) ?db race_state)"
  let ?s' = "conc_goto 1 (CApplying 2 (tl (commit_ops 0 race_second))) (commit_op_exec codecs_example 2 (CDeleteNode 0) (cs_db ?s)) ?s"
  have "conc_reach codecs_example any_op race_state (conc_goto 0 (CApplying 1 []) ?db race_state)"
    by (rule conc_applies) (simp add: race_state_def)
  from conc_reach_trans [OF this race_reachable]
  have reach: "conc_reach codecs_example any_op conc_init ?s"
    by (rule conc_reach.step) (use conc_step.return [of "conc_goto 0 (CApplying 1 []) ?db race_state" 0 1] in simp)
  have node: "ns_nodes (db_nodes ?db) 0 = Some (node_new 0 [7] 0 1)" "tm_committed_tx_id (db_tx_manager ?db) = 2"
    by (simp_all add: race_ops race_state_def race_db_def)
  have settled: "settled (t_snapshot ?rd) ?s"
    using node(2) by (auto simp: settled_def transaction_new_def race_state_def)
  have step: "conc_reach codecs_example clean_op ?s ?s'"
    by (rule conc_reach.step [OF conc_reach.start], rule conc_step.apply_op)
      (use node(1) in \<open>simp_all add: race_state_def race_ops node_new_def\<close>)
  have "map_option n_labels (map_option (\<lambda>n. n\<lparr>n_deleted_tx := 0\<rparr>) (tr_get_node 0 ?rd (cs_db ?s'))) = Some [7]"
    unfolding conc_snapshot_isolation [OF reach settled step, of 0 0, THEN conjunct1]
    using node(1) by (simp add: tr_get_node_at node_at_def transaction_new_def node_is_alive_def MAX_TX_ID_def node_new_def)
  then have "map_option n_labels (tr_get_node 0 ?rd (cs_db ?s')) = Some [7]"
    by (simp add: option.map_comp comp_def)
  moreover have "ns_nodes (db_nodes (cs_db ?s')) 0 \<noteq> ns_nodes (db_nodes (cs_db ?s)) 0"
    using node(1) by (simp add: ns_modify_ops ns_modify_nodes node_mark_deleted_def node_new_def MAX_TX_ID_def)
  then have "cs_db ?s \<noteq> cs_db ?s'" by metis
  ultimately show ?thesis using reach step by blast
qed

text \<open>
  C13. The stores stay well formed under every interleaving of threads that run transactions. The start is a
  database on which no transaction is open, in whose stores the stored and the free identifiers are sound, and where each
  node and edge is stored under its own identifier and carries only published tickets: \<open>Database::memory\<close> gives
  one, while a reopened database, whose tickets start anew, is one only if its logs recover no version with a ticket and no
  identifier that was freed and inserted again. At every moment each node and edge is stored under its own identifier
  and carries tickets that are published already, so nothing unpublished is ever stored; and the identifiers
  that threads have been given and not stored yet are pairwise different, belong to one thread each, and are not in use.
\<close>

theorem conc_store_wf:
  assumes start: "\<forall>t. cs_pc s0 t = CIdle" "tm_next_tx_id (db_tx_manager (cs_db s0)) \<noteq> 0"
      "ids_ok {} (dom (ns_nodes (db_nodes (cs_db s0)))) (ns_free_list (db_nodes (cs_db s0))) (ns_next_id (db_nodes (cs_db s0)))"
      "ids_ok {} (dom (es_edges (db_edges (cs_db s0)))) (es_free_list (db_edges (cs_db s0))) (es_next_id (db_edges (cs_db s0)))"
      "db_versions_ok (tm_committed_tx_id (db_tx_manager (cs_db s0))) (cs_db s0)"
    and reach: "conc_reach c any_op s0 s"
  shows "db_versions_ok (tm_committed_tx_id (db_tx_manager (cs_db s))) (cs_db s) \<and>
    (\<forall>t. distinct (pc_node_ids (cs_pc s t)) \<and> distinct (pc_edge_ids (cs_pc s t))) \<and>
    (\<forall>t u. t \<noteq> u \<longrightarrow> set (pc_node_ids (cs_pc s t)) \<inter> set (pc_node_ids (cs_pc s u)) = {} \<and>
      set (pc_edge_ids (cs_pc s t)) \<inter> set (pc_edge_ids (cs_pc s u)) = {}) \<and>
    (\<forall>t. set (pc_node_ids (cs_pc s t)) \<inter> dom (ns_nodes (db_nodes (cs_db s))) = {} \<and>
      set (pc_edge_ids (cs_pc s t)) \<inter> dom (es_edges (db_edges (cs_db s))) = {})"
proof -
  have s0: "conc_tickets s0" "conc_wf s0" "conc_ids s0"
    using start by (simp_all add: conc_tickets_def conc_wf_def conc_ids_def own_ids_def)
  then have "conc_wf s" using conc_reach_wf [OF reach] by blast
  then have "db_versions_ok (tm_committed_tx_id (db_tx_manager (cs_db s))) (cs_db s)" by (simp add: conc_wf_def)
  moreover have own: "ns_own (pc_node_ids \<circ> cs_pc s) (db_nodes (cs_db s))" "es_own (pc_edge_ids \<circ> cs_pc s) (db_edges (cs_db s))"
    using conc_reach_ids [OF reach s0(3)] by (simp_all add: conc_ids_def)
  moreover note own [THEN own_ids_free]
  ultimately show ?thesis by (simp add: own_ids_def)
qed

theorem conc_store_wf_witness:
  "set (pc_node_ids (cs_pc race_state 0)) \<inter> set (pc_node_ids (cs_pc race_state 1)) = {} \<and>
   set (pc_node_ids (cs_pc race_state 0)) \<inter> dom (ns_nodes (db_nodes (cs_db race_state))) = {} \<and>
   pc_node_ids (cs_pc race_state 0) = [0] \<and> db_versions_ok 2 (cs_db race_state)"
proof -
  have start: "\<forall>t. cs_pc conc_init t = CIdle" "tm_next_tx_id (db_tx_manager (cs_db conc_init)) \<noteq> 0"
    "ids_ok {} (dom (ns_nodes (db_nodes (cs_db conc_init)))) (ns_free_list (db_nodes (cs_db conc_init))) (ns_next_id (db_nodes (cs_db conc_init)))"
    "ids_ok {} (dom (es_edges (db_edges (cs_db conc_init)))) (es_free_list (db_edges (cs_db conc_init))) (es_next_id (db_edges (cs_db conc_init)))"
    "db_versions_ok (tm_committed_tx_id (db_tx_manager (cs_db conc_init))) (cs_db conc_init)"
    using conc_ids_init conc_init_wf
    by (simp_all add: conc_ids_def conc_wf_def own_ids_def conc_init_def db_memory_def tm_new_def)
  have "pc_node_ids (cs_pc race_state 0) = [0]" "tm_committed_tx_id (db_tx_manager (cs_db race_state)) = 2"
    by (simp_all add: race_state_def race_ops race_db_def)
  moreover have "(0 :: nat) \<noteq> 1" by simp
  ultimately show ?thesis using conc_store_wf [OF start race_reachable] by metis
qed

text \<open>
  C32. Tickets order the publication of transactions but not their application: when a transaction that
  creates a node and a later one that deletes it are both published, the deletion may come first. It is
  lost then, and every later reader sees the node; in the other order no reader from the second
  transaction on sees it.
\<close>

theorem conc_lost_deletion:
  assumes "conc_reach c any_op conc_init s" and "cs_pc s a = CApplying ta (CInsertNode i labels row # opsa)"
    and "cs_pc s b = CApplying tb (CDeleteNode i # opsb)" and "ta < tb"
  shows "\<exists>s1 s2. conc_reach c any_op conc_init s1 \<and> conc_reach c any_op conc_init s2 \<and>
    cs_pc s1 = (cs_pc s)(a := CApplying ta opsa, b := CApplying tb opsb) \<and> cs_pc s2 = cs_pc s1 \<and>
    (\<forall>tx w. tr_get_node i (transaction_new 0 tx w) (cs_db s1) = None \<longleftrightarrow> tx < ta \<or> tb \<le> tx) \<and>
    (\<forall>tx w. tr_get_node i (transaction_new 0 tx w) (cs_db s2) = None \<longleftrightarrow> tx < ta \<or> tx = MAX_TX_ID)"
proof -
  have ab: "a \<noteq> b" using assms(2,3) by auto
  have fresh: "ns_nodes (db_nodes (cs_db s)) i = None"
    using conc_ids_insert_fresh(1) [OF conc_reach_ids [OF assms(1) conc_ids_init] assms(2)] by simp
  let ?ins = "commit_op_exec c ta (CInsertNode i labels row)" and ?del = "commit_op_exec c tb (CDeleteNode i)"
  let ?a1 = "conc_goto a (CApplying ta opsa) (?ins (cs_db s)) s"
  let ?b1 = "conc_goto b (CApplying tb opsb) (?del (cs_db s)) s"
  let ?s1 = "conc_goto b (CApplying tb opsb) (?del (cs_db ?a1)) ?a1"
  let ?s2 = "conc_goto a (CApplying ta opsa) (?ins (cs_db ?b1)) ?b1"
  have "conc_reach c any_op conc_init ?s1"
    by (rule conc_apply_next [OF conc_apply_next [OF assms(1,2)]]) (use ab assms(3) in simp)
  moreover have "conc_reach c any_op conc_init ?s2"
    by (rule conc_apply_next [OF conc_apply_next [OF assms(1,3)]]) (use ab assms(2) in simp)
  moreover have "cs_pc ?s2 = cs_pc ?s1" using ab by (simp add: fun_upd_twist)
  moreover have "tr_get_node i (transaction_new 0 tx w) (cs_db ?s1) = None \<longleftrightarrow> tx < ta \<or> tb \<le> tx" for tx w
    by (auto simp: tr_get_node_def ns_get_def ns_modify_ops ns_modify_nodes node_is_alive_def node_mark_deleted_def
        node_new_def transaction_new_def)
  moreover have "tr_get_node i (transaction_new 0 tx w) (cs_db ?s2) = None \<longleftrightarrow> tx < ta \<or> tx = MAX_TX_ID" for tx w
    by (auto simp: u64_less_max tr_get_node_def ns_get_def ns_modify_ops ns_modify_nodes node_is_alive_def fresh
        node_new_def transaction_new_def)
  ultimately show ?thesis by (intro exI [of _ ?s1] exI [of _ ?s2]) simp
qed

theorem conc_lost_deletion_witness:
  "\<exists>s1 s2. conc_reach codecs_example any_op conc_init s1 \<and> conc_reach codecs_example any_op conc_init s2 \<and>
    tr_get_node 0 (transaction_new 0 2 False) (cs_db s1) = None \<and>
    tr_get_node 0 (transaction_new 0 2 False) (cs_db s2) \<noteq> None"
proof -
  have pcs: "cs_pc race_state 0 = CApplying 1 (CInsertNode 0 [7] 0 # tl (commit_ops 0 race_first))"
    "cs_pc race_state 1 = CApplying 2 (CDeleteNode 0 # tl (commit_ops 0 race_second))" "(1 :: TxId) < 2"
    by (simp_all add: race_state_def race_ops)
  obtain s1 s2 where "conc_reach codecs_example any_op conc_init s1" "conc_reach codecs_example any_op conc_init s2"
    "\<forall>tx w. tr_get_node 0 (transaction_new 0 tx w) (cs_db s1) = None \<longleftrightarrow> tx < 1 \<or> 2 \<le> tx"
    "\<forall>tx w. tr_get_node 0 (transaction_new 0 tx w) (cs_db s2) = None \<longleftrightarrow> tx < 1 \<or> tx = MAX_TX_ID"
    using conc_lost_deletion [OF race_reachable pcs] by blast
  then show ?thesis by (intro exI [of _ s1] exI [of _ s2]) (simp add: MAX_TX_ID_def)
qed

text \<open>
  Nor do tickets order property writes: when two published transactions are about to write one cell,
  either value may remain, that of the earlier transaction too.
\<close>

theorem conc_cell_race:
  assumes "conc_reach c any_op conc_init s" and "cs_pc s a = CApplying ta (CSetProp l p r va # opsa)"
    and "cs_pc s b = CApplying tb (CSetProp l p r vb # opsb)" and "a \<noteq> b"
  shows "\<exists>s1 s2. conc_reach c any_op conc_init s1 \<and> conc_reach c any_op conc_init s2 \<and>
    cs_pc s1 = (cs_pc s)(a := CApplying ta opsa, b := CApplying tb opsb) \<and> cs_pc s2 = cs_pc s1 \<and>
    ps_get_prop l p r (db_props (cs_db s1)) = vb \<and> ps_get_prop l p r (db_props (cs_db s2)) = va"
proof -
  let ?x = "commit_op_exec c ta (CSetProp l p r va)" and ?y = "commit_op_exec c tb (CSetProp l p r vb)"
  let ?a1 = "conc_goto a (CApplying ta opsa) (?x (cs_db s)) s"
  let ?b1 = "conc_goto b (CApplying tb opsb) (?y (cs_db s)) s"
  let ?s1 = "conc_goto b (CApplying tb opsb) (?y (cs_db ?a1)) ?a1"
  let ?s2 = "conc_goto a (CApplying ta opsa) (?x (cs_db ?b1)) ?b1"
  have "conc_reach c any_op conc_init ?s1"
    by (rule conc_apply_next [OF conc_apply_next [OF assms(1,2)]]) (use assms(3,4) in simp)
  moreover have "conc_reach c any_op conc_init ?s2"
    by (rule conc_apply_next [OF conc_apply_next [OF assms(1,3)]]) (use assms(2,4) in simp)
  moreover have "cs_pc ?s2 = cs_pc ?s1" using assms(4) by (simp add: fun_upd_twist)
  ultimately show ?thesis by (intro exI [of _ ?s1] exI [of _ ?s2]) (simp add: ps_get_put)
qed

theorem conc_cell_race_witness:
  "\<exists>s. conc_reach codecs_example any_op conc_init s \<and> cs_pc s 0 = CApplying 1 [CFlushNodes 0, CFlushEdges 0, CFlushProps 0] \<and>
    cs_pc s 1 = CApplying 2 [CFlushNodes 0, CFlushEdges 0, CFlushProps 0] \<and>
    ps_get_prop 1 [0x61] 0 (db_props (cs_db s)) = Some (VInt 1)"
proof -
  let ?ra = "tl (commit_ops 0 race_first)" and ?rb = "tl (commit_ops 0 race_second)"
  have a: "cs_pc race_state 0 = CApplying 1 (CInsertNode 0 [7] 0 # ?ra)"
    and b: "cs_pc race_state 1 = CApplying 2 (CDeleteNode 0 # ?rb)" by (simp_all add: race_state_def race_ops)
  let ?s = "conc_goto 0 (CApplying 1 ?ra) (commit_op_exec codecs_example 1 (CInsertNode 0 [7] 0) (cs_db race_state)) race_state"
  let ?t = "conc_goto 1 (CApplying 2 ?rb) (commit_op_exec codecs_example 2 (CDeleteNode 0) (cs_db ?s)) ?s"
  have reach: "conc_reach codecs_example any_op conc_init ?t"
    by (rule conc_apply_next [OF conc_apply_next [OF race_reachable a]]) (use b in simp)
  have pcs: "cs_pc ?t 0 = CApplying 1 (CSetProp 1 [0x61] 0 (Some (VInt 1)) # [CFlushNodes 0, CFlushEdges 0, CFlushProps 0])"
    "cs_pc ?t 1 = CApplying 2 (CSetProp 1 [0x61] 0 (Some (VInt 2)) # [CFlushNodes 0, CFlushEdges 0, CFlushProps 0])"
    by (simp_all add: race_ops)
  obtain t where t: "conc_reach codecs_example any_op conc_init t"
    "cs_pc t 0 = CApplying 1 (CSetProp 1 [0x61] 0 (Some (VInt 1)) # [CFlushNodes 0, CFlushEdges 0, CFlushProps 0])"
    "cs_pc t 1 = CApplying 2 (CSetProp 1 [0x61] 0 (Some (VInt 2)) # [CFlushNodes 0, CFlushEdges 0, CFlushProps 0])"
    using reach pcs by (rule that)
  have "(0 :: nat) \<noteq> 1" by simp
  from conc_cell_race [OF t this] obtain s2 where s2: "conc_reach codecs_example any_op conc_init s2"
    "cs_pc s2 = (cs_pc t)(0 := CApplying 1 [CFlushNodes 0, CFlushEdges 0, CFlushProps 0],
      1 := CApplying 2 [CFlushNodes 0, CFlushEdges 0, CFlushProps 0])"
    "ps_get_prop 1 [0x61] 0 (db_props (cs_db s2)) = Some (VInt 1)" by metis
  then show ?thesis by (intro exI [of _ s2]) simp
qed

text \<open>
  C35. Deleting a node twice brings it back: a commit that deletes a node that an earlier transaction had
  deleted moves the deletion to its own ticket, so a reader whose snapshot is in between, who did not
  see the node before, sees it afterwards.
\<close>

theorem tx_double_deletion_revives:
  assumes "t_is_write t" and "\<not> t_committed t" and "tm_committed_tx_id (db_tx_manager db) = t_tx_id t - 1"
    and "t_node_inserts t = []" and "t_node_updates t = []" and "i \<in> set (t_node_deletes t)"
    and "ns_nodes (db_nodes db) i = Some n" and "n_created_tx n \<le> n_deleted_tx n"
    and "n_deleted_tx n \<le> t_snapshot rd" and "t_snapshot rd < t_tx_id t"
    and "tr_commit c now t db = (r, t', db')"
  shows "tr_get_node i rd db = None \<and> tr_get_node i rd db' = Some (n\<lparr>n_deleted_tx := t_tx_id t\<rparr>)"
proof -
  have "db_nodes db' = ns_flush now (tr_apply_nodes c t (db_nodes db))"
    using tr_commit_Ok [OF assms(1-3), of c now] assms(11) by auto
  then have "ns_nodes (db_nodes db') i = Some (node_mark_deleted (t_tx_id t) n)"
    using assms(4-7) by (simp add: tr_apply_nodes_map tr_node_after_cases)
  then show ?thesis
    using assms(7-10) by (auto simp: tr_get_node_def ns_get_def node_is_alive_def node_mark_deleted_def)
qed

theorem tx_double_deletion_revives_witness:
  "\<exists>db'. tr_commit codecs_example 0 (tr_delete_node 0 (transaction_new 5 1 True))
      (db_example\<lparr>db_tx_manager := \<lparr>tm_next_tx_id = 6, tm_committed_tx_id = 4\<rparr>,
        db_nodes := snd (ns_soft_delete node_example_codec 0 3 (db_nodes db_example))\<rparr>) =
      (Commit_Ok, (tr_delete_node 0 (transaction_new 5 1 True))\<lparr>t_committed := True\<rparr>, db') \<and>
    tr_get_node 0 (transaction_new 0 4 False) db' \<noteq> None"
proof -
  let ?t = "tr_delete_node 0 (transaction_new 5 1 True)"
  let ?db = "db_example\<lparr>db_tx_manager := \<lparr>tm_next_tx_id = 6, tm_committed_tx_id = 4\<rparr>,
    db_nodes := snd (ns_soft_delete node_example_codec 0 3 (db_nodes db_example))\<rparr>"
  have t: "t_is_write ?t" "\<not> t_committed ?t" "tm_committed_tx_id (db_tx_manager ?db) = t_tx_id ?t - 1"
    "t_node_inserts ?t = []" "t_node_updates ?t = []" "0 \<in> set (t_node_deletes ?t)"
    by (simp_all add: tr_delete_node_def transaction_new_def)
  have n: "ns_nodes (db_nodes ?db) 0 = Some (node_mark_deleted 3 (node_new 0 [7] 0 1))"
    by (simp add: ns_modify_ops ns_modify_nodes)
  obtain db' where c: "tr_commit codecs_example 0 ?t ?db = (Commit_Ok, ?t\<lparr>t_committed := True\<rparr>, db')"
    using tr_commit_Ok [OF t(1-3)] by blast
  from tx_double_deletion_revives [OF t n _ _ _ c, of "transaction_new 0 4 False"] c show ?thesis
    by (simp add: node_mark_deleted_def node_new_def transaction_new_def tr_delete_node_def)
qed

end
