(* ===== verification/Crash_Commit.thy ===== *)
theory Crash_Commit
  imports Concurrent_Commit
begin

text \<open>
  Power loss in the middle of a commit (\<^verbatim>\<open>src/src/transaction/mod.rs\<close> over the three WAL threads of
  \<^verbatim>\<open>src/src/storage/wal_thread.rs\<close>): the stores are flushed one after the other, each to its own log, and no
  log has a record of the commit.
\<close>

section \<open>Lemmas: writes reach only the channel\<close>

lemma wal_send_insert_file [simp]: "ws_file (wal_send_insert i d w) = ws_file w"
  by (simp add: wal_send_insert_def wal_send_def)

definition same_file :: "wal_sys option \<Rightarrow> wal_sys option \<Rightarrow> bool" where
  "same_file w w' \<longleftrightarrow> map_option ws_file w = map_option ws_file w'"

lemma fold_same_file: "(\<And>x s. x \<in> set xs \<Longrightarrow> same_file (g (f x s)) (g s)) \<Longrightarrow> same_file (g (fold f xs s)) (g s)"
  by (induction xs arbitrary: s) (auto simp: same_file_def)

lemma tr_apply_edges_file: "same_file (es_wal (tr_apply_edges c t es)) (es_wal es)"
proof -
  have 1: "same_file (es_wal (es_insert_with_id d j src dst y row tx s)) (es_wal s)" for d j src dst y row tx s
    by (auto simp: same_file_def es_insert_with_id_def es_wal_insert_def Let_def split: option.split)
  have 2: "same_file (es_wal (snd (es_soft_delete d j tx s))) (es_wal s)" for d j tx s
    by (auto simp: same_file_def es_soft_delete_def Let_def split: option.split)
  show ?thesis
    unfolding tr_apply_edges_def Let_def same_file_def
    by (rule trans) (rule fold_same_file [unfolded same_file_def, where g = es_wal]; use 1 2 in \<open>auto simp: same_file_def\<close>)+
qed

lemma tr_apply_props_file: "same_file (ps_wal (tr_apply_props c t ps)) (ps_wal ps)"
  unfolding tr_apply_props_def
  by (rule fold_same_file [where g = ps_wal])
    (auto simp: same_file_def ps_insert_prop_def ps_wal_send_cell_def split: option.split)

section \<open>Example\<close>

text \<open>A first transaction that creates one node and an edge from it to itself.\<close>

definition tr_crash :: transaction where
  "tr_crash = (transaction_new 1 0 True)\<lparr>t_node_inserts := [(0, [], 0)], t_edge_inserts := [(0, 0, 0, 1, 0)]\<rparr>"

lemma tr_crash_reopen_edges:
  "case es_open edge_example_codec False 0 (file_of (durable (ws_file (the (es_wal edge_example_opened))))) consistency_immediate of
     Ok re \<Rightarrow> es_edges re 0 = None | _ \<Rightarrow> False"
  by code_simp

lemma tr_crash_reopen_props:
  "\<exists>w rp. ps_wal prop_example = Some w \<and> length (ws_chan w) < ws_cap w \<and>
    ps_open val_example_codec False 0 (file_of (durable (ws_file w))) consistency_immediate = Ok rp"
proof -
  obtain w where w: "wal_spawn False 0 (file_of []) (durability consistency_immediate) (wal_channel_capacity consistency_immediate) = Ok w"
    "ps_wal prop_example = Some w" using ps_open_Ok [OF prop_example_open] by blast
  have short: "length (wal_base []) = 4" by code_simp
  have "durable (ws_file w) = wal_base []" using wal_spawn_OkD(3,4) [OF w(1)] by (simp add: durable_def)
  moreover have "\<exists>w'. wal_spawn False 0 (file_of (wal_base [])) (durability consistency_immediate)
      (wal_channel_capacity consistency_immediate) = Ok w'" by (rule wal_spawn_ok) code_simp
  ultimately have "\<exists>rp. ps_open val_example_codec False 0 (file_of (durable (ws_file w))) consistency_immediate = Ok rp"
    using ps_open_total [of False 0 "file_of (wal_base [])" consistency_immediate _ val_example_codec] short by (auto simp: file_of_def)
  moreover have "case wal_spawn False 0 (file_of []) (durability consistency_immediate) (wal_channel_capacity consistency_immediate) of
      Ok w \<Rightarrow> length (ws_chan w) < ws_cap w | _ \<Rightarrow> False" by code_simp
  with w(1) have "length (ws_chan w) < ws_cap w" by simp
  ultimately show ?thesis using w(2) by blast
qed

lemma tr_crash_writes_1: "case ns_wal (tr_apply_nodes codecs_example tr_crash (db_nodes db_example_opened)) of
     Some wn \<Rightarrow> list_all wal_fits (wal_recs ([] @ ws_sent wn)) \<and> no_max_id (wal_recs ([] @ ws_sent wn)) \<and> length (ws_chan wn) < ws_cap wn
   | None \<Rightarrow> False"
  by code_simp

lemma tr_crash_writes_2: "case es_wal (tr_apply_edges codecs_example tr_crash (db_edges db_example_opened)) of
     Some we \<Rightarrow> length (ws_chan we) < ws_cap we | None \<Rightarrow> False"
  by code_simp

lemmas tr_crash_writes = tr_crash_writes_1 tr_crash_writes_2

section \<open>Properties\<close>

text \<open>
  C34. Commit is not atomic across the stores when the machine stops: after a commit has made all its writes and
  flushed the nodes, with the WAL threads of the other two stores not yet at work, opening the durable
  files gives every node of the transaction, and the edges and properties that opening would have given
  before the commit.
\<close>

theorem tx_crash_half_applied:
  assumes codec: "codec_ok (c_node c)"
    and opened: "ns_open (c_node c) checks now (file_of bn) k = Ok ns0" "db_nodes db = fold (ns_exec (c_node c)) opsn ns0"
    and base: "wal_base bn = fold encode_cmd csn WAL_MAGIC"
    and level: "vec_capacity_ok (batch_bytes (durability k))" "durability k \<noteq> Async"
    and others: "es_wal (db_edges db) = Some we" "ps_wal (db_props db) = Some wp"
      "es_open (c_edge c) checks now (file_of (durable (ws_file we))) k = Ok re"
      "ps_open (c_val c) checks now (file_of (durable (ws_file wp))) k = Ok rp"
    and wals: "ns_wal (tr_apply_nodes c t (db_nodes db)) = Some wn" "length (ws_chan wn) < ws_cap wn"
      "es_wal (tr_apply_edges c t (db_edges db)) = Some we'" "length (ws_chan we') < ws_cap we'"
      "ps_wal (tr_apply_props c t (db_props db)) = Some wp'" "length (ws_chan wp') < ws_cap wp'"
    and fits: "\<forall>r\<in>set (wal_recs (csn @ ws_sent wn)). wal_fits r" "no_max_id (wal_recs (csn @ ws_sent wn))"
  shows "\<exists>made left wn1 we1 wp1 rn. commit_ops n t = made @ left \<and>
    (let db1 = fold (commit_op_exec c (t_tx_id t)) made db in
      ns_nodes (db_nodes db1) = ns_nodes (tr_apply_nodes c t (db_nodes db)) \<and>
      es_edges (db_edges db1) = es_edges (tr_apply_edges c t (db_edges db)) \<and>
      ps_columns (db_props db1) = ps_columns (tr_apply_props c t (db_props db)) \<and>
      ns_wal (db_nodes db1) = Some wn1 \<and> es_wal (db_edges db1) = Some we1 \<and> ps_wal (db_props db1) = Some wp1) \<and>
    db_open c checks now (file_of (durable (ws_file wn1))) (file_of (durable (ws_file we1))) (file_of (durable (ws_file wp1))) k =
      Ok \<lparr>db_tx_manager = tm_new, db_nodes = rn, db_edges = re, db_props = rp\<rparr> \<and>
    ns_nodes rn = ns_nodes (tr_apply_nodes c t (db_nodes db))"
proof -
  let ?made = "commit_writes t @ [CFlushNodes n]" and ?left = "[CFlushEdges n, CFlushProps n]"
  let ?ns = "tr_apply_nodes c t (db_nodes db)"
  have db1: "fold (commit_op_exec c (t_tx_id t)) ?made db = db\<lparr>db_nodes := ns_flush n ?ns,
      db_edges := tr_apply_edges c t (db_edges db), db_props := tr_apply_props c t (db_props db)\<rparr>"
    by (simp add: commit_writes_exec)
  have run: "?ns = fold (ns_exec (c_node c)) (opsn @ tr_node_ops t) ns0"
    by (simp add: opened(2) tr_apply_runs)
  from nsr.recover_after_flush [OF opened(1) base codec level wals(1) [unfolded run] fits, of n] obtain rn where
    rn: "ns_open (c_node c) checks now (file_of (durable (ws_file (wal_flush n wn)))) k = Ok rn" "ns_nodes rn = ns_nodes ?ns"
    by (auto simp: run)
  have flushed: "ns_wal (ns_flush n ?ns) = Some (wal_flush n wn)" "ns_nodes (ns_flush n ?ns) = ns_nodes ?ns"
    by (simp_all add: ns_flush_def wals(1))
  have "ws_file we' = ws_file we" "ws_file wp' = ws_file wp"
    using tr_apply_edges_file [of c t "db_edges db"] tr_apply_props_file [of c t "db_props db"]
    by (simp_all add: same_file_def others wals)
  with rn(1) others have "db_open c checks now (file_of (durable (ws_file (wal_flush n wn)))) (file_of (durable (ws_file we')))
      (file_of (durable (ws_file wp'))) k = Ok \<lparr>db_tx_manager = tm_new, db_nodes = rn, db_edges = re, db_props = rp\<rparr>"
    by (simp add: db_open_def)
  moreover have "commit_ops n t = ?made @ ?left" by (simp add: commit_ops_def)
  moreover note rn(2) flushed wals(3,5)
  ultimately show ?thesis
    by - (rule exI [of _ ?made], rule exI [of _ ?left], rule exI [of _ "wal_flush n wn"], rule exI [of _ we'],
      rule exI [of _ wp'], rule exI [of _ rn], unfold Let_def db1, simp)
qed

theorem tx_crash_half_applied_witness:
  "\<exists>made left wn1 we1 wp1 db''. commit_ops 0 tr_crash = made @ left \<and>
    ns_wal (db_nodes (fold (commit_op_exec codecs_example 1) made db_example_opened)) = Some wn1 \<and>
    es_wal (db_edges (fold (commit_op_exec codecs_example 1) made db_example_opened)) = Some we1 \<and>
    ps_wal (db_props (fold (commit_op_exec codecs_example 1) made db_example_opened)) = Some wp1 \<and>
    db_open codecs_example False 0 (file_of (durable (ws_file wn1))) (file_of (durable (ws_file we1)))
      (file_of (durable (ws_file wp1))) consistency_immediate = Ok db'' \<and>
    ns_nodes (db_nodes db'') 0 \<noteq> None \<and> es_edges (db_edges db'') 0 = None \<and>
    es_edges (db_edges (fold (commit_op_exec codecs_example 1) made db_example_opened)) 0 \<noteq> None"
proof -
  let ?c = codecs_example and ?db = db_example_opened and ?t = tr_crash
  have tx: "t_tx_id ?t = 1" by (simp add: tr_crash_def transaction_new_def)
  have codec: "codec_ok (c_node ?c)" by (simp add: codecs_example_def node_example_codec_ok)
  have opened: "ns_open (c_node ?c) False 0 (file_of []) consistency_immediate = Ok node_example"
    "db_nodes ?db = fold (ns_exec (c_node ?c)) [] node_example"
    by (simp_all add: codecs_example_def node_example_open db_example_opened_def)
  obtain wn where wn: "ns_wal (tr_apply_nodes ?c ?t (db_nodes ?db)) = Some wn" "length (ws_chan wn) < ws_cap wn"
    "\<forall>r\<in>set (wal_recs ([] @ ws_sent wn)). wal_fits r" "no_max_id (wal_recs ([] @ ws_sent wn))"
    using tr_crash_writes(1) by (auto split: option.splits simp: list_all_iff)
  obtain we' where we': "es_wal (tr_apply_edges ?c ?t (db_edges ?db)) = Some we'" "length (ws_chan we') < ws_cap we'"
    using tr_crash_writes(2) by (auto split: option.splits)
  obtain we re where we: "es_wal (db_edges ?db) = Some we" "es_edges re 0 = None"
    "es_open (c_edge ?c) False 0 (file_of (durable (ws_file we))) consistency_immediate = Ok re"
  proof -
    obtain we where "es_wal edge_example_opened = Some we" using es_open_Ok [OF edge_example_run(1)] by blast
    with tr_crash_reopen_edges that [of we] show ?thesis
      by (auto simp: db_example_opened_def codecs_example_def split: outcome.splits)
  qed
  obtain wp rp where wp: "ps_wal (db_props ?db) = Some wp"
    "ps_open (c_val ?c) False 0 (file_of (durable (ws_file wp))) consistency_immediate = Ok rp"
    "ps_wal (tr_apply_props ?c ?t (db_props ?db)) = Some wp" "length (ws_chan wp) < ws_cap wp"
  proof -
    obtain wp rp where w: "ps_wal prop_example = Some wp"
      "ps_open val_example_codec False 0 (file_of (durable (ws_file wp))) consistency_immediate = Ok rp"
      "length (ws_chan wp) < ws_cap wp"
      using tr_crash_reopen_props by blast
    with that [of wp rp] show ?thesis
      by (simp add: db_example_opened_def codecs_example_def tr_apply_props_def tr_crash_def transaction_new_def)
  qed
  from tx_crash_half_applied [OF codec opened node_example_run(6) node_example_run(4,5) we(1) wp(1) we(3) wp(2)
      wn(1,2) we' wp(3,4) wn(3,4), of 0]
  obtain made left wn1 we1 wp1 rn where r: "commit_ops 0 ?t = made @ left"
    "let db1 = fold (commit_op_exec ?c (t_tx_id ?t)) made ?db in
      ns_nodes (db_nodes db1) = ns_nodes (tr_apply_nodes ?c ?t (db_nodes ?db)) \<and>
      es_edges (db_edges db1) = es_edges (tr_apply_edges ?c ?t (db_edges ?db)) \<and>
      ps_columns (db_props db1) = ps_columns (tr_apply_props ?c ?t (db_props ?db)) \<and>
      ns_wal (db_nodes db1) = Some wn1 \<and> es_wal (db_edges db1) = Some we1 \<and> ps_wal (db_props db1) = Some wp1"
    "db_open ?c False 0 (file_of (durable (ws_file wn1))) (file_of (durable (ws_file we1)))
      (file_of (durable (ws_file wp1))) consistency_immediate = Ok \<lparr>db_tx_manager = tm_new, db_nodes = rn, db_edges = re, db_props = rp\<rparr>"
    "ns_nodes rn = ns_nodes (tr_apply_nodes ?c ?t (db_nodes ?db))" by blast
  have "ns_nodes (tr_apply_nodes ?c ?t (db_nodes ?db)) 0 \<noteq> None" "es_edges (tr_apply_edges ?c ?t (db_edges ?db)) 0 \<noteq> None"
    by (simp_all add: tr_apply_nodes_def tr_apply_edges_def tr_crash_def transaction_new_def es_insert_with_id_def Let_def)
  with r we(2) show ?thesis unfolding Let_def tx
    by - (rule exI [of _ made], rule exI [of _ left], rule exI [of _ wn1], rule exI [of _ we1], rule exI [of _ wp1],
      rule exI [of _ "\<lparr>db_tx_manager = tm_new, db_nodes = rn, db_edges = re, db_props = rp\<rparr>"], simp)
qed

end
