(* ===== verification/Wal_Records.thy ===== *)
theory Wal_Records
  imports Prop_Store Store_Log
begin

text \<open>
  \<^verbatim>\<open>src/src/wal/mod.rs\<close>: the log of transaction records with group commit and its reader. Its
  format, a length and the serialised record, is the third instance of \<open>record_log\<close>. The reader
  collects all records before it returns, so an error anywhere loses those read before it.
\<close>

section \<open>Records\<close>

type_synonym prop_map = "rstring \<rightharpoonup> val"

datatype wal_record =
    Begin TxId
  | Commit TxId
  | Rollback TxId
  | NodeCreate TxId NodeId "rstring list" prop_map
  | NodeUpdate TxId NodeId prop_map
  | NodeDelete TxId NodeId
  | EdgeCreate TxId EdgeId NodeId NodeId rstring prop_map
  | EdgeDelete TxId EdgeId
  | Checkpoint u64

text \<open>
  The serialiser. A hash map is written in its iteration order, which equal maps need not share:
  \<open>order\<close> stands for what decides it.
\<close>

record wr_codec =
  wr_ser :: "nat \<Rightarrow> wal_record \<Rightarrow> bytes option"
  wr_de :: "bytes \<Rightarrow> wal_record option"

section \<open>The writer\<close>

record wal_writer =
  ww_writer :: bufw
  ww_buffer :: bytes
  ww_max_buffer_size :: nat
  ww_last_fsync :: nat
  ww_fsync_interval :: nat

text \<open>Times are nanoseconds; \<open>BufWriter::new\<close> has room for 8192 bytes.\<close>

definition walw_open :: "nat \<Rightarrow> ofile \<Rightarrow> wal_writer" where
  "walw_open now f =
     \<lparr>ww_writer = bw_new 8192 f, ww_buffer = [], ww_max_buffer_size = 65536,
      ww_last_fsync = now, ww_fsync_interval = 100000\<rparr>"

text \<open>An error of the device leaves the buffer as it is; the writer keeps what it has taken.\<close>

definition walw_flush :: "nat \<Rightarrow> wal_writer \<Rightarrow> unit outcome \<times> wal_writer" where
  "walw_flush now s =
     (let (ok1, w1) = bw_write_all (ww_buffer s) (ww_writer s)
      in if \<not> ok1 then (Err StorageFull, s\<lparr>ww_writer := w1\<rparr>)
         else let (ok2, w2) = bw_flush w1
              in if \<not> ok2 then (Err StorageFull, s\<lparr>ww_writer := w2\<rparr>)
                 else let (ok3, w3) = bw_sync_all w2
                      in if \<not> ok3 then (Err StorageFull, s\<lparr>ww_writer := w3\<rparr>)
                         else (Ok (), s\<lparr>ww_writer := w3, ww_buffer := [], ww_last_fsync := now\<rparr>))"

definition walw_write ::
  "wr_codec \<Rightarrow> nat \<Rightarrow> nat \<Rightarrow> wal_record \<Rightarrow> wal_writer \<Rightarrow> unit outcome \<times> wal_writer" where
  "walw_write c order now record s =
     (case wr_ser c order record of
       None \<Rightarrow> (Panicked, s)
     | Some data \<Rightarrow>
         let s1 = s\<lparr>ww_buffer := ww_buffer s @ u32_to_le_bytes (of_nat (length data)) @ data\<rparr>
         in if length (ww_buffer s1) \<ge> ww_max_buffer_size s1 \<or>
               now - ww_last_fsync s1 \<ge> ww_fsync_interval s1
            then walw_flush now s1
            else (Ok (), s1))"

section \<open>The reader\<close>

text \<open>The reader's position in the file, as the bytes behind it.\<close>

record wal_reader =
  wr_rest :: bytes

definition walr_open :: "ofile option \<Rightarrow> wal_reader outcome" where
  "walr_open f = (case f of None \<Rightarrow> Err NotFound | Some f \<Rightarrow> Ok \<lparr>wr_rest = f_data f\<rparr>)"

text \<open>The length and the serialised bytes of one record.\<close>

definition walr_read :: "bytes \<Rightarrow> bytes next_result" where
  "walr_read bs =
     (case read_exact 4 bs of
       None \<Rightarrow> Eof
     | Some (len_buf, bs1) \<Rightarrow>
         let len = unat (u32_from_le_bytes len_buf) in
         (case read_exact len bs1 of
           None \<Rightarrow> Bad UnexpectedEof
         | Some (data, rest) \<Rightarrow> Got data rest))"

lemma walr_read_shrinks: "walr_read bs = Got d rest \<Longrightarrow> length rest < length bs"
  by (auto simp: walr_read_def read_exact_def Let_def split: if_splits option.splits)

text \<open>The records collected, the error that ends the loop, and what is left of the file then.\<close>

function walr_loop :: "wr_codec \<Rightarrow> bytes \<Rightarrow> wal_record list \<times> io_error option \<times> bytes" where
  "walr_loop c bs =
     (case walr_read bs of
       Eof \<Rightarrow> ([], None, [])
     | Bad e \<Rightarrow> ([], Some e, [])
     | Got data rest \<Rightarrow>
         (case wr_de c data of
           None \<Rightarrow> ([], Some (InvalidData ''bincode''), rest)
         | Some record \<Rightarrow>
             (record # fst (walr_loop c rest), snd (walr_loop c rest))))"
  by pat_completeness auto
termination
  by (relation "measure (length \<circ> snd)") (auto simp: walr_read_shrinks)

declare walr_loop.simps [simp del]

definition walr_replay :: "wr_codec \<Rightarrow> wal_reader \<Rightarrow> wal_record list outcome \<times> wal_reader" where
  "walr_replay c r =
     (let (records, err, rest) = walr_loop c (wr_rest r)
      in (case err of None \<Rightarrow> Ok records | Some e \<Rightarrow> Err e, r\<lparr>wr_rest := rest\<rparr>))"

section \<open>Lemmas: the format\<close>

definition wr_frame :: "bytes \<Rightarrow> bytes" where
  "wr_frame d = u32_to_le_bytes (of_nat (length d)) @ d"

definition wr_fits :: "bytes \<Rightarrow> bool" where
  "wr_fits d \<longleftrightarrow> length d < 2 ^ 32"

text \<open>The blocks of a file, whatever is in them.\<close>

function walr_blocks :: "bytes \<Rightarrow> bytes replay_result" where
  "walr_blocks bs =
     (case walr_read bs of
       Eof \<Rightarrow> ([], None)
     | Bad e \<Rightarrow> ([], Some e)
     | Got d rest \<Rightarrow> (d # fst (walr_blocks rest), snd (walr_blocks rest)))"
  by pat_completeness auto
termination
  by (relation "measure length") (auto simp: walr_read_shrinks)

declare walr_blocks.simps [simp del]

lemma walr_read_frame: "wr_fits d \<Longrightarrow> walr_read (wr_frame d @ rest) = Got d rest"
  using le32.read_enc [of "of_nat (length d)" "d @ rest"]
  by (simp add: walr_read_def wr_frame_def wr_fits_def unat_of_nat_u32)

lemma walr_read_torn:
  assumes "wr_fits d" and "strict_prefix q (wr_frame d)" and "4 \<le> length q"
  shows "walr_read q = Bad UnexpectedEof"
proof -
  obtain b where q: "q = u32_to_le_bytes (of_nat (length d)) @ b" and b: "strict_prefix b d"
    using assms(2,3) unfolding wr_frame_def by (auto elim!: strict_prefix_appendE)
  then show ?thesis
    using prefix_length_less [OF b] assms(1) by (simp add: walr_read_def wr_fits_def unat_of_nat_u32)
qed

interpretation wr: record_log wr_frame walr_read walr_blocks "\<lambda>_. True" wr_fits
proof
  show "walr_blocks bs =
    (case walr_read bs of Eof \<Rightarrow> ([], None) | Bad e \<Rightarrow> ([], Some e)
      | Got r rest \<Rightarrow> (if True then r # fst (walr_blocks rest) else fst (walr_blocks rest), snd (walr_blocks rest)))" for bs
    by (subst walr_blocks.simps) (simp split: next_result.split)
  show "length p < 4 \<Longrightarrow> walr_read p = Eof" for p
    by (simp add: walr_read_def)
qed (simp_all add: walr_read_frame walr_read_torn)

text \<open>The reader reads the blocks; when all of them can be deserialised it ends with the file.\<close>

lemma walr_loop_blocks:
  assumes "list_all2 (\<lambda>d r. wr_de c d = Some r) (fst (walr_blocks bs)) rs"
  shows "walr_loop c bs = (rs, snd (walr_blocks bs), [])"
  using assms
proof (induction bs arbitrary: rs rule: walr_blocks.induct)
  case (1 bs)
  show ?case
  proof (cases "walr_read bs")
    case (Got d rest)
    with "1.prems" obtain r rs' where rs: "rs = r # rs'" "wr_de c d = Some r"
      and "list_all2 (\<lambda>d r. wr_de c d = Some r) (fst (walr_blocks rest)) rs'"
      by (auto simp: walr_blocks.simps [of bs] list_all2_Cons1)
    from "1.IH" [OF Got this(3)] Got rs show ?thesis
      by (simp add: walr_loop.simps [of c bs] walr_blocks.simps [of bs])
  qed (use "1.prems" in \<open>simp_all add: walr_loop.simps [of c bs] walr_blocks.simps [of bs]\<close>)
qed

section \<open>Lemmas: the writer\<close>

text \<open>A record that is serialised to \<open>d\<close>, read back from it, and not too long for its length field.\<close>

definition wr_block :: "wr_codec \<Rightarrow> nat \<Rightarrow> wal_record \<Rightarrow> bytes \<Rightarrow> bool" where
  "wr_block c order r d \<longleftrightarrow> wr_ser c order r = Some d \<and> wr_de c d = Some r \<and> wr_fits d"

definition wr_writable :: "wr_codec \<Rightarrow> nat \<Rightarrow> wal_record \<Rightarrow> bool" where
  "wr_writable c order r \<longleftrightarrow>
     (case wr_ser c order r of None \<Rightarrow> False | Some d \<Rightarrow> wr_de c d = Some r \<and> wr_fits d)"

lemma wr_writableE: "wr_writable c order r \<Longrightarrow> (\<And>d. wr_block c order r d \<Longrightarrow> P) \<Longrightarrow> P"
  by (auto simp: wr_writable_def wr_block_def split: option.splits)

text \<open>The calls on one writer, each at its own time, up to the first that does not succeed.\<close>

datatype walw_op = WWrite nat nat wal_record | WFlush nat

primrec walw_exec :: "wr_codec \<Rightarrow> walw_op \<Rightarrow> wal_writer \<Rightarrow> unit outcome \<times> wal_writer" where
  "walw_exec c (WWrite order now r) s = walw_write c order now r s"
| "walw_exec c (WFlush now) s = walw_flush now s"

primrec walw_run :: "wr_codec \<Rightarrow> walw_op list \<Rightarrow> wal_writer \<Rightarrow> unit outcome \<times> wal_writer" where
  "walw_run c [] s = (Ok (), s)"
| "walw_run c (x # xs) s =
     (case walw_exec c x s of (Ok _, s1) \<Rightarrow> walw_run c xs s1 | (e, s1) \<Rightarrow> (e, s1))"

fun walw_written :: "walw_op list \<Rightarrow> (nat \<times> wal_record) list" where
  "walw_written [] = []"
| "walw_written (WWrite order now r # xs) = (order, r) # walw_written xs"
| "walw_written (WFlush now # xs) = walw_written xs"

definition walw_holds :: "bytes list \<Rightarrow> bytes list \<Rightarrow> wal_writer \<Rightarrow> bool" where
  "walw_holds written pending s \<longleftrightarrow>
     healthy (bw_file (ww_writer s)) \<and> bw_buf (ww_writer s) = [] \<and>
     f_data (bw_file (ww_writer s)) = wr.frames written \<and> ww_buffer s = wr.frames pending"

lemma walw_flush_holds:
  assumes "walw_holds written pending s"
  shows "\<exists>s'. walw_flush now s = (Ok (), s') \<and> walw_holds (written @ pending) [] s' \<and>
    durable (bw_file (ww_writer s')) = f_data (bw_file (ww_writer s'))"
proof -
  obtain ok w where w: "bw_write_all (ww_buffer s) (ww_writer s) = (ok, w)" by fastforce
  have h: "healthy (bw_file (ww_writer s))" "bw_buf (ww_writer s) = []"
    using assms by (simp_all add: walw_holds_def)
  note wr = bw_write_all_healthy [OF h(1) _ w]
  have "ok" "healthy (bw_file w)" "f_data (bw_file w) @ bw_buf w = wr.frames (written @ pending)"
    using wr(1,2,5) assms by (simp_all add: walw_holds_def)
  then show ?thesis
    using w by (simp add: walw_flush_def bw_flush_def bw_flush_buf_healthy bw_sync_all_def file_sync_all_def
        healthy_def walw_holds_def durable_def)
qed

lemma walw_write_holds:
  assumes "walw_holds written pending s" and "wr_block c order r d"
  shows "\<exists>s' written' pending'. walw_write c order now r s = (Ok (), s') \<and> walw_holds written' pending' s' \<and>
    written' @ pending' = written @ pending @ [d]"
proof -
  let ?s = "s\<lparr>ww_buffer := ww_buffer s @ wr_frame d\<rparr>"
  have h: "walw_holds written (pending @ [d]) ?s" using assms(1) by (simp add: walw_holds_def)
  from walw_flush_holds [OF this, of now] obtain s' where
    "walw_flush now ?s = (Ok (), s')" "walw_holds (written @ pending @ [d]) [] s'" by auto
  moreover have "walw_write c order now r s = walw_flush now ?s \<or> walw_write c order now r s = (Ok (), ?s)"
    using assms(2) by (auto simp: walw_write_def wr_block_def wr_frame_def Let_def)
  ultimately show ?thesis using h by (metis append_Nil2)
qed

lemma walw_run_holds:
  assumes "walw_holds written pending s" and "\<forall>(order, r)\<in>set (walw_written xs). wr_writable c order r"
  shows "\<exists>s' written' pending' ds. walw_run c xs s = (Ok (), s') \<and> walw_holds written' pending' s' \<and>
    written' @ pending' = written @ pending @ ds \<and>
    list_all2 (\<lambda>d x. wr_block c (fst x) (snd x) d) ds (walw_written xs)"
  using assms
proof (induction xs arbitrary: s written pending)
  case Nil
  then show ?case by fastforce
next
  case (Cons x xs)
  show ?case
  proof (cases x)
    case (WWrite order now r)
    with Cons.prems obtain d where d: "wr_block c order r d" by (auto elim: wr_writableE)
    obtain s1 w1 p1 where 1: "walw_write c order now r s = (Ok (), s1)" "walw_holds w1 p1 s1"
      "w1 @ p1 = written @ pending @ [d]"
      using walw_write_holds [OF Cons.prems(1) d] by blast
    with Cons.IH [OF 1(2)] Cons.prems(2) WWrite obtain s' w' p' ds where
      r: "walw_run c xs s1 = (Ok (), s')" "walw_holds w' p' s'" "w' @ p' = w1 @ p1 @ ds"
        "list_all2 (\<lambda>d x. wr_block c (fst x) (snd x) d) ds (walw_written xs)"
      by auto
    show ?thesis
      using 1 r d WWrite by (intro exI [of _ s'] exI [of _ w'] exI [of _ p'] exI [of _ "d # ds"]) simp
  next
    case (WFlush now)
    obtain s1 where 1: "walw_flush now s = (Ok (), s1)" "walw_holds (written @ pending) [] s1"
      using walw_flush_holds [OF Cons.prems(1)] by blast
    with Cons.IH [OF 1(2)] Cons.prems(2) WFlush show ?thesis by auto
  qed
qed

lemma walw_open_holds: "walw_holds [] [] (walw_open now (file_of []))"
  by (simp add: walw_holds_def walw_open_def bw_new_def)


lemma walr_replay_prefix:
  assumes "list_all2 (\<lambda>d r. wr_de c d = Some r) ds rs" and "\<forall>d\<in>set ds. wr_fits d"
    and "wr_fits d" and "strict_prefix q (wr_frame d)"
  shows "walr_replay c \<lparr>wr_rest = wr.frames ds @ q\<rparr> =
    (if length q < 4 then Ok rs else Err UnexpectedEof, \<lparr>wr_rest = []\<rparr>)"
  using walr_loop_blocks [of c "wr.frames ds @ q" rs] wr.replay_torn [OF assms(2-4)] assms(1)
  by (simp add: walr_replay_def)

lemma wr_blocks_recs:
  assumes "list_all2 (\<lambda>d x. wr_block c (fst x) (snd x) d) ds xs"
  shows "list_all2 (\<lambda>d r. wr_de c d = Some r) ds (map snd xs)" and "\<forall>d\<in>set ds. wr_fits d"
  using assms by (induction rule: list_all2_induct) (auto simp: wr_block_def)

section \<open>Example\<close>

text \<open>A serialiser for the records without text and properties.\<close>

definition wr_example_codec :: wr_codec where
  "wr_example_codec =
     \<lparr>wr_ser = \<lambda>_ r. (case r of
        Begin t \<Rightarrow> Some (nats_to_bytes [0, unat t])
      | Commit t \<Rightarrow> Some (nats_to_bytes [1, unat t])
      | Rollback t \<Rightarrow> Some (nats_to_bytes [2, unat t])
      | NodeDelete t i \<Rightarrow> Some (nats_to_bytes [3, unat t, unat i])
      | EdgeDelete t i \<Rightarrow> Some (nats_to_bytes [4, unat t, unat i])
      | Checkpoint n \<Rightarrow> Some (nats_to_bytes [5, unat n])
      | _ \<Rightarrow> None),
      wr_de = \<lambda>bs. (case nats_of_bytes 0 bs of
        [k, a] \<Rightarrow> Some (if k = 0 then Begin (of_nat a) else if k = 1 then Commit (of_nat a)
          else if k = 2 then Rollback (of_nat a) else Checkpoint (of_nat a))
      | [k, a, b] \<Rightarrow> Some (if k = 3 then NodeDelete (of_nat a) (of_nat b) else EdgeDelete (of_nat a) (of_nat b))
      | _ \<Rightarrow> None)\<rparr>"

definition walw_example_ops :: "walw_op list" where
  "walw_example_ops = [WWrite 0 5 (Begin 1), WWrite 0 200000 (NodeDelete 1 2), WWrite 0 200001 (Commit 1)]"

lemma walw_example_writable:
  "\<forall>(order, r)\<in>set (walw_written walw_example_ops). wr_writable wr_example_codec order r"
  by (simp add: walw_example_ops_def wr_writable_def wr_example_codec_def wr_fits_def)
     (simp add: nats_to_bytes_def)

section \<open>Properties\<close>

text \<open>
  C27. The transaction log returns what was written: on a device without errors every sequence of
  writes and flushes, at whatever times, succeeds, and after a last flush the durable file replays
  to exactly the records written, in order. The reader is then at the end of the file, so a second
  replay finds nothing.
\<close>

theorem wal_records_roundtrip:
  assumes "\<forall>(order, r)\<in>set (walw_written xs). wr_writable c order r"
  shows "\<exists>s s' rd. walw_run c xs (walw_open t0 (file_of [])) = (Ok (), s) \<and> walw_flush t1 s = (Ok (), s') \<and>
    walr_replay c \<lparr>wr_rest = durable (bw_file (ww_writer s'))\<rparr> = (Ok (map snd (walw_written xs)), rd) \<and>
    walr_replay c rd = (Ok [], rd)"
proof -
  from walw_run_holds [OF walw_open_holds [of t0] assms] obtain s w p ds
    where r: "walw_run c xs (walw_open t0 (file_of [])) = (Ok (), s)" "walw_holds w p s" "w @ p = ds"
      and ds: "list_all2 (\<lambda>d x. wr_block c (fst x) (snd x) d) ds (walw_written xs)"
    by auto
  from walw_flush_holds [OF r(2)] obtain s' where f: "walw_flush t1 s = (Ok (), s')" "walw_holds ds [] s'"
    "durable (bw_file (ww_writer s')) = f_data (bw_file (ww_writer s'))"
    using r(3) by metis
  have fits0: "wr_fits []" "strict_prefix [] (wr_frame [])"
    using le32.enc_not_Nil [of 0] by (auto simp: wr_fits_def wr_frame_def strict_prefix_def)
  show ?thesis
    using r(1) f walr_replay_prefix [OF wr_blocks_recs [OF ds] fits0] walr_replay_prefix [of c "[]" "[]", OF _ _ fits0]
    by (simp add: walw_holds_def)
qed

theorem wal_records_roundtrip_witness:
  "\<exists>s s' rd. walw_run wr_example_codec walw_example_ops (walw_open 0 (file_of [])) = (Ok (), s) \<and>
    walw_flush 9 s = (Ok (), s') \<and>
    walr_replay wr_example_codec \<lparr>wr_rest = durable (bw_file (ww_writer s'))\<rparr> =
      (Ok [Begin 1, NodeDelete 1 2, Commit 1], rd)"
  using wal_records_roundtrip [OF walw_example_writable, of 0 9] by (auto simp: walw_example_ops_def)

text \<open>
  A crash inside a record: cut the file anywhere after whole records. If fewer than four bytes
  of the next record are there, replay returns the whole records; otherwise it returns an error and
  none of them, although they are complete.
\<close>

theorem wal_records_torn:
  assumes "list_all2 (\<lambda>d x. wr_block c (fst x) (snd x) d) ds xs" and "wr_block c order r d"
    and "strict_prefix q (wr_frame d)"
  shows "fst (walr_replay c \<lparr>wr_rest = concat (map wr_frame ds) @ q\<rparr>) =
    (if length q < 4 then Ok (map snd xs) else Err UnexpectedEof)"
  using walr_replay_prefix [OF wr_blocks_recs [OF assms(1)] _ assms(3)] assms(2) by (simp add: wr_block_def)

theorem wal_records_torn_witness:
  "fst (walr_replay wr_example_codec \<lparr>wr_rest = wr_frame [0, 1, 0] @ [4, 0, 0]\<rparr>) = Ok [Begin 1] \<and>
   fst (walr_replay wr_example_codec \<lparr>wr_rest = wr_frame [0, 1, 0] @ [4, 0, 0, 0, 1]\<rparr>) = Err UnexpectedEof"
proof -
  have 1: "list_all2 (\<lambda>d x. wr_block wr_example_codec (fst x) (snd x) d) [[0, 1, 0]] [(0, Begin 1)]"
    and 2: "wr_block wr_example_codec 0 (Commit 1) [1, 0, 1, 0]"
    by (simp_all add: wr_block_def wr_example_codec_def wr_fits_def nats_to_bytes_def)
  have "wr_frame [1, 0, 1, 0] = [4, 0, 0, 0, 1, 0, 1, 0]" by code_simp
  then have 3: "strict_prefix [4, 0, 0] (wr_frame [1, 0, 1, 0])" "strict_prefix [4, 0, 0, 0, 1] (wr_frame [1, 0, 1, 0])"
    by (simp_all add: strict_prefix_def)
  show ?thesis
    using wal_records_torn [OF 1 2 3(1)] wal_records_torn [OF 1 2 3(2)] by simp
qed

end
