(* ===== verification/Snapshot.thy ===== *)
theory Snapshot
  imports Prop_Store Store_Log
begin

text \<open>
  \<^verbatim>\<open>src/src/snapshot/mod.rs\<close>: snapshot files, the manifest that names the latest one, and the
  manager that takes snapshots and says what to recover from. The data directory is a map from
  file names to files; \<open>b\<close> is the serialiser of snapshots (bincode), \<open>j\<close> that of manifests (JSON).
\<close>

section \<open>The data directory\<close>

record dir =
  d_exists :: bool
  d_files :: "string \<rightharpoonup> ofile"
  d_space :: "nat option"
  d_sync_ok :: bool

text \<open>\<open>File::create\<close> truncates a file that is there; it fails when the directory is missing.\<close>

definition file_create :: "string \<Rightarrow> dir \<Rightarrow> ofile outcome" where
  "file_create name d =
     (if d_exists d
      then Ok \<lparr>f_data = [], f_synced = 0, f_space = d_space d, f_sync_ok = d_sync_ok d\<rparr> else Err NotFound)"

definition dir_put :: "string \<Rightarrow> ofile \<Rightarrow> dir \<Rightarrow> dir" where
  "dir_put name f d = d\<lparr>d_files := (d_files d)(name \<mapsto> f), d_space := f_space f\<rparr>"

definition fs_read :: "string \<Rightarrow> dir \<Rightarrow> bytes outcome" where
  "fs_read name d =
     (if d_exists d then (case d_files d name of None \<Rightarrow> Err NotFound | Some f \<Rightarrow> Ok (f_data f)) else Err NotFound)"

definition fs_write :: "string \<Rightarrow> bytes \<Rightarrow> dir \<Rightarrow> unit outcome \<times> dir" where
  "fs_write name bs d =
     (case file_create name d of
       Ok f \<Rightarrow> (let (ok, f') = file_write_all bs f
                in (if ok then Ok () else Err StorageFull, dir_put name f' d))
     | Err e \<Rightarrow> (Err e, d)
     | Panicked \<Rightarrow> (Panicked, d))"

section \<open>The manifest\<close>

record manifest =
  latest_snapshot_id :: u64
  latest_snapshot_path :: string
  merged_wal_files :: "string list"

record json =
  j_ser :: "manifest \<Rightarrow> bytes option"
  j_de :: "bytes \<Rightarrow> io_error + manifest"

definition manifest_empty :: manifest where
  "manifest_empty = \<lparr>latest_snapshot_id = 0, latest_snapshot_path = [], merged_wal_files = []\<rparr>"

definition manifest_read :: "json \<Rightarrow> dir \<Rightarrow> manifest outcome" where
  "manifest_read j d =
     (case fs_read ''manifest.json'' d of
       Ok data \<Rightarrow> (case j_de j data of Inr m \<Rightarrow> Ok m | Inl e \<Rightarrow> Err e)
     | Err e \<Rightarrow> if e = NotFound then Ok manifest_empty else Err e
     | Panicked \<Rightarrow> Panicked)"

definition manifest_write :: "json \<Rightarrow> manifest \<Rightarrow> dir \<Rightarrow> unit outcome \<times> dir" where
  "manifest_write j m d =
     (case j_ser j m of
       None \<Rightarrow> (Err (InvalidData ''json''), d)
     | Some data \<Rightarrow> fs_write ''manifest.json'' data d)"

section \<open>Snapshot files\<close>

type_synonym prop_column = "LabelId \<times> rstring \<times> val option list"

record snapshot_data =
  sd_version :: u32
  sd_snapshot_id :: u64
  sd_nodes :: "node list"
  sd_edges :: "edge list"
  sd_prop_columns :: "prop_column list"
  sd_next_node_id :: u64
  sd_next_edge_id :: u64

text \<open>\<open>format!("snapshot-{:04}.bin", id)\<close>.\<close>

definition snapshot_file :: "u64 \<Rightarrow> string" where
  "snapshot_file i =
     (let n = decimal (unat i) in ''snapshot-'' @ replicate (4 - length n) CHR ''0'' @ n @ ''.bin'')"

definition write_snapshot ::
  "snapshot_data codec \<Rightarrow> u64 \<Rightarrow> node list \<Rightarrow> edge list \<Rightarrow> prop_column list \<Rightarrow> u64 \<Rightarrow> u64 \<Rightarrow> dir \<Rightarrow>
     unit outcome \<times> dir" where
  "write_snapshot b snapshot_id nodes edges prop_columns next_node_id next_edge_id d =
     (let path = snapshot_file snapshot_id;
          data = \<lparr>sd_version = 1, sd_snapshot_id = snapshot_id, sd_nodes = nodes, sd_edges = edges,
            sd_prop_columns = prop_columns, sd_next_node_id = next_node_id, sd_next_edge_id = next_edge_id\<rparr>
      in case file_create path d of
        Err e \<Rightarrow> (Err e, d)
      | Panicked \<Rightarrow> (Panicked, d)
      | Ok f \<Rightarrow>
          let w = bw_new 1048576 f in
          (case ser b data of
            None \<Rightarrow> (Err (InvalidData ''bincode''), dir_put path f d)
          | Some encoded \<Rightarrow>
              let (ok1, w1) = bw_write_all encoded w;
                  (ok2, w2) = (if ok1 then bw_flush w1 else (False, w1));
                  (ok3, w3) = (if ok2 then bw_sync_all w2 else (False, w2))
              in (if ok3 then Ok () else Err StorageFull, dir_put path (bw_file w3) d)))"

definition read_snapshot :: "snapshot_data codec \<Rightarrow> u64 \<Rightarrow> dir \<Rightarrow> snapshot_data outcome" where
  "read_snapshot b snapshot_id d =
     (case fs_read (snapshot_file snapshot_id) d of
       Ok buf \<Rightarrow> (case de b buf of None \<Rightarrow> Err (InvalidData ''bincode'') | Some data \<Rightarrow> Ok data)
     | Err e \<Rightarrow> Err e
     | Panicked \<Rightarrow> Panicked)"

definition load_latest :: "snapshot_data codec \<Rightarrow> manifest \<Rightarrow> dir \<Rightarrow> snapshot_data option outcome" where
  "load_latest b m d =
     (if latest_snapshot_id m = 0 then Ok None
      else (case read_snapshot b (latest_snapshot_id m) d of
        Ok data \<Rightarrow> Ok (Some data) | Err e \<Rightarrow> Err e | Panicked \<Rightarrow> Panicked))"

section \<open>The manager\<close>

record snapshot_manager =
  sm_manifest :: manifest
  sm_wal_bytes :: u64
  sm_interval :: u64

definition sm_new :: "json \<Rightarrow> dir \<Rightarrow> snapshot_manager outcome" where
  "sm_new j d =
     (case manifest_read j d of
       Ok m \<Rightarrow> Ok \<lparr>sm_manifest = m, sm_wal_bytes = 0, sm_interval = 536870912\<rparr>
     | Err e \<Rightarrow> Err e
     | Panicked \<Rightarrow> Panicked)"

text \<open>\<open>checks\<close>: whether the build panics on overflow or wraps.\<close>

definition sm_add_wal_bytes :: "bool \<Rightarrow> u64 \<Rightarrow> snapshot_manager \<Rightarrow> snapshot_manager outcome" where
  "sm_add_wal_bytes checks n s =
     (if checks \<and> unat (sm_wal_bytes s) + unat n \<ge> 2 ^ 64 then Panicked
      else Ok (s\<lparr>sm_wal_bytes := sm_wal_bytes s + n\<rparr>))"

definition sm_should_snapshot :: "snapshot_manager \<Rightarrow> bool" where
  "sm_should_snapshot s \<longleftrightarrow>
     latest_snapshot_id (sm_manifest s) = 0 \<or> sm_wal_bytes s \<ge> sm_interval s"

text \<open>The manifest in memory is changed before the one on disk, and stays changed when that fails.\<close>

definition sm_take_snapshot ::
  "bool \<Rightarrow> snapshot_data codec \<Rightarrow> json \<Rightarrow> node list \<Rightarrow> edge list \<Rightarrow> prop_column list \<Rightarrow> u64 \<Rightarrow> u64 \<Rightarrow>
     snapshot_manager \<Rightarrow> dir \<Rightarrow> u64 outcome \<times> snapshot_manager \<times> dir" where
  "sm_take_snapshot checks b j nodes edges prop_columns next_node_id next_edge_id s d =
     (if checks \<and> latest_snapshot_id (sm_manifest s) = - 1 then (Panicked, s, d)
      else
        let i = latest_snapshot_id (sm_manifest s) + 1 in
        (case write_snapshot b i nodes edges prop_columns next_node_id next_edge_id d of
          (Err e, d1) \<Rightarrow> (Err e, s, d1)
        | (Panicked, d1) \<Rightarrow> (Panicked, s, d1)
        | (Ok _, d1) \<Rightarrow>
            let m = (sm_manifest s)\<lparr>latest_snapshot_id := i, latest_snapshot_path := snapshot_file i\<rparr>;
                s1 = s\<lparr>sm_manifest := m\<rparr>
            in (case manifest_write j m d1 of
              (Err e, d2) \<Rightarrow> (Err e, s1, d2)
            | (Panicked, d2) \<Rightarrow> (Panicked, s1, d2)
            | (Ok _, d2) \<Rightarrow> (Ok i, s1\<lparr>sm_wal_bytes := 0\<rparr>, d2))))"

definition sm_merge_wal ::
  "json \<Rightarrow> string \<Rightarrow> snapshot_manager \<Rightarrow> dir \<Rightarrow> unit outcome \<times> snapshot_manager \<times> dir" where
  "sm_merge_wal j wal_file s d =
     (let m = (sm_manifest s)\<lparr>merged_wal_files := merged_wal_files (sm_manifest s) @ [wal_file]\<rparr>;
          (r, d1) = manifest_write j m d
      in (r, s\<lparr>sm_manifest := m\<rparr>, d1))"

definition wal_file_names :: "string list" where
  "wal_file_names = [''nodes.wal'', ''edges.wal'', ''props.wal'']"

definition sm_recover ::
  "snapshot_data codec \<Rightarrow> snapshot_manager \<Rightarrow> dir \<Rightarrow> (snapshot_data option \<times> string list) outcome" where
  "sm_recover b s d =
     (case load_latest b (sm_manifest s) d of
       Err e \<Rightarrow> Err e
     | Panicked \<Rightarrow> Panicked
     | Ok snapshot \<Rightarrow>
         Ok (snapshot,
           if snapshot \<noteq> None
           then filter (\<lambda>f. f \<notin> set (merged_wal_files (sm_manifest s)) \<and> d_exists d \<and> d_files d f \<noteq> None)
                  wal_file_names
           else []))"

section \<open>Lemmas: file names\<close>

text \<open>The number a string of digits stands for.\<close>

definition digits_val :: "string \<Rightarrow> nat" where
  "digits_val ds = foldl (\<lambda>n c. 10 * n + (of_char c - 48)) 0 ds"

lemma digits_val_snoc: "digits_val (ds @ [c]) = 10 * digits_val ds + (of_char c - 48)"
  by (simp add: digits_val_def)

lemma digits_val_zeros: "digits_val (replicate k CHR ''0'' @ ds) = digits_val ds"
proof -
  have "foldl (\<lambda>n c. 10 * n + (of_char c - 48)) (0 :: nat) (replicate k CHR ''0'') = 0"
    by (induction k) simp_all
  then show ?thesis by (simp add: digits_val_def)
qed

lemma digits_val_decimal: "digits_val (decimal n) = n"
proof (induction n rule: decimal.induct)
  case (1 n)
  show ?case
  proof (cases "n < 10")
    case True
    then show ?thesis by (subst decimal.simps) (simp add: digits_val_def)
  next
    case False
    with 1 show ?thesis by (subst decimal.simps) (simp add: digits_val_snoc)
  qed
qed

lemma snapshot_file_inject: "snapshot_file i = snapshot_file k \<longleftrightarrow> i = k"
proof
  assume "snapshot_file i = snapshot_file k"
  then have "replicate (4 - length (decimal (unat i))) CHR ''0'' @ decimal (unat i) =
      replicate (4 - length (decimal (unat k))) CHR ''0'' @ decimal (unat k)"
    by (simp add: snapshot_file_def Let_def)
  from arg_cong [where f = digits_val, OF this] have "unat i = unat k"
    by (simp add: digits_val_zeros digits_val_decimal)
  then show "i = k" by (rule word_unat_eq_iff [THEN iffD2])
qed simp

lemma snapshot_file_not_other: "snapshot_file i \<noteq> ''manifest.json''" "snapshot_file i \<notin> set wal_file_names"
  by (simp_all add: snapshot_file_def wal_file_names_def Let_def)


section \<open>Lemmas: a directory on a healthy device\<close>

definition dir_ok :: "dir \<Rightarrow> bool" where
  "dir_ok d \<longleftrightarrow> d_exists d \<and> d_space d = None \<and> d_sync_ok d"

definition json_ok :: "json \<Rightarrow> bool" where
  "json_ok j \<longleftrightarrow> (\<forall>m. case j_ser j m of None \<Rightarrow> False | Some data \<Rightarrow> j_de j data = Inr m)"

lemma json_okD: "json_ok j \<Longrightarrow> \<exists>data. j_ser j m = Some data \<and> j_de j data = Inr m"
  by (auto simp: json_ok_def split: option.splits dest: spec [of _ m])

lemma manifest_write_ok:
  assumes "json_ok j" and "dir_ok d"
  obtains data where "j_de j data = Inr m" and "manifest_write j m d =
    (Ok (), d\<lparr>d_files := (d_files d)(''manifest.json'' \<mapsto> \<lparr>f_data = data, f_synced = 0, f_space = None, f_sync_ok = True\<rparr>)\<rparr>)"
  using json_okD [OF assms(1), of m] assms(2)
  by (auto simp: manifest_write_def fs_write_def file_create_def dir_ok_def file_write_all_def dir_put_def)

abbreviation snap_data :: "u64 \<Rightarrow> node list \<times> edge list \<times> prop_column list \<times> u64 \<times> u64 \<Rightarrow> snapshot_data" where
  "snap_data i x \<equiv>
     (case x of (ns, es, cols, nn, ne) \<Rightarrow>
       \<lparr>sd_version = 1, sd_snapshot_id = i, sd_nodes = ns, sd_edges = es, sd_prop_columns = cols,
        sd_next_node_id = nn, sd_next_edge_id = ne\<rparr>)"

lemma write_snapshot_ok:
  assumes "codec_ok b" and "dir_ok d"
  obtains bs where "de b bs = Some (snap_data i (ns, es, cols, nn, ne))" and
    "write_snapshot b i ns es cols nn ne d = (Ok (), d\<lparr>d_files := (d_files d)(snapshot_file i \<mapsto> file_of bs)\<rparr>)"
proof -
  let ?f = "\<lparr>f_data = [], f_synced = 0, f_space = None, f_sync_ok = True\<rparr>"
  obtain bs where bs: "ser b (snap_data i (ns, es, cols, nn, ne)) = Some bs"
    "de b bs = Some (snap_data i (ns, es, cols, nn, ne))"
    using codec_okD [OF assms(1)] by blast
  obtain ok w where w: "bw_write_all bs (bw_new 1048576 ?f) = (ok, w)" by fastforce
  have "healthy (bw_file (bw_new 1048576 ?f))" "length (bw_buf (bw_new 1048576 ?f)) \<le> 1048576"
    by (simp_all add: bw_new_def healthy_def)
  note wr = bw_write_all_healthy [OF this(1) _ w]
  have h: ok "healthy (bw_file w)" "f_data (bw_file w) @ bw_buf w = bs"
    using wr(1,2,5) by (simp_all add: bw_new_def)
  then obtain w' where f: "bw_flush w = (True, w')" "bw_sync_all w' = (True, w\<lparr>bw_buf := [], bw_file := file_of bs\<rparr>)"
    by (simp add: bw_flush_def bw_flush_buf_healthy bw_sync_all_def file_sync_all_def healthy_def file_of_def)
  have "write_snapshot b i ns es cols nn ne d =
      (Ok (), d\<lparr>d_files := (d_files d)(snapshot_file i \<mapsto> file_of bs)\<rparr>)"
    using assms(2) bs(1) w h(1) f
    by (simp add: write_snapshot_def file_create_def dir_ok_def dir_put_def Let_def file_of_def)
  with bs(2) show thesis by (rule that)
qed

section \<open>Runs\<close>

text \<open>
  What happens to a data directory: snapshots, merges, counted log bytes, stores writing their logs,
  and the manager being opened again. A run ends at the first call that does not succeed.
\<close>

datatype snap_op =
    SnTake "node list" "edge list" "prop_column list" u64 u64
  | SnMerge string
  | SnAdd u64
  | SnStore nat ofile
  | SnReopen

definition sn_exec ::
  "bool \<Rightarrow> snapshot_data codec \<Rightarrow> json \<Rightarrow> snap_op \<Rightarrow> snapshot_manager \<times> dir \<Rightarrow> unit outcome \<times> snapshot_manager \<times> dir" where
  "sn_exec checks b j op sd =
     (case sd of (s, d) \<Rightarrow>
       (case op of
         SnTake ns es cols nn ne \<Rightarrow>
           (case sm_take_snapshot checks b j ns es cols nn ne s d of
             (Ok _, sd') \<Rightarrow> (Ok (), sd') | (Err e, sd') \<Rightarrow> (Err e, sd') | (Panicked, sd') \<Rightarrow> (Panicked, sd'))
       | SnMerge f \<Rightarrow> sm_merge_wal j f s d
       | SnAdd n \<Rightarrow>
           (case sm_add_wal_bytes checks n s of
             Ok s' \<Rightarrow> (Ok (), s', d) | Err e \<Rightarrow> (Err e, s, d) | Panicked \<Rightarrow> (Panicked, s, d))
       | SnStore k f \<Rightarrow> (Ok (), s, d\<lparr>d_files := (d_files d)(wal_file_names ! (k mod 3) \<mapsto> f)\<rparr>)
       | SnReopen \<Rightarrow>
           (case sm_new j d of
             Ok s' \<Rightarrow> (Ok (), s', d) | Err e \<Rightarrow> (Err e, s, d) | Panicked \<Rightarrow> (Panicked, s, d))))"

primrec sn_run ::
  "bool \<Rightarrow> snapshot_data codec \<Rightarrow> json \<Rightarrow> snap_op list \<Rightarrow> snapshot_manager \<times> dir \<Rightarrow> unit outcome \<times> snapshot_manager \<times> dir" where
  "sn_run checks b j [] sd = (Ok (), sd)"
| "sn_run checks b j (x # xs) sd =
     (case sn_exec checks b j x sd of (Ok _, sd') \<Rightarrow> sn_run checks b j xs sd' | (e, sd') \<Rightarrow> (e, sd'))"

fun snaps_taken :: "snap_op list \<Rightarrow> (node list \<times> edge list \<times> prop_column list \<times> u64 \<times> u64) list" where
  "snaps_taken [] = []"
| "snaps_taken (SnTake ns es cols nn ne # xs) = (ns, es, cols, nn, ne) # snaps_taken xs"
| "snaps_taken (x # xs) = snaps_taken xs"

fun wals_merged :: "snap_op list \<Rightarrow> string list" where
  "wals_merged [] = []"
| "wals_merged (SnMerge f # xs) = f # wals_merged xs"
| "wals_merged (x # xs) = wals_merged xs"

definition snap_inv ::
  "snapshot_data codec \<Rightarrow> json \<Rightarrow> (node list \<times> edge list \<times> prop_column list \<times> u64 \<times> u64) list \<Rightarrow> string list \<Rightarrow>
     snapshot_manager \<times> dir \<Rightarrow> bool" where
  "snap_inv b j hist merged sd \<longleftrightarrow>
     dir_ok (snd sd) \<and> latest_snapshot_id (sm_manifest (fst sd)) = of_nat (length hist) \<and>
     merged_wal_files (sm_manifest (fst sd)) = merged \<and>
     manifest_read j (snd sd) = Ok (sm_manifest (fst sd)) \<and>
     (\<forall>k<length hist. read_snapshot b (of_nat (Suc k)) (snd sd) = Ok (snap_data (of_nat (Suc k)) (hist ! k)))"

lemma read_snapshot_upd_other:
  "name \<noteq> snapshot_file i \<Longrightarrow> read_snapshot b i (d\<lparr>d_files := (d_files d)(name \<mapsto> f)\<rparr>) = read_snapshot b i d"
  by (simp add: read_snapshot_def fs_read_def)

lemma manifest_read_upd_other:
  "name \<noteq> ''manifest.json'' \<Longrightarrow> manifest_read j (d\<lparr>d_files := (d_files d)(name \<mapsto> f)\<rparr>) = manifest_read j d"
  by (simp add: manifest_read_def fs_read_def)

lemma manifest_write_read:
  assumes "json_ok j" and "dir_ok d"
  obtains d' where "manifest_write j m d = (Ok (), d')" "dir_ok d'" "manifest_read j d' = Ok m"
    "\<And>b i. read_snapshot b i d' = read_snapshot b i d"
proof -
  obtain data where data: "j_de j data = Inr m" "manifest_write j m d =
    (Ok (), d\<lparr>d_files := (d_files d)(''manifest.json'' \<mapsto> \<lparr>f_data = data, f_synced = 0, f_space = None, f_sync_ok = True\<rparr>)\<rparr>)"
    by (rule manifest_write_ok [OF assms])
  with assms(2) show thesis
    using snapshot_file_not_other(1) [THEN not_sym]
    by (intro that [OF data(2)]) (simp_all add: dir_ok_def manifest_read_def fs_read_def read_snapshot_upd_other)
qed

lemma of_nat_u64_inject:
  assumes "m < 2 ^ 64" and "k < 2 ^ 64"
  shows "(of_nat k :: u64) = of_nat m \<longleftrightarrow> k = m"
proof
  assume "(of_nat k :: u64) = of_nat m"
  from arg_cong [where f = unat, OF this] assms show "k = m" by (simp add: unat_of_nat)
qed simp

lemma sn_take_inv:
  assumes "codec_ok b" and "json_ok j" and "snap_inv b j hist merged (s, d)" and "length hist + 1 < 2 ^ 64"
  shows "\<exists>s' d'. sm_take_snapshot checks b j ns es cols nn ne s d = (Ok (of_nat (Suc (length hist))), s', d') \<and>
    sm_wal_bytes s' = 0 \<and> sm_interval s' = sm_interval s \<and>
    snap_inv b j (hist @ [(ns, es, cols, nn, ne)]) merged (s', d')"
proof -
  let ?n = "length hist" and ?x = "(ns, es, cols, nn, ne)"
  let ?i = "of_nat (Suc ?n) :: u64"
  have d: "dir_ok d" and id: "latest_snapshot_id (sm_manifest s) + 1 = ?i"
    and merged: "merged_wal_files (sm_manifest s) = merged"
    and reads: "\<And>k. k < ?n \<Longrightarrow> read_snapshot b (of_nat (Suc k)) d = Ok (snap_data (of_nat (Suc k)) (hist ! k))"
    using assms(3) by (auto simp: snap_inv_def)
  have "?i \<noteq> 0" using of_nat_u64_inject [of 0 "Suc ?n"] assms(4) by simp
  then have top: "latest_snapshot_id (sm_manifest s) \<noteq> - 1" using id by force
  obtain bs where bs: "de b bs = Some (snap_data ?i ?x)"
    "write_snapshot b ?i ns es cols nn ne d = (Ok (), d\<lparr>d_files := (d_files d)(snapshot_file ?i \<mapsto> file_of bs)\<rparr>)"
    by (rule write_snapshot_ok [OF assms(1) d])
  let ?d1 = "d\<lparr>d_files := (d_files d)(snapshot_file ?i \<mapsto> file_of bs)\<rparr>"
  let ?m = "(sm_manifest s)\<lparr>latest_snapshot_id := ?i, latest_snapshot_path := snapshot_file ?i\<rparr>"
  have d1: "dir_ok ?d1" using d by (simp add: dir_ok_def)
  obtain d2 where d2: "manifest_write j ?m ?d1 = (Ok (), d2)" "dir_ok d2" "manifest_read j d2 = Ok ?m"
    "\<And>b i. read_snapshot b i d2 = read_snapshot b i ?d1"
    using manifest_write_read [OF assms(2) d1] by blast
  have old: "read_snapshot b (of_nat (Suc k)) d2 = Ok (snap_data (of_nat (Suc k)) (hist ! k))" if "k < ?n" for k
  proof -
    have "snapshot_file ?i \<noteq> snapshot_file (of_nat (Suc k))"
      using that assms(4) of_nat_u64_inject [of "Suc k" "Suc ?n"] unfolding snapshot_file_inject by simp
    from read_snapshot_upd_other [OF this] reads [OF that] show ?thesis unfolding d2(4) by metis
  qed
  have new: "read_snapshot b ?i d2 = Ok (snap_data ?i ?x)"
    using d bs(1) unfolding d2(4) by (simp add: read_snapshot_def fs_read_def dir_ok_def)
  have "snap_inv b j (hist @ [?x]) merged (s\<lparr>sm_manifest := ?m, sm_wal_bytes := 0\<rparr>, d2)"
    using d2(2,3) old new merged by (auto simp: snap_inv_def nth_append less_Suc_eq)
  moreover have "sm_take_snapshot checks b j ns es cols nn ne s d =
      (Ok ?i, s\<lparr>sm_manifest := ?m, sm_wal_bytes := 0\<rparr>, d2)"
    using top bs(2) d2(1) by (simp add: sm_take_snapshot_def id Let_def)
  ultimately show ?thesis by auto
qed


primrec bytes_added :: "snap_op list \<Rightarrow> nat" where
  "bytes_added [] = 0"
| "bytes_added (x # xs) = (case x of SnAdd n \<Rightarrow> unat n | _ \<Rightarrow> 0) + bytes_added xs"

lemma sn_exec_inv:
  assumes "codec_ok b" and "json_ok j" and "snap_inv b j hist merged (s, d)"
    and "length (hist @ snaps_taken [x]) < 2 ^ 64" and "unat (sm_wal_bytes s) + bytes_added [x] < 2 ^ 64"
  shows "\<exists>s' d'. sn_exec checks b j x (s, d) = (Ok (), s', d') \<and>
    unat (sm_wal_bytes s') \<le> unat (sm_wal_bytes s) + bytes_added [x] \<and>
    snap_inv b j (hist @ snaps_taken [x]) (merged @ wals_merged [x]) (s', d')"
proof (cases x)
  case (SnTake ns es cols nn ne)
  with assms sn_take_inv [OF assms(1-3), of checks ns es cols nn ne] show ?thesis
    by (auto simp: sn_exec_def)
next
  case (SnMerge f)
  have d: "dir_ok d" using assms(3) by (simp add: snap_inv_def)
  let ?m = "(sm_manifest s)\<lparr>merged_wal_files := merged_wal_files (sm_manifest s) @ [f]\<rparr>"
  obtain d' where d': "manifest_write j ?m d = (Ok (), d')" "dir_ok d'" "manifest_read j d' = Ok ?m"
    "\<And>b i. read_snapshot b i d' = read_snapshot b i d"
    using manifest_write_read [OF assms(2) d] by blast
  with assms(3) SnMerge show ?thesis
    by (simp add: sn_exec_def sm_merge_wal_def snap_inv_def)
next
  case (SnAdd n)
  have "unat (sm_wal_bytes s + n) = unat (sm_wal_bytes s) + unat n"
    using assms(5) SnAdd by (simp add: unat_add_lem [THEN iffD1])
  with assms(3,5) SnAdd show ?thesis
    by (simp add: sn_exec_def sm_add_wal_bytes_def snap_inv_def)
next
  case (SnStore k f)
  have "wal_file_names ! (k mod 3) \<in> set wal_file_names"
    by (rule nth_mem) (simp add: wal_file_names_def)
  moreover have "''manifest.json'' \<notin> set wal_file_names" by (simp add: wal_file_names_def)
  ultimately have "wal_file_names ! (k mod 3) \<noteq> ''manifest.json''" "\<And>i. wal_file_names ! (k mod 3) \<noteq> snapshot_file i"
    using snapshot_file_not_other(2) by metis+
  with assms(3) SnStore show ?thesis
    by (simp add: sn_exec_def snap_inv_def dir_ok_def manifest_read_upd_other read_snapshot_upd_other)
next
  case SnReopen
  with assms(3) show ?thesis
    by (simp add: sn_exec_def sm_new_def snap_inv_def)
qed

lemma snaps_taken_Cons: "snaps_taken (x # xs) = snaps_taken [x] @ snaps_taken xs"
  by (cases x) simp_all

lemma wals_merged_Cons: "wals_merged (x # xs) = wals_merged [x] @ wals_merged xs"
  by (cases x) simp_all

lemma wals_merged_append: "wals_merged (xs @ ys) = wals_merged xs @ wals_merged ys"
  by (induction xs) (simp, metis append.assoc append_Cons wals_merged_Cons)

lemma sn_run_inv:
  assumes "codec_ok b" and "json_ok j" and "snap_inv b j hist merged (s, d)"
    and "length (hist @ snaps_taken xs) < 2 ^ 64" and "unat (sm_wal_bytes s) + bytes_added xs < 2 ^ 64"
  shows "\<exists>s' d'. sn_run checks b j xs (s, d) = (Ok (), s', d') \<and>
    snap_inv b j (hist @ snaps_taken xs) (merged @ wals_merged xs) (s', d')"
  using assms(3-5)
proof (induction xs arbitrary: s d hist merged)
  case Nil
  then show ?case by simp
next
  case (Cons x xs)
  note cons = snaps_taken_Cons [of x xs] wals_merged_Cons [of x xs]
  have "length (hist @ snaps_taken [x]) < 2 ^ 64" "unat (sm_wal_bytes s) + bytes_added [x] < 2 ^ 64"
    using Cons.prems(2,3) cons(1) by auto
  from sn_exec_inv [OF assms(1,2) Cons.prems(1) this] obtain s1 d1
    where 1: "sn_exec checks b j x (s, d) = (Ok (), s1, d1)"
      "unat (sm_wal_bytes s1) \<le> unat (sm_wal_bytes s) + bytes_added [x]"
      "snap_inv b j (hist @ snaps_taken [x]) (merged @ wals_merged [x]) (s1, d1)" by blast
  have "length ((hist @ snaps_taken [x]) @ snaps_taken xs) < 2 ^ 64" "unat (sm_wal_bytes s1) + bytes_added xs < 2 ^ 64"
    using Cons.prems(2,3) 1(2) cons(1) by auto
  from Cons.IH [OF 1(3) this] 1(1) show ?case
    unfolding cons by simp
qed

text \<open>A directory in which no snapshot has been taken, and the manager opened on it.\<close>

definition sn_start :: "snapshot_manager \<times> dir \<Rightarrow> bool" where
  "sn_start sd \<longleftrightarrow>
     dir_ok (snd sd) \<and> d_files (snd sd) ''manifest.json'' = None \<and>
     fst sd = \<lparr>sm_manifest = manifest_empty, sm_wal_bytes = 0, sm_interval = 536870912\<rparr>"

lemma sn_start_inv: "sn_start sd \<Longrightarrow> snap_inv b j [] [] sd"
  by (auto simp: sn_start_def snap_inv_def manifest_read_def fs_read_def dir_ok_def manifest_empty_def)

lemma snap_inv_recover:
  assumes "snap_inv b j hist merged (s, d)" and "length hist < 2 ^ 64"
  shows "sm_new j d = Ok \<lparr>sm_manifest = sm_manifest s, sm_wal_bytes = 0, sm_interval = 536870912\<rparr>"
    and "sm_manifest s' = sm_manifest s \<Longrightarrow> sm_recover b s' d =
      Ok (if hist = [] then (None, [])
          else (Some (snap_data (of_nat (length hist)) (last hist)),
                filter (\<lambda>f. f \<notin> set merged \<and> d_files d f \<noteq> None) wal_file_names))"
proof -
  show "sm_new j d = Ok \<lparr>sm_manifest = sm_manifest s, sm_wal_bytes = 0, sm_interval = 536870912\<rparr>"
    using assms(1) by (simp add: sm_new_def snap_inv_def)
  assume m: "sm_manifest s' = sm_manifest s"
  show "sm_recover b s' d =
      Ok (if hist = [] then (None, [])
          else (Some (snap_data (of_nat (length hist)) (last hist)),
                filter (\<lambda>f. f \<notin> set merged \<and> d_files d f \<noteq> None) wal_file_names))"
  proof (cases hist rule: rev_cases)
    case Nil
    with assms(1) m show ?thesis by (simp add: sm_recover_def load_latest_def snap_inv_def)
  next
    case (snoc h x)
    have "(of_nat (length hist) :: u64) \<noteq> 0"
      using of_nat_u64_inject [of 0 "length hist"] assms(2) snoc by simp
    moreover have "read_snapshot b (of_nat (length hist)) d = Ok (snap_data (of_nat (length hist)) x)"
      using assms(1) snoc by (simp add: snap_inv_def nth_append)
    ultimately show ?thesis
      using assms(1) m snoc by (simp add: sm_recover_def load_latest_def snap_inv_def dir_ok_def)
  qed
qed


section \<open>Example\<close>

text \<open>A serialiser of snapshots over lists of numbers, built from readers of their parts.\<close>

definition reads :: "(nat list \<Rightarrow> 'a \<times> nat list) \<Rightarrow> ('a \<Rightarrow> nat list) \<Rightarrow> bool" where
  "reads d e \<longleftrightarrow> (\<forall>x rest. d (e x @ rest) = (x, rest))"

definition put_list :: "('a \<Rightarrow> nat list) \<Rightarrow> 'a list \<Rightarrow> nat list" where
  "put_list e xs = length xs # concat (map e xs)"

primrec get_many :: "nat \<Rightarrow> (nat list \<Rightarrow> 'a \<times> nat list) \<Rightarrow> nat list \<Rightarrow> 'a list \<times> nat list" where
  "get_many 0 d ns = ([], ns)"
| "get_many (Suc k) d ns = (let (x, r) = d ns; (xs, r') = get_many k d r in (x # xs, r'))"

definition get_list :: "(nat list \<Rightarrow> 'a \<times> nat list) \<Rightarrow> nat list \<Rightarrow> 'a list \<times> nat list" where
  "get_list d ns = get_many (hd ns) d (tl ns)"

definition get_word :: "nat list \<Rightarrow> 'a::len word \<times> nat list" where
  "get_word ns = (of_nat (hd ns), tl ns)"

lemma reads_word: "reads get_word (\<lambda>w. [unat w])"
  by (simp add: reads_def get_word_def)

lemma reads_list: "reads d e \<Longrightarrow> reads (get_list d) (put_list e)"
proof -
  assume d: "reads d e"
  have "get_many (length xs) d (concat (map e xs) @ rest) = (xs, rest)" for xs rest
    using d by (induction xs) (simp_all add: reads_def)
  then show ?thesis by (simp add: reads_def get_list_def put_list_def)
qed

definition put_cell :: "val option \<Rightarrow> nat list" where
  "put_cell v = (case v of None \<Rightarrow> [0] | Some x \<Rightarrow> 1 # val_nats x)"

definition get_cell :: "nat list \<Rightarrow> val option \<times> nat list" where
  "get_cell ns =
     (if hd ns = 0 then (None, tl ns) else let (x, r) = read_val (length (tl ns)) (tl ns) in (Some x, r))"

lemma reads_cell: "reads get_cell put_cell"
  by (auto simp: reads_def get_cell_def put_cell_def read_val_nats split: option.split)

definition put_node :: "node \<Rightarrow> nat list" where
  "put_node n = [unat (n_id n), unat (n_first_out n), unat (n_first_in n), unat (n_props_row n),
     unat (n_created_tx n), unat (n_deleted_tx n)] @ put_list (\<lambda>w. [unat w]) (n_labels n)"

definition get_node :: "nat list \<Rightarrow> node \<times> nat list" where
  "get_node ns =
     (let (ls, r) = get_list get_word (drop 6 ns)
      in (\<lparr>n_id = of_nat (ns ! 0), n_labels = ls, n_first_out = of_nat (ns ! 1), n_first_in = of_nat (ns ! 2),
           n_props_row = of_nat (ns ! 3), n_created_tx = of_nat (ns ! 4), n_deleted_tx = of_nat (ns ! 5)\<rparr>, r))"

lemma reads_node: "reads get_node put_node"
  using reads_list [OF reads_word [where 'a = 32]] by (simp add: reads_def get_node_def put_node_def)

definition put_edge :: "edge \<Rightarrow> nat list" where
  "put_edge e = [unat (e_id e), unat (e_src e), unat (e_dst e), unat (e_etype e), unat (e_next_out e),
     unat (e_next_in e), unat (e_props_row e), unat (e_created_tx e), unat (e_deleted_tx e)]"

definition get_edge :: "nat list \<Rightarrow> edge \<times> nat list" where
  "get_edge ns =
     (\<lparr>e_id = of_nat (ns ! 0), e_src = of_nat (ns ! 1), e_dst = of_nat (ns ! 2), e_etype = of_nat (ns ! 3),
       e_next_out = of_nat (ns ! 4), e_next_in = of_nat (ns ! 5), e_props_row = of_nat (ns ! 6),
       e_created_tx = of_nat (ns ! 7), e_deleted_tx = of_nat (ns ! 8)\<rparr>, drop 9 ns)"

lemma reads_edge: "reads get_edge put_edge"
  by (simp add: reads_def get_edge_def put_edge_def)

definition put_column :: "prop_column \<Rightarrow> nat list" where
  "put_column x = (case x of (l, n, vs) \<Rightarrow> unat l # put_list (\<lambda>w. [unat w]) n @ put_list put_cell vs)"

definition get_column :: "nat list \<Rightarrow> prop_column \<times> nat list" where
  "get_column ns =
     (let (n, r) = get_list get_word (tl ns); (vs, r') = get_list get_cell r in ((of_nat (hd ns), n, vs), r'))"

lemma reads_column: "reads get_column put_column"
  using reads_list [OF reads_word [where 'a = 8]] reads_list [OF reads_cell]
  by (simp add: reads_def get_column_def put_column_def split_beta)

definition snap_example_codec :: "snapshot_data codec" where
  "snap_example_codec =
     \<lparr>ser = \<lambda>x. Some (nats_to_bytes (
        [unat (sd_version x), unat (sd_snapshot_id x), unat (sd_next_node_id x), unat (sd_next_edge_id x)] @
        put_list put_node (sd_nodes x) @ put_list put_edge (sd_edges x) @ put_list put_column (sd_prop_columns x))),
      de = \<lambda>bs.
        let ns = nats_of_bytes 0 bs;
            (nodes, r) = get_list get_node (drop 4 ns);
            (edges, r1) = get_list get_edge r;
            (cols, r2) = get_list get_column r1
        in if length ns < 4 then None
           else Some \<lparr>sd_version = of_nat (ns ! 0), sd_snapshot_id = of_nat (ns ! 1), sd_nodes = nodes,
             sd_edges = edges, sd_prop_columns = cols, sd_next_node_id = of_nat (ns ! 2),
             sd_next_edge_id = of_nat (ns ! 3)\<rparr>\<rparr>"

lemma snap_example_codec_ok: "codec_ok snap_example_codec"
proof -
  note lists = reads_list [OF reads_node] reads_list [OF reads_edge] reads_list [OF reads_column]
  have "get_list get_column (put_list put_column cs) = (cs, [])" for cs
    using lists(3) unfolding reads_def by (metis append_Nil2)
  then have "codec_at snap_example_codec x" for x
    using lists(1,2) by (simp add: codec_at_def snap_example_codec_def reads_def Let_def)
  then show ?thesis by (simp add: codec_ok_def)
qed

definition json_example :: json where
  "json_example =
     \<lparr>j_ser = \<lambda>m. Some (nats_to_bytes (unat (latest_snapshot_id m) #
        put_list (\<lambda>c. [of_char c]) (latest_snapshot_path m) @
        put_list (put_list (\<lambda>c. [of_char c])) (merged_wal_files m))),
      j_de = \<lambda>bs.
        let ns = nats_of_bytes 0 bs; char = (\<lambda>ns. (char_of (hd ns), tl ns));
            (path, r) = get_list char (tl ns); (fs, r') = get_list (get_list char) r
        in if ns = [] then Inl UnexpectedEof
           else Inr \<lparr>latest_snapshot_id = of_nat (hd ns), latest_snapshot_path = path, merged_wal_files = fs\<rparr>\<rparr>"

lemma json_example_ok: "json_ok json_example"
proof -
  have char: "reads (\<lambda>ns. (char_of (hd ns), tl ns)) (\<lambda>c. [of_char c :: nat])" by (simp add: reads_def)
  note lists = reads_list [OF char] reads_list [OF reads_list [OF char]]
  have "get_list (get_list (\<lambda>ns. (char_of (hd ns), tl ns))) (put_list (put_list (\<lambda>c. [of_char c :: nat])) fs) = (fs, [])" for fs
    using lists(2) unfolding reads_def by (metis append_Nil2)
  with lists(1) show ?thesis by (simp add: json_ok_def json_example_def reads_def Let_def)
qed

definition dir_example :: dir where
  "dir_example = \<lparr>d_exists = True, d_files = [''nodes.wal'' \<mapsto> file_of []], d_space = None, d_sync_ok = True\<rparr>"

definition sm_example :: snapshot_manager where
  "sm_example = \<lparr>sm_manifest = manifest_empty, sm_wal_bytes = 0, sm_interval = 536870912\<rparr>"

lemma sn_start_example: "sn_start (sm_example, dir_example)"
  by (simp add: sn_start_def sm_example_def dir_example_def dir_ok_def)

definition snap_example_ops :: "snap_op list" where
  "snap_example_ops = [SnTake [] [] [] 0 0, SnMerge ''edges.wal'', SnAdd 7, SnStore 1 (file_of [1]), SnReopen,
     SnTake [node_new 0 [3] 0 1] [] [(1, [0x61], [Some (VBool True), None])] 1 0]"

section \<open>Properties\<close>

text \<open>
  C21. Snapshots can be recovered: in a directory on a device without errors, after any sequence of
  snapshots, merges, log writes and restarts, opening the manager and recovering gives the data of
  the last snapshot, whole, with its number as identifier, and the log files that exist and were
  never merged; every earlier snapshot can still be read under its own number. Without a snapshot
  it gives nothing, and no log file to replay.
\<close>

theorem snapshot_recover_latest:
  assumes "codec_ok b" and "json_ok j" and "sn_start sd"
    and "length (snaps_taken xs) < 2 ^ 64" and "bytes_added xs < 2 ^ 64"
  shows "\<exists>s d s'. sn_run checks b j xs sd = (Ok (), s, d) \<and> sm_new j d = Ok s' \<and>
    sm_recover b s' d =
      Ok (if snaps_taken xs = [] then (None, [])
          else (Some (snap_data (of_nat (length (snaps_taken xs))) (last (snaps_taken xs))),
                filter (\<lambda>f. f \<notin> set (wals_merged xs) \<and> d_files d f \<noteq> None) wal_file_names)) \<and>
    (\<forall>k<length (snaps_taken xs).
      read_snapshot b (of_nat (Suc k)) d = Ok (snap_data (of_nat (Suc k)) (snaps_taken xs ! k)))"
proof -
  obtain s0 d0 where sd: "sd = (s0, d0)" by (cases sd)
  have "unat (sm_wal_bytes s0) + bytes_added xs < 2 ^ 64" using assms(3,5) by (simp add: sn_start_def sd)
  with sn_run_inv [OF assms(1,2) sn_start_inv [OF assms(3), unfolded sd], of xs checks] assms(4) obtain s d
    where r: "sn_run checks b j xs sd = (Ok (), s, d)" "snap_inv b j (snaps_taken xs) (wals_merged xs) (s, d)"
    by (auto simp: sd)
  have "\<forall>k<length (snaps_taken xs).
      read_snapshot b (of_nat (Suc k)) d = Ok (snap_data (of_nat (Suc k)) (snaps_taken xs ! k))"
    using r(2) by (simp add: snap_inv_def)
  with r(1) snap_inv_recover [OF r(2) assms(4)] show ?thesis by simp
qed

theorem snapshot_recover_latest_witness:
  "\<exists>s d s' wals. sn_run True snap_example_codec json_example snap_example_ops (sm_example, dir_example) = (Ok (), s, d) \<and>
    sm_new json_example d = Ok s' \<and>
    sm_recover snap_example_codec s' d =
      Ok (Some (snap_data 2 ([node_new 0 [3] 0 1], [], [(1, [0x61], [Some (VBool True), None])], 1, 0)), wals)"
  using snapshot_recover_latest [OF snap_example_codec_ok json_example_ok sn_start_example, of snap_example_ops True]
  by (auto simp: snap_example_ops_def)

text \<open>
  A merged log is never replayed again: once a log file has been marked as merged, no recovery
  after any later snapshots, log writes and restarts lists it, although the stores go on writing to
  the file of that name.
\<close>

theorem snapshot_merged_wal_ignored:
  assumes "codec_ok b" and "json_ok j" and "sn_start sd" and "xs = before @ [SnMerge f] @ after"
    and "length (snaps_taken xs) < 2 ^ 64" and "bytes_added xs < 2 ^ 64"
    and "sn_run checks b j xs sd = (r, s, d)" and "sm_recover b s d = Ok (snap, wals)"
  shows "r = Ok () \<and> f \<notin> set wals"
proof -
  obtain s0 d0 where sd: "sd = (s0, d0)" by (cases sd)
  have "unat (sm_wal_bytes s0) + bytes_added xs < 2 ^ 64" using assms(3,6) by (simp add: sn_start_def sd)
  with sn_run_inv [OF assms(1,2) sn_start_inv [OF assms(3), unfolded sd], of xs checks] assms(5,7)
  have "r = Ok ()" and inv: "snap_inv b j (snaps_taken xs) (wals_merged xs) (s, d)" by (auto simp: sd)
  moreover have "f \<in> set (wals_merged xs)" by (simp add: assms(4) wals_merged_append)
  ultimately show ?thesis
    using snap_inv_recover(2) [OF inv assms(5) refl] assms(8) by (auto split: if_splits)
qed

theorem snapshot_merged_wal_ignored_witness:
  "\<exists>s d snap wals.
    sn_run True snap_example_codec json_example snap_example_ops (sm_example, dir_example) = (Ok (), s, d) \<and>
    sm_recover snap_example_codec s d = Ok (snap, wals) \<and> ''edges.wal'' \<notin> set wals"
proof -
  have xs: "snap_example_ops = [SnTake [] [] [] 0 0] @ [SnMerge ''edges.wal''] @ drop 2 snap_example_ops"
    and len: "length (snaps_taken snap_example_ops) < 2 ^ 64" "bytes_added snap_example_ops < 2 ^ 64"
    by (simp_all add: snap_example_ops_def)
  have "unat (sm_wal_bytes sm_example) + bytes_added snap_example_ops < 2 ^ 64" using len(2) by (simp add: sm_example_def)
  from sn_run_inv [OF snap_example_codec_ok json_example_ok sn_start_inv [OF sn_start_example] _ this, of True] len(1)
  obtain s d where run: "sn_run True snap_example_codec json_example snap_example_ops (sm_example, dir_example) = (Ok (), s, d)"
    and inv: "snap_inv snap_example_codec json_example (snaps_taken snap_example_ops) (wals_merged snap_example_ops) (s, d)"
    unfolding append_Nil by blast
  obtain p where rec: "sm_recover snap_example_codec s d = Ok p"
    using snap_inv_recover(2) [OF inv len(1) refl] by blast
  obtain snap wals where p: "p = (snap, wals)" by (cases p)
  from snapshot_merged_wal_ignored [OF snap_example_codec_ok json_example_ok sn_start_example xs len run rec [unfolded p]]
    run rec p
  show ?thesis by blast
qed

text \<open>
  The manifest is written in place and not synced: after a snapshot has been taken its file is
  durable, but of the manifest nothing is, so a crash can leave it empty; a manager opened then
  fails, if the empty text is no manifest, and finds none of the snapshots.
\<close>

theorem snapshot_manifest_not_durable:
  assumes "codec_ok b" and "json_ok j" and "dir_ok d" and "latest_snapshot_id (sm_manifest s) \<noteq> - 1"
    and "sm_take_snapshot checks b j ns es cols nn ne s d = (r, s', d')" and "j_de j [] = Inl e"
  shows "\<exists>i f m. r = Ok i \<and> d_files d' (snapshot_file i) = Some f \<and> durable f = f_data f \<and>
    d_files d' ''manifest.json'' = Some m \<and> durable m = [] \<and>
    sm_new j (d'\<lparr>d_files := (d_files d')(''manifest.json'' \<mapsto> file_of (durable m))\<rparr>) = Err e"
proof -
  let ?i = "latest_snapshot_id (sm_manifest s) + 1"
  let ?m = "(sm_manifest s)\<lparr>latest_snapshot_id := ?i, latest_snapshot_path := snapshot_file ?i\<rparr>"
  obtain bs where bs: "de b bs = Some (snap_data ?i (ns, es, cols, nn, ne))"
    "write_snapshot b ?i ns es cols nn ne d = (Ok (), d\<lparr>d_files := (d_files d)(snapshot_file ?i \<mapsto> file_of bs)\<rparr>)"
    by (rule write_snapshot_ok [OF assms(1,3)])
  let ?d1 = "d\<lparr>d_files := (d_files d)(snapshot_file ?i \<mapsto> file_of bs)\<rparr>"
  have d1: "dir_ok ?d1" using assms(3) by (simp add: dir_ok_def)
  obtain data where data: "manifest_write j ?m ?d1 = (Ok (), ?d1\<lparr>d_files := (d_files ?d1)
      (''manifest.json'' \<mapsto> \<lparr>f_data = data, f_synced = 0, f_space = None, f_sync_ok = True\<rparr>)\<rparr>)"
    by (rule manifest_write_ok [OF assms(2) d1])
  have "r = Ok ?i" "d' = ?d1\<lparr>d_files := (d_files ?d1)
      (''manifest.json'' \<mapsto> \<lparr>f_data = data, f_synced = 0, f_space = None, f_sync_ok = True\<rparr>)\<rparr>"
    using assms(4,5) bs(2) data by (auto simp: sm_take_snapshot_def Let_def)
  with assms(3,6) snapshot_file_not_other(1) [of ?i] show ?thesis
    by (simp add: durable_def sm_new_def manifest_read_def fs_read_def dir_ok_def)
qed

theorem snapshot_manifest_not_durable_witness:
  "\<exists>i s' d' f m. sm_take_snapshot True snap_example_codec json_example [] [] [] 0 0 sm_example dir_example = (Ok i, s', d') \<and>
    d_files d' (snapshot_file i) = Some f \<and> durable f = f_data f \<and>
    d_files d' ''manifest.json'' = Some m \<and>
    sm_new json_example (d'\<lparr>d_files := (d_files d')(''manifest.json'' \<mapsto> file_of (durable m))\<rparr>) = Err UnexpectedEof"
proof -
  obtain r s' d' where t: "sm_take_snapshot True snap_example_codec json_example [] [] [] 0 0 sm_example dir_example = (r, s', d')"
    by (cases "sm_take_snapshot True snap_example_codec json_example [] [] [] 0 0 sm_example dir_example")
  have "dir_ok dir_example" "latest_snapshot_id (sm_manifest sm_example) \<noteq> - 1" "j_de json_example [] = Inl UnexpectedEof"
    by (simp_all add: dir_ok_def dir_example_def sm_example_def manifest_empty_def json_example_def Let_def split_beta)
  from snapshot_manifest_not_durable [OF snap_example_codec_ok json_example_ok this(1,2) t this(3)] t
  show ?thesis by auto
qed

text \<open>
  When snapshots are due: after a snapshot has been taken, and until the manager is opened again
  or the next one is taken, a further one is due exactly when the log bytes reported since add up to
  512 MB, as long as their sum fits into 64 bits.
\<close>

theorem snapshot_due_iff:
  assumes "sm_take_snapshot checks b j ns es cols nn ne s d = (Ok i, s', d')" and "i \<noteq> 0"
    and "sm_interval s = 536870912" and "sum_list (map unat ns') < 2 ^ 64"
  shows "\<exists>s''. fold (\<lambda>n r. case r of Ok t \<Rightarrow> sm_add_wal_bytes checks n t | e \<Rightarrow> e) ns' (Ok s') = Ok s'' \<and>
    (sm_should_snapshot s'' \<longleftrightarrow> sum_list (map unat ns') \<ge> 512 * 1024 * 1024)"
proof -
  have s': "sm_wal_bytes s' = 0" "sm_interval s' = 536870912" "latest_snapshot_id (sm_manifest s') = i"
    using assms(1,3) by (auto simp: sm_take_snapshot_def Let_def split: if_splits outcome.splits prod.splits)
  have "\<exists>s''. fold (\<lambda>n r. case r of Ok t \<Rightarrow> sm_add_wal_bytes checks n t | e \<Rightarrow> e) ns' (Ok t) = Ok s'' \<and>
      unat (sm_wal_bytes s'') = unat (sm_wal_bytes t) + sum_list (map unat ns') \<and>
      sm_interval s'' = sm_interval t \<and> sm_manifest s'' = sm_manifest t"
    if "unat (sm_wal_bytes t) + sum_list (map unat ns') < 2 ^ 64" for t
    using that
  proof (induction ns' arbitrary: t)
    case (Cons n ns')
    let ?t = "t\<lparr>sm_wal_bytes := sm_wal_bytes t + n\<rparr>"
    have "unat (sm_wal_bytes t + n) = unat (sm_wal_bytes t) + unat n"
      using Cons.prems by (simp add: unat_add_lem [THEN iffD1])
    moreover have "sm_add_wal_bytes checks n t = Ok ?t"
      using Cons.prems by (simp add: sm_add_wal_bytes_def)
    ultimately show ?case using Cons.IH [of ?t] Cons.prems by (simp add: add.assoc)
  qed simp
  from this [of s'] assms(2,4) s' show ?thesis
    by (auto simp: sm_should_snapshot_def word_le_nat_alt)
qed

theorem snapshot_due_iff_witness:
  "\<exists>i s' d' s''. sm_take_snapshot True snap_example_codec json_example [] [] [] 0 0 sm_example dir_example = (Ok i, s', d') \<and>
    fold (\<lambda>n r. case r of Ok t \<Rightarrow> sm_add_wal_bytes True n t | e \<Rightarrow> e) [536870911, 1] (Ok s') = Ok s'' \<and>
    sm_should_snapshot s''"
proof -
  from sn_take_inv [OF snap_example_codec_ok json_example_ok sn_start_inv [OF sn_start_example]]
  obtain s' d' where t: "sm_take_snapshot True snap_example_codec json_example [] [] [] 0 0 sm_example dir_example = (Ok 1, s', d')"
    by fastforce
  have "sm_interval sm_example = 536870912" by (simp add: sm_example_def)
  from snapshot_due_iff [OF t _ this, of "[536870911, 1]"] t show ?thesis by auto
qed

end
