(* ===== verification/Floats.thy ===== *)
theory Floats
  imports LG_Prelude "HOL-Library.Log_Nat"
begin

text \<open>
  What the index and query modules use of Rust's \<open>f32\<close> and \<open>f64\<close>: the IEEE 754 binary formats as
  their bits, with rounding to nearest, ties to even, computed on exact rationals. The payload of a
  not-a-number that an operation produces is left open by Rust; here it is the canonical one.
\<close>

type_synonym f32 = "32 word"
type_synonym f64 = "64 word"

section \<open>Rounding\<close>

definition round_even :: "rat \<Rightarrow> int" where
  "round_even y =
     (let q = \<lfloor>y\<rfloor>; r = y - of_int q in if r > 1 / 2 \<or> (r = 1 / 2 \<and> odd q) then q + 1 else q)"

text \<open>The exponent of a positive number.\<close>

definition rat_exp :: "rat \<Rightarrow> int" where
  "rat_exp x =
     (let (n, d) = quotient_of x; k = int (floorlog 2 (nat n)) - int (floorlog 2 (nat d))
      in if 2 powi k \<le> x then k else k - 1)"

text \<open>
  The bits without the sign of the number nearest to \<open>x\<close> in the format with \<open>p\<close> bits of precision
  and \<open>2 powi (- t0)\<close> as its smallest positive number, if the exponent had no upper limit; and the
  number that bits stand for.
\<close>

definition fp_round :: "nat \<Rightarrow> int \<Rightarrow> rat \<Rightarrow> nat" where
  "fp_round p t0 x =
     (if x \<le> 0 then 0
      else let t = max (rat_exp x - (int p - 1)) (- t0)
           in nat (t + t0) * 2 ^ (p - 1) + nat (round_even (x / 2 powi t)))"

definition fp_value :: "nat \<Rightarrow> int \<Rightarrow> nat \<Rightarrow> rat" where
  "fp_value p t0 b =
     (let e = b div 2 ^ (p - 1); m = b mod 2 ^ (p - 1)
      in if e = 0 then of_nat m * 2 powi (- t0) else of_nat (2 ^ (p - 1) + m) * 2 powi (int e - 1 - t0))"

section \<open>Single precision\<close>

definition f32_is_neg :: "f32 \<Rightarrow> bool" where
  "f32_is_neg w \<longleftrightarrow> 2 ^ 31 \<le> unat w"

definition f32_mag :: "f32 \<Rightarrow> nat" where
  "f32_mag w = unat w mod 2 ^ 31"

definition f32_mk :: "bool \<Rightarrow> nat \<Rightarrow> f32" where
  "f32_mk s m = of_nat ((if s then 2 ^ 31 else 0) + min m 0x7F800000)"

definition f32_is_nan :: "f32 \<Rightarrow> bool" where
  "f32_is_nan w \<longleftrightarrow> 0x7F800000 < f32_mag w"

definition f32_is_inf :: "f32 \<Rightarrow> bool" where
  "f32_is_inf w \<longleftrightarrow> f32_mag w = 0x7F800000"

definition F32_NAN :: f32 where
  "F32_NAN = 0x7FC00000"

definition f32_abs_val :: "f32 \<Rightarrow> rat" where
  "f32_abs_val w = fp_value 24 149 (f32_mag w)"

definition f32_val :: "f32 \<Rightarrow> rat" where
  "f32_val w = (if f32_is_neg w then - f32_abs_val w else f32_abs_val w)"

text \<open>The nearest number, with the sign of \<open>x\<close>: what a literal and an integer conversion give.\<close>

definition f32_of_rat :: "rat \<Rightarrow> f32" where
  "f32_of_rat x = f32_mk (x < 0) (fp_round 24 149 \<bar>x\<bar>)"

definition f32_neg :: "f32 \<Rightarrow> f32" where
  "f32_neg a = f32_mk (\<not> f32_is_neg a) 0 + of_nat (f32_mag a)"

definition f32_add :: "f32 \<Rightarrow> f32 \<Rightarrow> f32" where
  "f32_add a b =
     (if f32_is_nan a \<or> f32_is_nan b \<or> (f32_is_inf a \<and> f32_is_inf b \<and> f32_is_neg a \<noteq> f32_is_neg b) then F32_NAN
      else if f32_is_inf a then a
      else if f32_is_inf b then b
      else if f32_val a + f32_val b = 0 then f32_mk (f32_is_neg a \<and> f32_is_neg b) 0
      else f32_of_rat (f32_val a + f32_val b))"

definition f32_sub :: "f32 \<Rightarrow> f32 \<Rightarrow> f32" where
  "f32_sub a b = f32_add a (f32_neg b)"

definition f32_mul :: "f32 \<Rightarrow> f32 \<Rightarrow> f32" where
  "f32_mul a b =
     (let s = (f32_is_neg a \<noteq> f32_is_neg b) in
      if f32_is_nan a \<or> f32_is_nan b \<or> (f32_is_inf a \<and> f32_mag b = 0) \<or> (f32_mag a = 0 \<and> f32_is_inf b) then F32_NAN
      else if f32_is_inf a \<or> f32_is_inf b then f32_mk s 0x7F800000
      else f32_mk s (fp_round 24 149 (f32_abs_val a * f32_abs_val b)))"

definition f32_div :: "f32 \<Rightarrow> f32 \<Rightarrow> f32" where
  "f32_div a b =
     (let s = (f32_is_neg a \<noteq> f32_is_neg b) in
      if f32_is_nan a \<or> f32_is_nan b \<or> (f32_is_inf a \<and> f32_is_inf b) \<or> (f32_mag a = 0 \<and> f32_mag b = 0) then F32_NAN
      else if f32_is_inf a \<or> f32_mag b = 0 then f32_mk s 0x7F800000
      else if f32_is_inf b then f32_mk s 0
      else f32_mk s (fp_round 24 149 (f32_abs_val a / f32_abs_val b)))"

text \<open>Square roots: the integer part by halving the digits, then the nearest significand.\<close>

fun isqrt :: "nat \<Rightarrow> nat" where
  "isqrt n = (if n = 0 then 0 else let r = 2 * isqrt (n div 4) in if (r + 1) ^ 2 \<le> n then r + 1 else r)"

declare isqrt.simps [simp del]

definition fp_sqrt :: "nat \<Rightarrow> int \<Rightarrow> rat \<Rightarrow> nat" where
  "fp_sqrt p t0 x =
     (let t = max (rat_exp x div 2 - (int p - 1)) (- t0);
          y = x / 4 powi t;
          m = isqrt (nat \<lfloor>y\<rfloor>);
          half = (of_nat m + 1 / 2) ^ 2
      in nat (t + t0) * 2 ^ (p - 1) + (if half < y \<or> (half = y \<and> odd m) then m + 1 else m))"

definition f32_sqrt :: "f32 \<Rightarrow> f32" where
  "f32_sqrt a =
     (if f32_is_nan a then F32_NAN
      else if f32_mag a = 0 then a
      else if f32_is_neg a then F32_NAN
      else if f32_is_inf a then a
      else f32_mk False (fp_sqrt 24 149 (f32_abs_val a)))"

text \<open>Comparison: the two zeros are equal, a not-a-number compares with nothing.\<close>

definition f32_key :: "f32 \<Rightarrow> int" where
  "f32_key w = (if f32_is_neg w then - int (f32_mag w) else int (f32_mag w))"

definition f32_lt :: "f32 \<Rightarrow> f32 \<Rightarrow> bool" where
  "f32_lt a b \<longleftrightarrow> \<not> f32_is_nan a \<and> \<not> f32_is_nan b \<and> f32_key a < f32_key b"

definition f32_eq :: "f32 \<Rightarrow> f32 \<Rightarrow> bool" where
  "f32_eq a b \<longleftrightarrow> \<not> f32_is_nan a \<and> \<not> f32_is_nan b \<and> f32_key a = f32_key b"

datatype rust_ordering = OLess | OEqual | OGreater

definition f32_partial_cmp :: "f32 \<Rightarrow> f32 \<Rightarrow> rust_ordering option" where
  "f32_partial_cmp a b =
     (if f32_is_nan a \<or> f32_is_nan b then None
      else Some (if f32_key a < f32_key b then OLess else if f32_key a = f32_key b then OEqual else OGreater))"

section \<open>Double precision\<close>

definition f64_is_neg :: "f64 \<Rightarrow> bool" where
  "f64_is_neg w \<longleftrightarrow> 2 ^ 63 \<le> unat w"

definition f64_mag :: "f64 \<Rightarrow> nat" where
  "f64_mag w = unat w mod 2 ^ 63"

definition f64_mk :: "bool \<Rightarrow> nat \<Rightarrow> f64" where
  "f64_mk s m = of_nat ((if s then 2 ^ 63 else 0) + min m 0x7FF0000000000000)"

definition f64_is_nan :: "f64 \<Rightarrow> bool" where
  "f64_is_nan w \<longleftrightarrow> 0x7FF0000000000000 < f64_mag w"

definition f64_is_inf :: "f64 \<Rightarrow> bool" where
  "f64_is_inf w \<longleftrightarrow> f64_mag w = 0x7FF0000000000000"

definition f64_val :: "f64 \<Rightarrow> rat" where
  "f64_val w = (if f64_is_neg w then - fp_value 53 1074 (f64_mag w) else fp_value 53 1074 (f64_mag w))"

definition F64_MAX :: f64 where
  "F64_MAX = 0x7FEFFFFFFFFFFFFF"

definition F64_MIN :: f64 where
  "F64_MIN = 0xFFEFFFFFFFFFFFFF"

text \<open>\<open>as f64\<close> of an integer, and \<open>as f32\<close> of a double.\<close>

definition f64_of_int :: "int \<Rightarrow> f64" where
  "f64_of_int i = f64_mk (i < 0) (fp_round 53 1074 \<bar>of_int i\<bar>)"

definition f32_of_f64 :: "f64 \<Rightarrow> f32" where
  "f32_of_f64 w =
     (if f64_is_nan w then F32_NAN
      else if f64_is_inf w then f32_mk (f64_is_neg w) 0x7F800000
      else f32_mk (f64_is_neg w) (fp_round 24 149 \<bar>f64_val w\<bar>))"

text \<open>
  The total order of the \<^verbatim>\<open>ordered_float\<close> crate's \<open>OrderedFloat<f64>\<close>, as documented there: numbers
  by value, and every not-a-number equal to the others and above all numbers.
\<close>

definition f64_key :: "f64 \<Rightarrow> int" where
  "f64_key w =
     (if f64_is_nan w then 2 ^ 63 else if f64_is_neg w then - int (f64_mag w) else int (f64_mag w))"

section \<open>Lemmas: rounding\<close>

lemma round_even_of_int [simp]: "round_even (of_int k) = k"
  by (simp add: round_even_def)

lemma round_even_close: "\<bar>of_int (round_even y) - y\<bar> \<le> 1 / 2"
proof -
  have "of_int \<lfloor>y\<rfloor> \<le> y" "y < of_int \<lfloor>y\<rfloor> + 1" by (rule of_int_floor_le, rule floor_correct [THEN conjunct2, simplified])
  then show ?thesis by (auto simp: round_even_def Let_def abs_le_iff)
qed

lemma round_even_mono: "x \<le> y \<Longrightarrow> round_even x \<le> round_even y"
proof -
  assume le: "x \<le> y"
  show ?thesis
  proof (cases "\<lfloor>x\<rfloor> = \<lfloor>y\<rfloor>")
    case True
    with le show ?thesis by (auto simp: round_even_def Let_def)
  next
    case False
    with le have "\<lfloor>x\<rfloor> + 1 \<le> \<lfloor>y\<rfloor>" using floor_mono [OF le] by linarith
    then show ?thesis by (auto simp: round_even_def Let_def)
  qed
qed

lemma floorlog_powi:
  assumes "0 < n"
  shows "2 powi (int (floorlog 2 n) - 1) \<le> (of_nat n :: rat)" and "(of_nat n :: rat) < 2 powi int (floorlog 2 n)"
proof -
  let ?a = "floorlog 2 n"
  have b: "2 ^ (?a - 1) \<le> n" "n < 2 ^ ?a" using floorlog_bounds [OF assms, of 2] by simp_all
  have "0 < ?a" using assms by (intro gr0I) (simp add: floorlog_eq_zero_iff)
  then have "2 powi (int ?a - 1) = (of_nat (2 ^ (?a - 1)) :: rat)"
    by (simp add: power_int_def nat_diff_distrib')
  with b(1) show "2 powi (int ?a - 1) \<le> (of_nat n :: rat)" by (simp only: of_nat_le_iff)
  have "(of_nat n :: rat) < of_nat (2 ^ ?a)" using b(2) by (simp only: of_nat_less_iff)
  then show "(of_nat n :: rat) < 2 powi int ?a" by simp
qed

lemma rat_exp_bounds:
  assumes "0 < x"
  shows "2 powi rat_exp x \<le> x" and "x < 2 powi (rat_exp x + 1)"
proof -
  obtain n d where q: "quotient_of x = (n, d)" by fastforce
  have d: "0 < d" using quotient_of_denom_pos [OF q] .
  have x: "x = of_int n / of_int d" using quotient_of_div [OF q] .
  with assms d have n: "0 < n" by (simp add: zero_less_divide_iff)
  define a c where "a = floorlog 2 (nat n)" and "c = floorlog 2 (nat d)"
  have nb: "2 powi (int a - 1) \<le> (of_int n :: rat)" "(of_int n :: rat) < 2 powi int a"
    using floorlog_powi [of "nat n"] n by (simp_all add: a_def)
  have db: "2 powi (int c - 1) \<le> (of_int d :: rat)" "(of_int d :: rat) < 2 powi int c"
    using floorlog_powi [of "nat d"] d by (simp_all add: c_def)
  have pos: "(0::rat) < of_int d" "(0::rat) \<le> of_int n" using n d by simp_all
  have "x < 2 powi int a / 2 powi (int c - 1)"
    unfolding x using nb(2) db(1) pos by (intro frac_less) simp_all
  also have "2 powi int a / 2 powi (int c - 1) = (2 :: rat) powi (int a - (int c - 1))"
    by (subst power_int_diff [of 2 "int a"]) simp_all
  finally have hi: "x < 2 powi (int a - int c + 1)" by (simp add: algebra_simps)
  have "2 powi (int a - 1) / 2 powi int c \<le> x"
    unfolding x using nb(1) db(2) pos by (intro frac_le) simp_all
  moreover have "2 powi (int a - 1) / 2 powi int c = (2 :: rat) powi (int a - 1 - int c)"
    by (subst power_int_diff) simp_all
  ultimately have lo: "2 powi (int a - int c - 1) \<le> x" by (simp add: algebra_simps)
  show "2 powi rat_exp x \<le> x" "x < 2 powi (rat_exp x + 1)"
    using hi lo by (auto simp: rat_exp_def q a_def [symmetric] c_def [symmetric] Let_def)
qed

lemma powi_less_cancel: "(2 :: rat) powi m < 2 powi n \<Longrightarrow> m < n"
  using power_int_increasing [of n m "2 :: rat"] by (meson linorder_not_less one_le_numeral)

lemma rat_exp_unique:
  assumes "2 powi e \<le> x" and "x < 2 powi (e + 1)"
  shows "rat_exp x = e"
proof -
  have "0 < x" using assms(1) by (meson less_le_trans zero_less_numeral zero_less_power_int)
  note b = rat_exp_bounds [OF this]
  have "2 powi rat_exp x < (2 :: rat) powi (e + 1)" "2 powi e < (2 :: rat) powi (rat_exp x + 1)"
    using b assms by linarith+
  from this [THEN powi_less_cancel] show ?thesis by simp
qed

lemma rat_exp_mono: "0 < x \<Longrightarrow> x \<le> y \<Longrightarrow> rat_exp x \<le> rat_exp y"
proof -
  assume "0 < x" "x \<le> y"
  then have "2 powi rat_exp x < (2 :: rat) powi (rat_exp y + 1)"
    using rat_exp_bounds(1) [of x] rat_exp_bounds(2) [of y] by linarith
  from powi_less_cancel [OF this] show ?thesis by simp
qed

text \<open>
  A number of the format is \<open>m * 2 powi t\<close>, with a full significand \<open>m\<close> unless \<open>t\<close> is the smallest
  exponent. Its bits are \<open>m\<close> added to the exponent field, also when \<open>m\<close> has just overflowed.
\<close>

definition fp_canonical :: "nat \<Rightarrow> int \<Rightarrow> int \<Rightarrow> nat \<Rightarrow> bool" where
  "fp_canonical p t0 t m \<longleftrightarrow> - t0 \<le> t \<and> m \<le> 2 ^ p \<and> (t = - t0 \<or> 2 ^ (p - 1) \<le> m)"

definition fp_pack :: "nat \<Rightarrow> int \<Rightarrow> int \<Rightarrow> nat \<Rightarrow> nat" where
  "fp_pack p t0 t m = nat (t + t0) * 2 ^ (p - 1) + m"

lemma fp_value_pack:
  assumes "fp_canonical p t0 t m" and "0 < p"
  shows "fp_value p t0 (fp_pack p t0 t m) = of_nat m * 2 powi t"
proof -
  let ?h = "2 ^ (p - 1) :: nat"
  have full: "2 ^ p = 2 * ?h" using assms(2) by (cases p) simp_all
  define k where "k = nat (t + t0)"
  have t: "t = int k - t0" using assms(1) by (simp add: k_def fp_canonical_def)
  consider (low) "m < ?h" "k = 0" | (mid) "?h \<le> m" "m < 2 * ?h" | (top) "m = 2 * ?h"
    using assms(1) unfolding fp_canonical_def full t by fastforce
  then show ?thesis
  proof cases
    case low
    then show ?thesis by (simp add: fp_value_def fp_pack_def k_def [symmetric] t)
  next
    case mid
    then have "m div ?h = 1" "m mod ?h = m - ?h" by (simp_all add: div_if mod_if)
    with mid show ?thesis
      by (simp add: fp_value_def fp_pack_def k_def [symmetric] t Let_def)
  next
    case top
    then have "m div ?h = 2" "m mod ?h = 0" by simp_all
    moreover have "2 powi (1 + int k - t0) = 2 * (2 :: rat) powi (int k - t0)"
      using power_int_add_1 [of "2 :: rat" "int k - t0"] by (simp add: algebra_simps)
    ultimately show ?thesis
      using top by (simp add: fp_value_def fp_pack_def k_def [symmetric] t Let_def)
  qed
qed

lemma fp_unpack:
  assumes "0 < p"
  obtains t m where "fp_canonical p t0 t m" and "m < 2 ^ p" and "b = fp_pack p t0 t m"
proof -
  let ?h = "2 ^ (p - 1) :: nat"
  have full: "2 ^ p = 2 * ?h" using assms by (cases p) simp_all
  have lt: "b mod ?h < ?h" by simp
  have b: "b = b div ?h * ?h + b mod ?h" by (rule div_mult_mod_eq [symmetric])
  show thesis
  proof (cases "b div ?h")
    case 0
    with b have "b = b mod ?h" by simp
    with lt have "b < ?h" by metis
    then show thesis
      by (intro that [of "- t0" b]) (simp_all add: fp_canonical_def fp_pack_def full)
  next
    case (Suc k)
    with b have "b = k * ?h + (?h + b mod ?h)" by simp
    with lt show thesis
      by (intro that [of "int k - t0" "?h + b mod ?h"]) (simp_all add: fp_canonical_def fp_pack_def full)
  qed
qed

text \<open>The significand a positive number is rounded to.\<close>

lemma fp_round_canonical:
  fixes t0 :: int
  assumes "0 < x" and "0 < p"
  defines "t \<equiv> max (rat_exp x - (int p - 1)) (- t0)"
  defines "m \<equiv> nat (round_even (x / 2 powi t))"
  shows "fp_round p t0 x = fp_pack p t0 t m" and "fp_canonical p t0 t m"
    and "int m = round_even (x / 2 powi t)"
proof -
  let ?y = "x / 2 powi t"
  have pos: "0 < ?y" using assms(1) by simp
  then have "0 \<le> round_even ?y" using round_even_mono [of 0 ?y] round_even_of_int [of 0] by simp
  then show int: "int m = round_even ?y" by (simp add: m_def)
  show "fp_round p t0 x = fp_pack p t0 t m"
    using assms(1) by (simp add: fp_round_def fp_pack_def Let_def t_def m_def)
  note b = rat_exp_bounds [OF assms(1)]
  have "rat_exp x + 1 \<le> t + int p" by (simp add: t_def)
  then have "(2 :: rat) powi (rat_exp x + 1) \<le> 2 powi (t + int p)"
    by (intro power_int_increasing) simp_all
  with b(2) have "x < 2 powi t * 2 ^ p" by (simp add: power_int_add)
  then have "?y \<le> of_int (2 ^ p)" by (simp add: field_simps)
  from round_even_mono [OF this] have hi: "m \<le> 2 ^ p"
    unfolding round_even_of_int using int by (metis of_nat_le_iff of_nat_numeral of_nat_power)
  have lo: "2 ^ (p - 1) \<le> m" if "t \<noteq> - t0"
  proof -
    from that have "rat_exp x = t + int (p - 1)" using assms(2) by (simp add: t_def max_def split: if_splits)
    with b(1) have "2 powi t * 2 ^ (p - 1) \<le> x" by (simp add: power_int_add)
    then have "of_int (2 ^ (p - 1)) \<le> ?y" by (simp add: field_simps)
    from round_even_mono [OF this] show ?thesis
      unfolding round_even_of_int using int by (metis of_nat_le_iff of_nat_numeral of_nat_power)
  qed
  show "fp_canonical p t0 t m"
    using hi lo by (auto simp: fp_canonical_def t_def)
qed

text \<open>Numbers of the format are rounded to themselves.\<close>

lemma fp_round_value:
  assumes "0 < p"
  shows "fp_round p t0 (fp_value p t0 b) = b"
proof -
  obtain t m where c: "fp_canonical p t0 t m" and m: "m < 2 ^ p" and b: "b = fp_pack p t0 t m"
    by (rule fp_unpack [OF assms])
  have v: "fp_value p t0 b = of_nat m * 2 powi t" unfolding b by (rule fp_value_pack [OF c assms])
  show ?thesis
  proof (cases "m = 0")
    case True
    with c assms have "b = 0" unfolding b by (auto simp: fp_canonical_def fp_pack_def)
    moreover have "fp_value p t0 b = 0" using v True by simp
    ultimately show ?thesis by (simp add: fp_round_def)
  next
    case False
    let ?x = "of_nat m * 2 powi t :: rat"
    have pos: "0 < ?x" using False by simp
    have t: "max (rat_exp ?x - (int p - 1)) (- t0) = t"
    proof (cases "2 ^ (p - 1) \<le> m")
      case True
      have "rat_exp ?x = t + int (p - 1)"
      proof (rule rat_exp_unique)
        have "(2 :: rat) ^ (p - 1) \<le> of_nat m"
          using True by (metis of_nat_le_iff of_nat_numeral of_nat_power)
        then show "2 powi (t + int (p - 1)) \<le> ?x" by (simp add: power_int_add)
        have "(of_nat m :: rat) < 2 ^ p"
          using m by (metis of_nat_less_iff of_nat_numeral of_nat_power)
        moreover have "t + int (p - 1) + 1 = t + int p" using assms by simp
        ultimately show "?x < 2 powi (t + int (p - 1) + 1)" by (simp add: power_int_add)
      qed
      then show ?thesis using c assms by (simp add: fp_canonical_def)
    next
      case False
      with c have low: "t = - t0" by (simp add: fp_canonical_def)
      have "(of_nat m :: rat) < 2 ^ (p - 1)"
        using False by (metis not_le of_nat_less_iff of_nat_numeral of_nat_power)
      then have "?x < 2 powi (t + int (p - 1))" by (simp add: power_int_add)
      with rat_exp_bounds(1) [OF pos] have "2 powi rat_exp ?x < (2 :: rat) powi (t + int (p - 1))" by linarith
      from powi_less_cancel [OF this] show ?thesis using low assms by simp
    qed
    have "?x / 2 powi t = of_int (int m)" by simp
    then have "nat (round_even (?x / 2 powi t)) = m" by (simp only: round_even_of_int nat_int)
    then have "fp_round p t0 ?x = fp_pack p t0 t m"
      using fp_round_canonical(1) [OF pos assms, of t0] unfolding t by simp
    then show ?thesis unfolding v by (simp only: b)
  qed
qed

lemma fp_pack_less:
  assumes "fp_canonical p t0 t m" and "fp_canonical p t0 t' m'" and "t < t'" and "0 < p"
  shows "fp_pack p t0 t m \<le> fp_pack p t0 t' m'"
proof -
  let ?h = "2 ^ (p - 1) :: nat"
  have "2 ^ p = 2 * ?h" using assms(4) by (cases p) simp_all
  moreover have "t' \<noteq> - t0" using assms(1,3) by (auto simp: fp_canonical_def)
  ultimately have "m \<le> 2 * ?h" "?h \<le> m'" using assms(1,2) by (auto simp: fp_canonical_def)
  moreover have "Suc (nat (t + t0)) \<le> nat (t' + t0)" using assms(1,3) by (auto simp: fp_canonical_def)
  then have "Suc (nat (t + t0)) * ?h \<le> nat (t' + t0) * ?h" by (rule mult_le_mono1)
  ultimately show ?thesis by (simp add: fp_pack_def)
qed

lemma fp_round_mono:
  assumes "x \<le> y" and "0 < p"
  shows "fp_round p t0 x \<le> fp_round p t0 y"
proof (cases "0 < x")
  case False
  then show ?thesis by (simp add: fp_round_def)
next
  case True
  then have y: "0 < y" using assms(1) by simp
  let ?t = "\<lambda>x. max (rat_exp x - (int p - 1)) (- t0)"
  note cx = fp_round_canonical [OF True assms(2), of t0] and cy = fp_round_canonical [OF y assms(2), of t0]
  have "?t x \<le> ?t y" using rat_exp_mono [OF True assms(1)] by simp
  then consider "?t x < ?t y" | "?t x = ?t y" by linarith
  then show ?thesis
  proof cases
    case 1
    then show ?thesis unfolding cx(1) cy(1) by (rule fp_pack_less [OF cx(2) cy(2) _ assms(2)])
  next
    case 2
    have "x / 2 powi ?t y \<le> y / 2 powi ?t y" using assms(1) by (intro divide_right_mono) simp_all
    from round_even_mono [OF this] show ?thesis
      unfolding cx(1) cy(1) 2 by (simp add: fp_pack_def)
  qed
qed

text \<open>The rounded number is at most half a unit in the last place away.\<close>

lemma fp_round_close:
  assumes "0 < x" and "0 < p"
  shows "\<bar>fp_value p t0 (fp_round p t0 x) - x\<bar> \<le> 2 powi (max (rat_exp x - (int p - 1)) (- t0)) / 2"
proof -
  let ?t = "max (rat_exp x - (int p - 1)) (- t0)"
  define m where "m = nat (round_even (x / 2 powi ?t))"
  note c = fp_round_canonical [OF assms, of t0, folded m_def]
  have "of_nat m = (of_int (round_even (x / 2 powi ?t)) :: rat)" by (metis c(3) of_int_of_nat_eq)
  then have "fp_value p t0 (fp_round p t0 x) = of_int (round_even (x / 2 powi ?t)) * 2 powi ?t"
    by (simp only: c(1) fp_value_pack [OF c(2) assms(2)])
  then have "fp_value p t0 (fp_round p t0 x) - x = (of_int (round_even (x / 2 powi ?t)) - x / 2 powi ?t) * 2 powi ?t"
    by (simp add: left_diff_distrib)
  then show ?thesis
    using mult_right_mono [OF round_even_close [of "x / 2 powi ?t"], of "2 powi ?t"] by (simp add: abs_mult)
qed


lemma fp_round_exact:
  assumes "0 < x" and "0 < p" and "x / 2 powi (max (rat_exp x - (int p - 1)) (- t0)) = of_int k"
  shows "fp_value p t0 (fp_round p t0 x) = x"
proof -
  let ?t = "max (rat_exp x - (int p - 1)) (- t0)"
  note c = fp_round_canonical [OF assms(1,2), of t0, unfolded assms(3) round_even_of_int]
  have "of_int k * 2 powi ?t = x" using assms(3) by (simp add: field_simps)
  then show ?thesis
    unfolding c(1) fp_value_pack [OF c(2) assms(2)] by (metis c(3) of_int_of_nat_eq)
qed

lemma fp_value_le_iff:
  assumes "0 < p"
  shows "fp_value p t0 a \<le> fp_value p t0 b \<longleftrightarrow> a \<le> b"
proof
  assume "fp_value p t0 a \<le> fp_value p t0 b"
  from fp_round_mono [OF this assms, of t0] show "a \<le> b" by (simp add: fp_round_value [OF assms])
next
  assume "a \<le> b"
  show "fp_value p t0 a \<le> fp_value p t0 b"
  proof (rule ccontr)
    assume n: "\<not> ?thesis"
    then have "fp_value p t0 b \<le> fp_value p t0 a" by simp
    from fp_round_mono [OF this assms, of t0] \<open>a \<le> b\<close> have "a = b" by (simp add: fp_round_value [OF assms])
    with n show False by simp
  qed
qed

lemma fp_value_0 [simp]: "fp_value p t0 0 = 0"
  by (simp add: fp_value_def)

lemma fp_value_pos: "0 < p \<Longrightarrow> 0 < fp_value p t0 b \<longleftrightarrow> 0 < b"
  by (metis fp_value_0 fp_value_le_iff le_zero_eq not_le)

lemma fp_value_nonneg [simp]: "0 < p \<Longrightarrow> 0 \<le> fp_value p t0 b"
  using fp_value_le_iff [of p t0 0 b] by simp

section \<open>Lemmas: the formats\<close>

lemma f32_word_eqI:
  assumes "f32_is_neg a = f32_is_neg b" and "f32_mag a = f32_mag b"
  shows "a = b"
proof -
  have split: "unat w = (if f32_is_neg w then 2 ^ 31 else 0) + f32_mag w" for w :: f32
  proof -
    have "unat w < 2 ^ 32" using unsigned_less [of w] by simp
    then have "unat w mod 2 ^ 31 = unat w - 2 ^ 31" if "2 ^ 31 \<le> unat w"
      using that le_mod_geq [of "2 ^ 31" "unat w"] by simp
    then show ?thesis by (auto simp: f32_is_neg_def f32_mag_def)
  qed
  have "unat a = unat b" using split [of a] split [of b] assms by simp
  then show ?thesis by (rule word_unat_eq_iff [THEN iffD2])
qed

lemma unat_f32_mk: "unat (f32_mk s m) = (if s then 2 ^ 31 else 0) + min m 0x7F800000"
  unfolding f32_mk_def by (rule unat_of_nat_u32) (auto simp: min_def)

lemma f32_mk_simps [simp]:
  "f32_is_neg (f32_mk s m) \<longleftrightarrow> s" "f32_mag (f32_mk s m) = min m 0x7F800000"
  by (auto simp: f32_is_neg_def f32_mag_def unat_f32_mk)

lemma f32_mk_not_nan [simp]: "\<not> f32_is_nan (f32_mk s m)"
  by (simp add: f32_is_nan_def)

lemma f32_mag_less: "f32_mag w < 2 ^ 31"
  by (simp add: f32_mag_def)

lemma f32_mk_mag: "\<not> f32_is_nan w \<Longrightarrow> f32_mk (f32_is_neg w) (f32_mag w) = w"
  by (rule f32_word_eqI) (simp_all add: f32_is_nan_def)

lemma f32_NAN [simp]: "f32_is_nan F32_NAN"
  by (simp add: f32_is_nan_def f32_mag_def F32_NAN_def)

lemma f32_neg_simps [simp]: "f32_is_neg (f32_neg a) \<longleftrightarrow> \<not> f32_is_neg a" "f32_mag (f32_neg a) = f32_mag a"
proof -
  have "unat (f32_neg a) = (if f32_is_neg a then 0 else 2 ^ 31) + f32_mag a"
    using f32_mag_less [of a] unat_f32_mk [of _ 0]
    by (auto simp: f32_neg_def unat_word_ariths(1) unat_of_nat)
  then show "f32_is_neg (f32_neg a) \<longleftrightarrow> \<not> f32_is_neg a" "f32_mag (f32_neg a) = f32_mag a"
    using f32_mag_less [of a] by (auto simp: f32_is_neg_def f32_mag_def [of "f32_neg a"])
qed

lemma f32_neg_classes [simp]:
  "f32_is_nan (f32_neg a) \<longleftrightarrow> f32_is_nan a" "f32_is_inf (f32_neg a) \<longleftrightarrow> f32_is_inf a" "f32_val (f32_neg a) = - f32_val a"
  by (simp_all add: f32_is_nan_def f32_is_inf_def f32_val_def f32_abs_val_def)

lemma f32_inf_eqI: "f32_is_inf a \<Longrightarrow> f32_is_inf b \<Longrightarrow> f32_is_neg a = f32_is_neg b \<Longrightarrow> a = b"
  by (rule f32_word_eqI) (simp_all add: f32_is_inf_def)

lemma f32_add_commute: "f32_add a b = f32_add b a"
  by (auto simp: f32_add_def add.commute [of "f32_val a"] conj_commute [of "f32_is_neg a"] intro: f32_inf_eqI)

lemma f32_mul_commute: "f32_mul a b = f32_mul b a"
  unfolding f32_mul_def Let_def mult.commute [of "f32_abs_val a"] neq_commute [of "f32_is_neg a" "f32_is_neg b"] by auto

text \<open>The square of a difference does not depend on the order.\<close>

lemma f32_mul_same: "f32_mag a = f32_mag b \<Longrightarrow> f32_mul a a = f32_mul b b"
  by (simp add: f32_mul_def f32_is_nan_def f32_is_inf_def f32_abs_val_def)

lemma f32_sub_mag: "f32_mag (f32_sub a b) = f32_mag (f32_sub b a)"
proof -
  have "\<bar>f32_val a - f32_val b\<bar> = \<bar>f32_val b - f32_val a\<bar>" by (rule abs_minus_commute)
  then show ?thesis
    by (auto simp: f32_sub_def f32_add_def f32_of_rat_def) (simp_all add: f32_is_inf_def)
qed

lemma f32_one [simp]:
  "f32_mag 0x3F800000 = 0x3F800000" "\<not> f32_is_neg 0x3F800000" "f32_abs_val 0x3F800000 = 1"
  by (simp_all add: f32_mag_def f32_is_neg_def f32_abs_val_def fp_value_def)

lemma f32_mul_one: "\<not> f32_is_nan a \<Longrightarrow> f32_mul a 0x3F800000 = a"
proof -
  assume a: "\<not> f32_is_nan a"
  have "f32_mul a 0x3F800000 = f32_mk (f32_is_neg a) (f32_mag a)"
    using a by (simp add: f32_mul_def f32_is_nan_def f32_is_inf_def Let_def)
      (simp add: f32_abs_val_def fp_round_value)
  with f32_mk_mag [OF a] show ?thesis by simp
qed

lemma f32_not_nan_simps [simp]:
  "f32_is_inf a \<Longrightarrow> \<not> f32_is_nan a"
  by (simp add: f32_is_inf_def f32_is_nan_def)

text \<open>The order of the signed bits is the order of the values.\<close>

lemma fp_signed_le_iff:
  assumes "0 < p"
  shows "(if s then - int m else int m) \<le> (if s' then - int m' else int m') \<longleftrightarrow>
    (if s then - fp_value p t0 m else fp_value p t0 m) \<le> (if s' then - fp_value p t0 m' else fp_value p t0 m')"
proof -
  note nn = fp_value_nonneg [OF assms, of t0 m] fp_value_nonneg [OF assms, of t0 m']
  have zero: "fp_value p t0 x \<le> 0 \<longleftrightarrow> x = 0" for x
    using fp_value_le_iff [OF assms, of t0 x 0] by simp
  have "- fp_value p t0 m \<le> fp_value p t0 m'" using nn by linarith
  moreover have "fp_value p t0 m \<le> - fp_value p t0 m' \<longleftrightarrow> m = 0 \<and> m' = 0"
    using nn zero [of m] zero [of m'] by (auto; linarith)
  ultimately show ?thesis by (auto simp: fp_value_le_iff [OF assms])
qed

lemma f32_key_le_iff: "f32_key a \<le> f32_key b \<longleftrightarrow> f32_val a \<le> f32_val b"
  unfolding f32_key_def f32_val_def f32_abs_val_def by (rule fp_signed_le_iff) simp

lemma f64_key_le_iff:
  "\<not> f64_is_nan a \<Longrightarrow> \<not> f64_is_nan b \<Longrightarrow> f64_key a \<le> f64_key b \<longleftrightarrow> f64_val a \<le> f64_val b"
  unfolding f64_key_def f64_val_def if_False simp_thms using fp_signed_le_iff [of 53 _ "f64_mag a" _ "f64_mag b" 1074] by simp

section \<open>Lemmas: integers as doubles\<close>

lemma f64_mk_simps [simp]:
  "f64_is_neg (f64_mk s m) \<longleftrightarrow> s" "f64_mag (f64_mk s m) = min m 0x7FF0000000000000"
proof -
  have "unat (f64_mk s m) = (if s then 2 ^ 63 else 0) + min m 0x7FF0000000000000"
    unfolding f64_mk_def by (subst unat_of_nat) simp
  then show "f64_is_neg (f64_mk s m) \<longleftrightarrow> s" "f64_mag (f64_mk s m) = min m 0x7FF0000000000000"
    by (auto simp: f64_is_neg_def f64_mag_def)
qed

lemma f64_mk_not_nan [simp]: "\<not> f64_is_nan (f64_mk s m)"
  by (simp add: f64_is_nan_def)

lemma f64_of_int_mono: "i \<le> k \<Longrightarrow> f64_key (f64_of_int i) \<le> f64_key (f64_of_int k)"
proof -
  assume le: "i \<le> k"
  have mono: "x \<le> y \<Longrightarrow> fp_round 53 1074 x \<le> fp_round 53 1074 y" for x y :: rat
    by (rule fp_round_mono) simp_all
  have "fp_round 53 1074 \<bar>of_int i\<bar> \<le> fp_round 53 1074 \<bar>of_int k\<bar>" if "0 \<le> i"
    using that le by (intro mono) simp
  moreover have "fp_round 53 1074 \<bar>of_int k\<bar> \<le> fp_round 53 1074 \<bar>of_int i\<bar>" if "k < 0"
    using that le by (intro mono) simp
  ultimately show ?thesis using le
    by (auto simp: f64_key_def f64_of_int_def)
qed

lemma f64_of_int_exact:
  assumes "\<bar>i\<bar> \<le> 2 ^ 53"
  shows "f64_val (f64_of_int i) = of_int i"
proof (cases "i = 0")
  case True
  then show ?thesis by (simp add: f64_of_int_def f64_val_def fp_round_def)
next
  case False
  define x where "x = \<bar>of_int i :: rat\<bar>"
  let ?t = "max (rat_exp x - (int 53 - 1)) (- 1074)"
  have pos: "0 < x" using False by (simp add: x_def)
  have "x \<le> 2 powi 53" using assms unfolding x_def by simp
  have one: "1 \<le> x" using False by (simp add: x_def flip: of_int_abs)
  have ex: "0 \<le> rat_exp x" "rat_exp x \<le> 53"
    using powi_less_cancel [of 0 "rat_exp x + 1"] powi_less_cancel [of "rat_exp x" 54]
      rat_exp_bounds [OF pos] one \<open>x \<le> 2 powi 53\<close> by auto
  have t: "?t = rat_exp x - 52" using ex by simp
  have "\<exists>k. x / 2 powi ?t = of_int k"
  proof (cases "rat_exp x = 53")
    case True
    with rat_exp_bounds(1) [OF pos] \<open>x \<le> 2 powi 53\<close> have "x = 2 ^ 53" by simp
    then have "x / 2 powi ?t = of_int (2 ^ 52)" unfolding t True by simp
    then show ?thesis by blast
  next
    case False
    define n where "n = nat (52 - rat_exp x)"
    have "rat_exp x - 52 = - int n" using False ex by (simp add: n_def)
    then have "x / 2 powi ?t = x * 2 ^ n" unfolding t by (simp add: power_int_minus divide_inverse)
    then have "x / 2 powi ?t = of_int (\<bar>i\<bar> * 2 ^ n)" by (simp add: x_def)
    then show ?thesis by blast
  qed
  then have "fp_value 53 1074 (fp_round 53 1074 x) = x"
    using fp_round_exact [OF pos] by auto
  moreover have "fp_round 53 1074 x \<le> 0x7FF0000000000000"
  proof -
    have "0 < (53 :: nat)" by simp
    note c = fp_round_canonical(1,2) [OF pos this, of 1074, unfolded fp_canonical_def fp_pack_def]
    have "nat (?t + 1074) \<le> 1075" using ex by (simp add: t)
    then have "nat (?t + 1074) * 2 ^ 52 \<le> 1075 * 2 ^ 52" by (rule mult_le_mono1)
    with c show ?thesis by simp
  qed
  ultimately show ?thesis
    by (simp add: f64_of_int_def f64_val_def x_def [symmetric] min_def) (simp add: x_def)
qed

end
