(* ===== verification/Property_Index.thy ===== *)
theory Property_Index
  imports Prop_Store Floats
begin

text \<open>
  \<^verbatim>\<open>src/src/index/property/mod.rs\<close>: predicates and their evaluation to sets of nodes over equality
  and range indexes, and \<open>Value::as_f64\<close> of \<^verbatim>\<open>storage/prop_store.rs\<close>. A roaring bitmap is a set of
  \<open>u32\<close>, a B-tree map the list of its entries in ascending order. The crate has no code that fills
  the indexes, so what an index should hold is stated as \<open>pi_indexes\<close>.
\<close>

section \<open>Values as keys\<close>

fun val_as_f64 :: "val \<Rightarrow> f64" where
  "val_as_f64 (VInt v) = f64_of_int (sint v)"
| "val_as_f64 (VFloat v) = v"
| "val_as_f64 _ = 0"

datatype value_wrapper = WNull | WBool u8 | WInt "64 word" | WFloat f64 | WString rstring

fun value_wrapper_from :: "val \<Rightarrow> value_wrapper" where
  "value_wrapper_from Null = WNull"
| "value_wrapper_from (VBool b) = WBool (if b then 1 else 0)"
| "value_wrapper_from (VInt i) = WInt i"
| "value_wrapper_from (VFloat f) = WFloat f"
| "value_wrapper_from (VString s) = WString s"
| "value_wrapper_from (VList _) = WNull"
| "value_wrapper_from (VVector _) = WNull"

text \<open>Equality of the derived order: floats by \<open>OrderedFloat\<close>.\<close>

fun vw_same :: "value_wrapper \<Rightarrow> value_wrapper \<Rightarrow> bool" where
  "vw_same (WFloat a) (WFloat b) \<longleftrightarrow> f64_key a = f64_key b"
| "vw_same a b \<longleftrightarrow> a = b"

section \<open>Indexes and predicates\<close>

type_synonym label_prop = "rstring \<times> rstring"
type_synonym bitmap = "u32 set"

record property_index =
  pi_eq :: "label_prop \<rightharpoonup> (value_wrapper \<times> bitmap) list"
  pi_range :: "label_prop \<rightharpoonup> (f64 \<times> bitmap) list"

definition pi_new :: property_index where
  "pi_new = \<lparr>pi_eq = Map.empty, pi_range = Map.empty\<rparr>"

datatype predicate =
    PEq rstring rstring val
  | PGt rstring rstring val
  | PGte rstring rstring val
  | PLt rstring rstring val
  | PLte rstring rstring val
  | PIn rstring rstring "val list"
  | PAnd predicate predicate
  | POr predicate predicate
  | PNot predicate

section \<open>Evaluation\<close>

definition btree_get :: "value_wrapper \<Rightarrow> (value_wrapper \<times> 'a) list \<Rightarrow> 'a option" where
  "btree_get k m = map_option snd (find (\<lambda>e. vw_same (fst e) k) m)"

text \<open>
  \<open>BTreeMap::range\<close> panics (\<open>None\<close>) when its bounds are in the wrong order, unless the map never held
  an entry.
\<close>

definition btree_range :: "f64 \<Rightarrow> f64 \<Rightarrow> (f64 \<times> 'a) list \<Rightarrow> (f64 \<times> 'a) list option" where
  "btree_range lo hi m =
     (if m \<noteq> [] \<and> f64_key lo > f64_key hi then None
      else Some (filter (\<lambda>e. f64_key lo \<le> f64_key (fst e) \<and> f64_key (fst e) \<le> f64_key hi) m))"

definition range_scan :: "property_index \<Rightarrow> rstring \<Rightarrow> rstring \<Rightarrow> f64 \<Rightarrow> f64 \<Rightarrow> bitmap option" where
  "range_scan idx label prop lo hi =
     (case pi_range idx (label, prop) of
       None \<Rightarrow> Some {}
     | Some m \<Rightarrow> map_option (\<lambda>es. fold (\<lambda>e acc. acc \<union> snd e) es {}) (btree_range lo hi m))"

definition eval_eq :: "property_index \<Rightarrow> rstring \<Rightarrow> rstring \<Rightarrow> val \<Rightarrow> bitmap" where
  "eval_eq idx label prop v =
     (case pi_eq idx (label, prop) of
       None \<Rightarrow> {}
     | Some m \<Rightarrow> (case btree_get (value_wrapper_from v) m of None \<Rightarrow> {} | Some bm \<Rightarrow> bm))"

primrec evaluate :: "property_index \<Rightarrow> predicate \<Rightarrow> bitmap option" where
  "evaluate idx (PEq label prop v) = Some (eval_eq idx label prop v)"
| "evaluate idx (PGt label prop v) = range_scan idx label prop (val_as_f64 v) F64_MAX"
| "evaluate idx (PGte label prop v) = range_scan idx label prop (val_as_f64 v) F64_MAX"
| "evaluate idx (PLt label prop v) = range_scan idx label prop F64_MIN (val_as_f64 v)"
| "evaluate idx (PLte label prop v) = range_scan idx label prop F64_MIN (val_as_f64 v)"
| "evaluate idx (PIn label prop vs) = Some (foldl (\<lambda>a b. a \<union> b) {} (map (eval_eq idx label prop) vs))"
| "evaluate idx (PAnd a b) =
     (case evaluate idx a of None \<Rightarrow> None | Some x \<Rightarrow> (case evaluate idx b of None \<Rightarrow> None | Some y \<Rightarrow> Some (x \<inter> y)))"
| "evaluate idx (POr a b) =
     (case evaluate idx a of None \<Rightarrow> None | Some x \<Rightarrow> (case evaluate idx b of None \<Rightarrow> None | Some y \<Rightarrow> Some (x \<union> y)))"
| "evaluate idx (PNot a) = Some {}"

section \<open>What predicates mean\<close>

text \<open>
  The meaning of predicates on the data, without the conversions of the code: \<open>g i lp\<close> is the value of node
  \<open>i\<close> for a label and property, if it has one. Equality is that of the type \<open>Value\<close> (floats as \<open>OrderedFloat\<close>
  compares them) on the values that the code calls indexable, and bounds compare numbers.
\<close>

fun val_eq :: "val \<Rightarrow> val \<Rightarrow> bool" where
  "val_eq Null Null \<longleftrightarrow> True"
| "val_eq (VBool a) (VBool b) \<longleftrightarrow> a = b"
| "val_eq (VInt a) (VInt b) \<longleftrightarrow> a = b"
| "val_eq (VFloat a) (VFloat b) \<longleftrightarrow> f64_key a = f64_key b"
| "val_eq (VString a) (VString b) \<longleftrightarrow> a = b"
| "val_eq _ _ \<longleftrightarrow> False"

definition indexable :: "val \<Rightarrow> bool" where
  "indexable v = (case v of VList _ \<Rightarrow> False | VVector _ \<Rightarrow> False | _ \<Rightarrow> True)"

definition num_of :: "val \<Rightarrow> rat option" where
  "num_of v = (case v of VInt a \<Rightarrow> Some (of_int (sint a))
     | VFloat f \<Rightarrow> if f64_is_nan f \<or> f64_is_inf f then None else Some (f64_val f) | _ \<Rightarrow> None)"

definition num_at :: "(u32 \<Rightarrow> label_prop \<Rightarrow> val option) \<Rightarrow> u32 \<Rightarrow> label_prop \<Rightarrow> (rat \<Rightarrow> bool) \<Rightarrow> bool" where
  "num_at g i lp P \<longleftrightarrow> (\<exists>x q. g i lp = Some x \<and> num_of x = Some q \<and> P q)"

definition val_at :: "(u32 \<Rightarrow> label_prop \<Rightarrow> val option) \<Rightarrow> u32 \<Rightarrow> label_prop \<Rightarrow> val \<Rightarrow> bool" where
  "val_at g i lp v \<longleftrightarrow> (\<exists>x. g i lp = Some x \<and> val_eq x v)"

primrec satisfies :: "(u32 \<Rightarrow> label_prop \<Rightarrow> val option) \<Rightarrow> u32 \<Rightarrow> predicate \<Rightarrow> bool" where
  "satisfies g i (PEq l p v) \<longleftrightarrow> val_at g i (l, p) v"
| "satisfies g i (PGt l p v) \<longleftrightarrow> (\<exists>b. num_of v = Some b \<and> num_at g i (l, p) (\<lambda>q. b < q))"
| "satisfies g i (PGte l p v) \<longleftrightarrow> (\<exists>b. num_of v = Some b \<and> num_at g i (l, p) (\<lambda>q. b \<le> q))"
| "satisfies g i (PLt l p v) \<longleftrightarrow> (\<exists>b. num_of v = Some b \<and> num_at g i (l, p) (\<lambda>q. q < b))"
| "satisfies g i (PLte l p v) \<longleftrightarrow> (\<exists>b. num_of v = Some b \<and> num_at g i (l, p) (\<lambda>q. q \<le> b))"
| "satisfies g i (PIn l p vs) \<longleftrightarrow> (\<exists>v\<in>set vs. val_at g i (l, p) v)"
| "satisfies g i (PAnd a b) \<longleftrightarrow> satisfies g i a \<and> satisfies g i b"
| "satisfies g i (POr a b) \<longleftrightarrow> satisfies g i a \<or> satisfies g i b"
| "satisfies g i (PNot a) \<longleftrightarrow> \<not> satisfies g i a"

text \<open>
  An index of \<open>g\<close>, as whoever fills it has to keep it: under each key the nodes with an indexable value, or
  a number, of that key, and a key for every such value that occurs.
\<close>

definition is_number :: "val \<Rightarrow> bool" where
  "is_number v = (case v of VInt _ \<Rightarrow> True | VFloat _ \<Rightarrow> True | _ \<Rightarrow> False)"

definition key_at :: "(u32 \<Rightarrow> label_prop \<Rightarrow> val option) \<Rightarrow> u32 \<Rightarrow> label_prop \<Rightarrow> (int \<Rightarrow> bool) \<Rightarrow> bool" where
  "key_at g i lp P \<longleftrightarrow> (\<exists>v. g i lp = Some v \<and> is_number v \<and> P (f64_key (val_as_f64 v)))"

definition pi_indexes :: "property_index \<Rightarrow> (u32 \<Rightarrow> label_prop \<Rightarrow> val option) \<Rightarrow> bool" where
  "pi_indexes idx g \<longleftrightarrow>
     (\<forall>lp. let m = (case pi_eq idx lp of None \<Rightarrow> [] | Some m \<Rightarrow> m) in
       (\<forall>e\<in>set m. snd e = {i. \<exists>v. g i lp = Some v \<and> indexable v \<and> vw_same (value_wrapper_from v) (fst e)}) \<and>
       (\<forall>i v. g i lp = Some v \<and> indexable v \<longrightarrow> (\<exists>e\<in>set m. vw_same (value_wrapper_from v) (fst e)))) \<and>
     (\<forall>lp. let m = (case pi_range idx lp of None \<Rightarrow> [] | Some m \<Rightarrow> m) in
       (\<forall>e\<in>set m. snd e = {i. key_at g i lp (\<lambda>k. k = f64_key (fst e))}) \<and>
       (\<forall>i v. g i lp = Some v \<and> is_number v \<longrightarrow> (\<exists>e\<in>set m. f64_key (val_as_f64 v) = f64_key (fst e))))"

text \<open>Numbers that the conversion to a double keeps: integers up to \<open>2 ^ 53\<close> in absolute value, and finite floats.\<close>

definition exact_number :: "val \<Rightarrow> bool" where
  "exact_number v = (case v of VInt a \<Rightarrow> \<bar>sint a\<bar> \<le> 2 ^ 53 | VFloat f \<Rightarrow> \<not> f64_is_nan f \<and> \<not> f64_is_inf f | _ \<Rightarrow> True)"

definition exact_data :: "(u32 \<Rightarrow> label_prop \<Rightarrow> val option) \<Rightarrow> bool" where
  "exact_data g \<longleftrightarrow> (\<forall>i lp v. g i lp = Some v \<longrightarrow> exact_number v)"

text \<open>Predicates without negation and strict bounds, whose values are indexable and whose bounds are such numbers.\<close>

definition exact_bound :: "val \<Rightarrow> bool" where
  "exact_bound v \<longleftrightarrow> is_number v \<and> exact_number v"

primrec plain :: "predicate \<Rightarrow> bool" where
  "plain (PEq l p v) \<longleftrightarrow> indexable v"
| "plain (PGt l p v) \<longleftrightarrow> False"
| "plain (PGte l p v) \<longleftrightarrow> exact_bound v"
| "plain (PLt l p v) \<longleftrightarrow> False"
| "plain (PLte l p v) \<longleftrightarrow> exact_bound v"
| "plain (PIn l p vs) \<longleftrightarrow> (\<forall>v\<in>set vs. indexable v)"
| "plain (PAnd a b) \<longleftrightarrow> plain a \<and> plain b"
| "plain (POr a b) \<longleftrightarrow> plain a \<and> plain b"
| "plain (PNot a) \<longleftrightarrow> False"

section \<open>Lemmas\<close>

lemma vw_same_refl [simp]: "vw_same a a"
  by (cases a) simp_all

lemma vw_same_sym: "vw_same a b \<Longrightarrow> vw_same b a"
  by (cases "(a, b)" rule: vw_same.cases) simp_all

lemma vw_same_trans: "vw_same a b \<Longrightarrow> vw_same b c \<Longrightarrow> vw_same a c"
  by (cases a; cases b; cases c) simp_all

text \<open>The finite doubles are those between \<open>f64::MIN\<close> and \<open>f64::MAX\<close>.\<close>

lemma f64_key_bounds [simp]: "f64_key F64_MAX = 0x7FEFFFFFFFFFFFFF" "f64_key F64_MIN = - 0x7FEFFFFFFFFFFFFF"
  by (simp_all add: f64_key_def f64_is_nan_def f64_is_neg_def f64_mag_def F64_MAX_def F64_MIN_def)

lemma f64_finite_iff:
  "\<not> f64_is_nan w \<and> \<not> f64_is_inf w \<longleftrightarrow> f64_key F64_MIN \<le> f64_key w \<and> f64_key w \<le> f64_key F64_MAX"
  by (auto simp: f64_key_def [of w] f64_is_nan_def f64_is_inf_def)

text \<open>On indexable values the keys are equal exactly when the values are.\<close>

lemma vw_same_from:
  "indexable x \<Longrightarrow> indexable v \<Longrightarrow> vw_same (value_wrapper_from x) (value_wrapper_from v) \<longleftrightarrow> val_eq x v"
  by (cases x; cases v) (auto simp: indexable_def)

lemma val_eq_indexable: "val_eq x v \<Longrightarrow> indexable x"
  by (cases "(x, v)" rule: val_eq.cases) (simp_all add: indexable_def)

lemma eval_eq_correct:
  assumes "pi_indexes idx g" and "indexable v"
  shows "eval_eq idx l p v = {i. val_at g i (l, p) v}"
proof -
  define m where "m = (case pi_eq idx (l, p) of None \<Rightarrow> [] | Some m \<Rightarrow> m)"
  let ?k = "value_wrapper_from v"
  have at: "val_at g i (l, p) v \<longleftrightarrow> (\<exists>x. g i (l, p) = Some x \<and> indexable x \<and> vw_same (value_wrapper_from x) ?k)" for i
    using vw_same_from [OF _ assms(2)] val_eq_indexable unfolding val_at_def by blast
  have entry: "\<And>e. e \<in> set m \<Longrightarrow> snd e = {i. \<exists>v. g i (l, p) = Some v \<and> indexable v \<and> vw_same (value_wrapper_from v) (fst e)}"
    and key: "\<And>i v. g i (l, p) = Some v \<Longrightarrow> indexable v \<Longrightarrow> \<exists>e\<in>set m. vw_same (value_wrapper_from v) (fst e)"
    using assms(1) by (auto simp: pi_indexes_def Let_def m_def)
  have eval: "eval_eq idx l p v = (case find (\<lambda>e. vw_same (fst e) ?k) m of None \<Rightarrow> {} | Some e \<Rightarrow> snd e)"
    by (simp add: eval_eq_def btree_get_def m_def split: option.splits)
  show ?thesis
  proof (cases "find (\<lambda>e. vw_same (fst e) ?k) m")
    case None
    then have "\<not> val_at g i (l, p) v" for i
      using key vw_same_sym vw_same_trans unfolding at find_None_iff by meson
    with None eval show ?thesis by simp
  next
    case (Some e)
    then have e: "e \<in> set m" "vw_same (fst e) ?k" by (auto simp: find_Some_iff)
    have "(\<exists>x. g i (l, p) = Some x \<and> indexable x \<and> vw_same (value_wrapper_from x) (fst e)) \<longleftrightarrow> val_at g i (l, p) v" for i
      using e(2) vw_same_sym vw_same_trans unfolding at by meson
    with Some eval entry [OF e(1)] show ?thesis by simp
  qed
qed

lemma fold_union: "fold (\<lambda>e acc. acc \<union> snd e) es acc = acc \<union> (\<Union>e\<in>set es. snd e)"
  by (induction es arbitrary: acc) auto

lemma foldl_union: "foldl (\<lambda>a b. a \<union> b) acc xs = acc \<union> \<Union> (set xs)"
  by (induction xs arbitrary: acc) auto

lemma range_scan_correct:
  assumes "pi_indexes idx g" and "f64_key lo \<le> f64_key hi"
  shows "range_scan idx l p lo hi = Some {i. key_at g i (l, p) (\<lambda>k. f64_key lo \<le> k \<and> k \<le> f64_key hi)}"
proof -
  define m where "m = (case pi_range idx (l, p) of None \<Rightarrow> [] | Some m \<Rightarrow> m)"
  have entry: "\<And>e. e \<in> set m \<Longrightarrow> snd e = {i. key_at g i (l, p) (\<lambda>k. k = f64_key (fst e))}"
    and key: "\<And>i v. g i (l, p) = Some v \<Longrightarrow> is_number v \<Longrightarrow> \<exists>e\<in>set m. f64_key (val_as_f64 v) = f64_key (fst e)"
    using assms(1) by (auto simp: pi_indexes_def Let_def m_def)
  have "range_scan idx l p lo hi =
      Some (\<Union>e\<in>set (filter (\<lambda>e. f64_key lo \<le> f64_key (fst e) \<and> f64_key (fst e) \<le> f64_key hi) m). snd e)"
    using assms(2) by (simp add: range_scan_def btree_range_def fold_union m_def split: option.split)
  moreover have "(\<exists>e\<in>set m. (f64_key lo \<le> f64_key (fst e) \<and> f64_key (fst e) \<le> f64_key hi) \<and> i \<in> snd e) \<longleftrightarrow>
      key_at g i (l, p) (\<lambda>k. f64_key lo \<le> k \<and> k \<le> f64_key hi)" for i
  proof
    assume "\<exists>e\<in>set m. (f64_key lo \<le> f64_key (fst e) \<and> f64_key (fst e) \<le> f64_key hi) \<and> i \<in> snd e"
    then obtain e where "e \<in> set m" "f64_key lo \<le> f64_key (fst e)" "f64_key (fst e) \<le> f64_key hi" "i \<in> snd e" by blast
    with entry show "key_at g i (l, p) (\<lambda>k. f64_key lo \<le> k \<and> k \<le> f64_key hi)" by (auto simp: key_at_def)
  next
    assume "key_at g i (l, p) (\<lambda>k. f64_key lo \<le> k \<and> k \<le> f64_key hi)"
    then obtain v where v: "g i (l, p) = Some v" "is_number v"
      "f64_key lo \<le> f64_key (val_as_f64 v)" "f64_key (val_as_f64 v) \<le> f64_key hi" by (auto simp: key_at_def)
    then obtain e where e: "e \<in> set m" "f64_key (val_as_f64 v) = f64_key (fst e)" using key by blast
    then have "i \<in> snd e" using v entry by (auto simp: key_at_def)
    with e v show "\<exists>e\<in>set m. (f64_key lo \<le> f64_key (fst e) \<and> f64_key (fst e) \<le> f64_key hi) \<and> i \<in> snd e" by auto
  qed
  ultimately show ?thesis by auto
qed

text \<open>For the numbers that a double holds exactly, the keys are ordered as the numbers are, and none is beyond the scan.\<close>

lemma fp_round_2_53: "fp_round 53 1074 (2 ^ 53) = 0x4340000000000000"
  by code_simp

lemma f64_int_key_bounds:
  "f64_key F64_MIN \<le> f64_key (f64_of_int (- (2 ^ 53)))" "f64_key (f64_of_int (2 ^ 53)) \<le> f64_key F64_MAX"
  using fp_round_2_53
  by (simp_all add: f64_of_int_def f64_key_def F64_MAX_def F64_MIN_def f64_is_nan_def f64_is_neg_def f64_mag_def f64_mk_def)

lemma exact_num:
  assumes "is_number v" and "exact_number v"
  shows "\<not> f64_is_nan (val_as_f64 v)" and "num_of v = Some (f64_val (val_as_f64 v))"
    and "f64_key F64_MIN \<le> f64_key (val_as_f64 v)" and "f64_key (val_as_f64 v) \<le> f64_key F64_MAX"
proof -
  have "\<not> f64_is_nan (val_as_f64 v) \<and> num_of v = Some (f64_val (val_as_f64 v)) \<and>
    f64_key F64_MIN \<le> f64_key (val_as_f64 v) \<and> f64_key (val_as_f64 v) \<le> f64_key F64_MAX"
  proof (cases v)
    case (VInt a)
    then have "- (2 ^ 53) \<le> sint a" "sint a \<le> 2 ^ 53" using assms(2) by (auto simp: exact_number_def)
    from f64_of_int_mono [OF this(1)] f64_of_int_mono [OF this(2)] f64_int_key_bounds VInt assms(2)
    show ?thesis by (simp add: num_of_def exact_number_def f64_of_int_exact del: f64_key_bounds) (simp add: f64_of_int_def)
  next
    case (VFloat f)
    with assms(2) f64_finite_iff [of f] show ?thesis
      by (simp add: num_of_def exact_number_def del: f64_key_bounds)
  qed (use assms(1) in \<open>simp_all add: is_number_def\<close>)
  then show "\<not> f64_is_nan (val_as_f64 v)" and "num_of v = Some (f64_val (val_as_f64 v))"
    and "f64_key F64_MIN \<le> f64_key (val_as_f64 v)" and "f64_key (val_as_f64 v) \<le> f64_key F64_MAX" by blast+
qed

lemma exact_key_le:
  assumes "exact_bound v" and "exact_bound w"
  shows "f64_key (val_as_f64 v) \<le> f64_key (val_as_f64 w) \<longleftrightarrow> the (num_of v) \<le> the (num_of w)"
  using assms exact_num [of v] exact_num [of w] by (simp add: exact_bound_def f64_key_le_iff)

lemma num_of_number: "num_of v = Some q \<Longrightarrow> is_number v"
  by (cases v) (simp_all add: num_of_def is_number_def)

lemma num_at_key:
  assumes "exact_data g"
  shows "num_at g i lp P \<longleftrightarrow> (\<exists>x. g i lp = Some x \<and> exact_bound x \<and> P (the (num_of x)))"
proof
  assume "num_at g i lp P"
  then obtain x q where "g i lp = Some x" "num_of x = Some q" "P q" by (auto simp: num_at_def)
  moreover from this(1) assms have "exact_number x" unfolding exact_data_def by blast
  ultimately show "\<exists>x. g i lp = Some x \<and> exact_bound x \<and> P (the (num_of x))"
    using num_of_number [of x q] by (auto simp: exact_bound_def)
next
  assume "\<exists>x. g i lp = Some x \<and> exact_bound x \<and> P (the (num_of x))"
  with exact_num(2) show "num_at g i lp P" by (auto simp: num_at_def exact_bound_def)
qed

lemma key_at_exact:
  assumes "exact_data g"
  shows "key_at g i lp P \<longleftrightarrow> (\<exists>x. g i lp = Some x \<and> exact_bound x \<and> P (f64_key (val_as_f64 x)))"
  using assms unfolding key_at_def exact_bound_def exact_data_def by blast

lemma evaluate_lower:
  assumes "pi_indexes idx g" and "exact_data g" and "exact_bound v"
  shows "range_scan idx l p (val_as_f64 v) F64_MAX = Some {i. num_at g i (l, p) (\<lambda>q. the (num_of v) \<le> q)}"
proof -
  have "f64_key (val_as_f64 v) \<le> f64_key F64_MAX" using assms(3) exact_num(4) by (simp add: exact_bound_def del: f64_key_bounds)
  moreover have "key_at g i (l, p) (\<lambda>k. f64_key (val_as_f64 v) \<le> k \<and> k \<le> f64_key F64_MAX) \<longleftrightarrow>
      num_at g i (l, p) (\<lambda>q. the (num_of v) \<le> q)" for i
    unfolding key_at_exact [OF assms(2)] num_at_key [OF assms(2)]
    using exact_key_le [OF assms(3)] exact_num(4) unfolding exact_bound_def by blast
  ultimately show ?thesis using range_scan_correct [OF assms(1), of "val_as_f64 v" F64_MAX] by (simp del: f64_key_bounds)
qed

lemma evaluate_upper:
  assumes "pi_indexes idx g" and "exact_data g" and "exact_bound v"
  shows "range_scan idx l p F64_MIN (val_as_f64 v) = Some {i. num_at g i (l, p) (\<lambda>q. q \<le> the (num_of v))}"
proof -
  have "f64_key F64_MIN \<le> f64_key (val_as_f64 v)" using assms(3) exact_num(3) by (simp add: exact_bound_def del: f64_key_bounds)
  moreover have "key_at g i (l, p) (\<lambda>k. f64_key F64_MIN \<le> k \<and> k \<le> f64_key (val_as_f64 v)) \<longleftrightarrow>
      num_at g i (l, p) (\<lambda>q. q \<le> the (num_of v))" for i
    unfolding key_at_exact [OF assms(2)] num_at_key [OF assms(2)]
    using exact_key_le [OF _ assms(3)] exact_num(3) unfolding exact_bound_def by blast
  ultimately show ?thesis using range_scan_correct [OF assms(1), of F64_MIN "val_as_f64 v"] by (simp del: f64_key_bounds)
qed

lemma exact_bound_num: "exact_bound v \<Longrightarrow> \<exists>b. num_of v = Some b"
  using exact_num(2) by (auto simp: exact_bound_def)

lemma evaluate_correct:
  assumes "pi_indexes idx g" and "exact_data g" and "plain pred"
  shows "evaluate idx pred = Some {i. satisfies g i pred}"
  using assms(3)
proof (induction pred)
  case (PIn l p vs)
  then show ?case using eval_eq_correct [OF assms(1)] by (auto simp: foldl_union)
next
  case (PGte l p v)
  with exact_bound_num [of v] show ?case by (auto simp: evaluate_lower [OF assms(1,2)])
next
  case (PLte l p v)
  with exact_bound_num [of v] show ?case by (auto simp: evaluate_upper [OF assms(1,2)])
qed (auto simp: eval_eq_correct [OF assms(1)])

section \<open>Conjunctions\<close>

text \<open>
  What the query builder relies on: the evaluation of a conjunction is the intersection of the evaluations,
  and panics when one of them does.
\<close>

locale conjunctive =
  fixes eval :: "'p \<Rightarrow> 'n set option" and conj :: "'p \<Rightarrow> 'p \<Rightarrow> 'p"
  assumes eval_conj: "eval (conj a b) =
    (case eval a of None \<Rightarrow> None | Some x \<Rightarrow> (case eval b of None \<Rightarrow> None | Some y \<Rightarrow> Some (x \<inter> y)))"
begin

lemma eval_foldl:
  "eval (foldl conj p ps) =
     (if \<exists>q\<in>set (p # ps). eval q = None then None else Some (\<Inter>q\<in>set (p # ps). the (eval q)))"
proof (induction ps rule: rev_induct)
  case Nil
  then show ?case by auto
next
  case (snoc q ps)
  then show ?case by (auto simp: eval_conj split: option.splits)
qed

end

interpretation pe: conjunctive "evaluate idx" PAnd for idx
  by unfold_locales simp

section \<open>Example\<close>

definition pi_example_data :: "u32 \<Rightarrow> label_prop \<Rightarrow> val option" where
  "pi_example_data i lp =
     (if lp = ([0x41], [0x78]) then (if i = 1 then Some (VInt 5) else if i = 2 then Some (VInt 7) else None) else None)"

definition pi_example :: property_index where
  "pi_example =
     \<lparr>pi_eq = [([0x41], [0x78]) \<mapsto> [(WInt 5, {1}), (WInt 7, {2})]],
      pi_range = [([0x41], [0x78]) \<mapsto> [(0x4014000000000000, {1}), (0x401C000000000000, {2})]]\<rparr>"

lemma pi_example_floats [simp]:
  "f64_of_int 5 = 0x4014000000000000" "f64_of_int 7 = 0x401C000000000000"
  by code_simp+

lemma pi_example_keys [simp]:
  "f64_key 0x4014000000000000 = 0x4014000000000000" "f64_key 0x401C000000000000 = 0x401C000000000000"
  "\<not> f64_is_nan 0x4014000000000000" "\<not> f64_is_nan 0x401C000000000000"
  "\<not> f64_is_inf 0x4014000000000000" "\<not> f64_is_inf 0x401C000000000000"
  by (simp_all add: f64_key_def f64_is_nan_def f64_is_inf_def f64_is_neg_def f64_mag_def)

lemma sint_small_u64 [simp]: "sint (5 :: 64 word) = 5" "sint (7 :: 64 word) = 7"
  by (simp_all add: signed_take_bit_int_eq_self)

lemma pi_example_indexes: "pi_indexes pi_example pi_example_data"
  by (auto simp: pi_indexes_def pi_example_def pi_example_data_def key_at_def is_number_def indexable_def Let_def split: if_splits)
    (rule exI [of _ "0x401C000000000000"], simp, rule exI [of _ "0x4014000000000000"], simp)

lemma pi_example_exact: "exact_data pi_example_data"
  by (simp add: exact_data_def pi_example_data_def exact_number_def)

section \<open>Properties\<close>

text \<open>
  C11. Evaluation is correct for predicates built from equality, membership, inclusive bounds,
  conjunction and disjunction, where the values compared with are not lists or vectors and the bounds are
  numbers: on an index of the data it does not panic and returns exactly the nodes whose values satisfy the
  predicate, equality being that of values and bounds comparing numbers. Integers, in the data
  and as bounds, are up to \<open>2 ^ 53\<close> in absolute value, and floats finite. What an index of the data holds
  (\<open>pi_indexes\<close>) is a contract for the caller, since no code of the crate fills one.
\<close>

theorem predicate_evaluate_correct:
  assumes "pi_indexes idx g" and "exact_data g" and "plain pred"
  shows "evaluate idx pred = Some {i. satisfies g i pred}"
  by (rule evaluate_correct [OF assms])

theorem predicate_evaluate_correct_witness:
  "evaluate pi_example (PAnd (PGte [0x41] [0x78] (VInt 5)) (PIn [0x41] [0x78] [VInt 7, Null])) = Some {2}"
proof -
  let ?p = "PAnd (PGte [0x41] [0x78] (VInt 5)) (PIn [0x41] [0x78] [VInt 7, Null])"
  have "plain ?p" by (simp add: exact_bound_def exact_number_def is_number_def indexable_def)
  moreover have "{i. satisfies pi_example_data i ?p} = {2}"
    by (auto simp: pi_example_data_def val_at_def num_at_def num_of_def split: if_splits)
  ultimately show ?thesis using predicate_evaluate_correct [OF pi_example_indexes pi_example_exact] by metis
qed

text \<open>
  Strict bounds and negation are not what they say: a node whose number equals the bound is in
  the result for \<open>Gt\<close> and \<open>Lt\<close> although it does not satisfy them, and the negation of such a
  predicate, which the node does satisfy, evaluates to no node at all.
\<close>

theorem predicate_strict_includes_bound:
  assumes "pi_indexes idx g" and "exact_data g" and "exact_bound v" and "g i (l, p) = Some x" and "num_of x = num_of v"
  shows "(\<exists>bm. evaluate idx (PGt l p v) = Some bm \<and> i \<in> bm) \<and> \<not> satisfies g i (PGt l p v) \<and>
    (\<exists>bm. evaluate idx (PLt l p v) = Some bm \<and> i \<in> bm) \<and> \<not> satisfies g i (PLt l p v) \<and>
    satisfies g i (PNot (PGt l p v)) \<and> evaluate idx (PNot (PGt l p v)) = Some {}"
  using assms(4,5) exact_bound_num [OF assms(3)]
  by (auto simp: evaluate_lower [OF assms(1-3)] evaluate_upper [OF assms(1-3)] num_at_def)

theorem predicate_strict_includes_bound_witness:
  "\<exists>bm. evaluate pi_example (PGt [0x41] [0x78] (VInt 5)) = Some bm \<and> 1 \<in> bm"
  using predicate_strict_includes_bound [OF pi_example_indexes pi_example_exact, of "VInt 5" 1 "[0x41]" "[0x78]" "VInt 5"]
  by (simp add: exact_bound_def exact_number_def pi_example_data_def is_number_def)

text \<open>
  Bounds that make evaluation panic: a comparison on a range index that holds an entry panics
  exactly when the bound is undefined or positive infinity for \<open>Gt\<close> and \<open>Gte\<close>, and exactly when it
  is negative infinity for \<open>Lt\<close> and \<open>Lte\<close>. Equality and membership never panic.
\<close>

theorem predicate_range_panics:
  assumes "pi_range idx (l, p) = Some m" and "m \<noteq> []"
  shows "(evaluate idx (PGt l p v) = None \<longleftrightarrow>
      f64_is_nan (val_as_f64 v) \<or> (f64_is_inf (val_as_f64 v) \<and> \<not> f64_is_neg (val_as_f64 v))) \<and>
    (evaluate idx (PLt l p v) = None \<longleftrightarrow>
      \<not> f64_is_nan (val_as_f64 v) \<and> f64_is_inf (val_as_f64 v) \<and> f64_is_neg (val_as_f64 v)) \<and>
    evaluate idx (PGte l p v) = evaluate idx (PGt l p v) \<and> evaluate idx (PLte l p v) = evaluate idx (PLt l p v) \<and>
    evaluate idx (PEq l p v) \<noteq> None \<and> evaluate idx (PIn l p vs) \<noteq> None"
proof -
  have "f64_key F64_MAX < f64_key w \<longleftrightarrow> f64_is_nan w \<or> (f64_is_inf w \<and> \<not> f64_is_neg w)" for w
    by (auto simp: f64_key_def [of w] f64_is_nan_def f64_is_inf_def)
  moreover have "f64_key w < f64_key F64_MIN \<longleftrightarrow> \<not> f64_is_nan w \<and> f64_is_inf w \<and> f64_is_neg w" for w
    by (auto simp: f64_key_def [of w] f64_is_nan_def f64_is_inf_def)
  ultimately show ?thesis
    using assms by (simp add: range_scan_def btree_range_def del: f64_key_bounds)
qed

theorem predicate_range_panics_witness:
  "evaluate pi_example (PGt [0x41] [0x78] (VFloat 0x7FF0000000000000)) = None"
proof -
  have "pi_range pi_example ([0x41], [0x78]) = Some [(0x4014000000000000, {1}), (0x401C000000000000, {2})]"
    by (simp add: pi_example_def)
  from predicate_range_panics [OF this, of "VFloat 0x7FF0000000000000"] show ?thesis
    by (simp only: val_as_f64.simps) (simp add: f64_is_nan_def f64_is_inf_def f64_is_neg_def f64_mag_def)
qed

text \<open>
  Integers as range keys: the conversion to a double keeps the order of integers, and up to
  \<open>2 ^ 53\<close> in absolute value it is exact and tells them apart, so bounds on such integers compare as
  integers do.
\<close>

theorem int_as_f64_order:
  "(sint a \<le> sint b \<longrightarrow> f64_key (val_as_f64 (VInt a)) \<le> f64_key (val_as_f64 (VInt b))) \<and>
   (\<bar>sint a\<bar> \<le> 2 ^ 53 \<and> \<bar>sint b\<bar> \<le> 2 ^ 53 \<longrightarrow>
     f64_val (val_as_f64 (VInt a)) = of_int (sint a) \<and>
     (f64_key (val_as_f64 (VInt a)) \<le> f64_key (val_as_f64 (VInt b)) \<longleftrightarrow> sint a \<le> sint b))"
proof -
  have "\<not> f64_is_nan (f64_of_int i)" for i by (simp add: f64_of_int_def)
  then have "\<bar>i\<bar> \<le> 2 ^ 53 \<Longrightarrow> \<bar>k\<bar> \<le> 2 ^ 53 \<Longrightarrow> f64_key (f64_of_int i) \<le> f64_key (f64_of_int k) \<longleftrightarrow> i \<le> k" for i k
    by (simp add: f64_key_le_iff f64_of_int_exact)
  then show ?thesis using f64_of_int_mono f64_of_int_exact [of "sint a"] by simp
qed

theorem int_as_f64_order_witness:
  "f64_key (val_as_f64 (VInt 5)) \<le> f64_key (val_as_f64 (VInt 7)) \<and> f64_val (val_as_f64 (VInt 5)) = 5"
  using int_as_f64_order [of 5 7] by simp

end
