(* ===== verification/Analyzer.thy ===== *)
theory Analyzer
  imports LG_Prelude
begin

text \<open>
  \<^verbatim>\<open>src/src/index/fulltext/analyzer.rs\<close>: the tokenizer of the full-text index. A character is its code
  point. What Rust's Unicode tables say of characters is a parameter.
\<close>

section \<open>Characters and tokens\<close>

type_synonym rchar = nat

record unicode =
  u_alphabetic :: "rchar \<Rightarrow> bool"
  u_numeric :: "rchar \<Rightarrow> bool"
  u_lower :: "rchar \<Rightarrow> rchar list"

definition is_cjk :: "rchar \<Rightarrow> bool" where
  "is_cjk c \<longleftrightarrow>
     (0x4E00 \<le> c \<and> c \<le> 0x9FFF) \<or> (0x3400 \<le> c \<and> c \<le> 0x4DBF) \<or> (0xF900 \<le> c \<and> c \<le> 0xFAFF) \<or>
     (0x3040 \<le> c \<and> c \<le> 0x309F) \<or> (0x30A0 \<le> c \<and> c \<le> 0x30FF) \<or> (0xAC00 \<le> c \<and> c \<le> 0xD7AF)"

record token =
  tk_term :: "rchar list"
  tk_position :: u32

section \<open>Tokenizing\<close>

text \<open>The loop on the characters from index \<open>i\<close> on, with \<open>pos\<close> the next position.\<close>

function tokenize_loop :: "unicode \<Rightarrow> u32 \<Rightarrow> rchar list \<Rightarrow> token list" where
  "tokenize_loop u pos [] = []"
| "tokenize_loop u pos (c # rest) =
     (if is_cjk c then
        if rest \<noteq> [] \<and> is_cjk (hd rest)
        then \<lparr>tk_term = [c, hd rest], tk_position = pos\<rparr> # \<lparr>tk_term = [c], tk_position = pos + 1\<rparr> #
          tokenize_loop u (pos + 1 + 1) rest
        else \<lparr>tk_term = [c], tk_position = pos\<rparr> # tokenize_loop u (pos + 1) rest
      else if u_alphabetic u c then
        \<lparr>tk_term = concat (map (u_lower u) (takeWhile (u_alphabetic u) (c # rest))), tk_position = pos\<rparr> #
          tokenize_loop u (pos + 1) (dropWhile (u_alphabetic u) (c # rest))
      else if u_numeric u c then
        \<lparr>tk_term = takeWhile (u_numeric u) (c # rest), tk_position = pos\<rparr> #
          tokenize_loop u (pos + 1) (dropWhile (u_numeric u) (c # rest))
      else tokenize_loop u pos rest)"
  by pat_completeness auto
termination
  by (relation "measure (\<lambda>(u, pos, cs). length cs)") (auto simp: le_imp_less_Suc length_dropWhile_le)

text \<open>
  Each token moves the position on by one; the last step is past \<open>u32::MAX\<close> when there are \<open>2 ^ 32\<close>
  tokens or more, which panics (\<open>None\<close>) in a build with overflow checks.
\<close>

definition tokenize :: "unicode \<Rightarrow> bool \<Rightarrow> rchar list \<Rightarrow> token list option" where
  "tokenize u checks chars =
     (let tokens = tokenize_loop u 0 chars in if checks \<and> length tokens \<ge> 2 ^ 32 then None else Some tokens)"

section \<open>Lemmas\<close>

abbreviation terms :: "unicode \<Rightarrow> rchar list \<Rightarrow> rchar list list" where
  "terms u cs \<equiv> map tk_term (tokenize_loop u 0 cs)"

lemma terms_pos: "map tk_term (tokenize_loop u pos cs) = map tk_term (tokenize_loop u pos' cs)"
proof (induction cs arbitrary: pos pos' rule: length_induct)
  case (1 cs)
  show ?case
  proof (cases cs)
    case (Cons c rest)
    have step: "map tk_term (tokenize_loop u p ys) = map tk_term (tokenize_loop u q ys)" if "length ys < Suc (length rest)" for ys p q
      using "1.IH" that by (simp add: Cons)
    have word: "map tk_term (tokenize_loop u (pos + 1) (dropWhile P (c # rest))) =
        map tk_term (tokenize_loop u (pos' + 1) (dropWhile P (c # rest)))" if "P c" for P
      by (rule step) (use that in \<open>simp add: length_dropWhile_le less_Suc_eq_le\<close>)
    have tail: "map tk_term (tokenize_loop u p rest) = map tk_term (tokenize_loop u q rest)" for p q
      by (rule step) simp
    show ?thesis
      unfolding Cons tokenize_loop.simps(2) list.map if_distrib [of "map tk_term"] token.simps
      by (intro if_cong refl arg_cong2 [where f = Cons] tail word) simp_all
  qed simp
qed

lemma terms_Cons:
  "terms u (c # rest) =
     (if is_cjk c then
        (if rest \<noteq> [] \<and> is_cjk (hd rest) then [[c, hd rest], [c]] else [[c]]) @ terms u rest
      else if u_alphabetic u c then
        concat (map (u_lower u) (takeWhile (u_alphabetic u) (c # rest))) #
          terms u (dropWhile (u_alphabetic u) (c # rest))
      else if u_numeric u c then
        takeWhile (u_numeric u) (c # rest) # terms u (dropWhile (u_numeric u) (c # rest))
      else terms u rest)"
proof -
  have p: "map tk_term (tokenize_loop u (0 + 1) cs) = terms u cs" "map tk_term (tokenize_loop u (0 + 1 + 1) cs) = terms u cs" for cs
    by (rule terms_pos)+
  show ?thesis
    by (simp only: tokenize_loop.simps(2) if_distrib [of "map tk_term"] list.map token.simps p append_Cons append_Nil
        if_distrib [of "\<lambda>xs. xs @ terms u rest"])
qed

lemma tokenize_positions:
  "map tk_position (tokenize_loop u pos cs) = map (\<lambda>k. pos + of_nat k) [0..<length (tokenize_loop u pos cs)]"
proof (induction u pos cs rule: tokenize_loop.induct)
  case (1 u pos)
  then show ?case by simp
next
  case (2 u pos c rest)
  have shift: "map (\<lambda>k. pos + of_nat k) [0..<Suc n] = pos # map (\<lambda>k. (pos + 1) + of_nat k) [0..<n]" for pos :: u32 and n
    by (simp add: map_upt_Suc algebra_simps del: upt_Suc)
  show ?case using 2 by (simp add: shift del: upt_Suc)
qed

lemma tokenize_count: "length (tokenize_loop u pos cs) \<le> 2 * length cs"
proof (induction u pos cs rule: tokenize_loop.induct)
  case (1 u pos)
  then show ?case by simp
next
  case (2 u pos c rest)
  have "length (dropWhile (u_alphabetic u) rest) \<le> length rest" "length (dropWhile (u_numeric u) rest) \<le> length rest"
    by (rule length_dropWhile_le)+
  with 2 show ?case by (cases "is_cjk c"; cases "u_alphabetic u c"; cases "u_numeric u c") auto
qed

text \<open>A character that is in no token and ends every run.\<close>

definition separator :: "unicode \<Rightarrow> rchar \<Rightarrow> bool" where
  "separator u s \<longleftrightarrow> \<not> is_cjk s \<and> \<not> u_alphabetic u s \<and> \<not> u_numeric u s"

lemma takeWhile_sep: "\<not> P s \<Longrightarrow> takeWhile P (xs @ s # ys) = takeWhile P xs"
  by (induction xs) auto

lemma dropWhile_sep: "\<not> P s \<Longrightarrow> dropWhile P (xs @ s # ys) = dropWhile P xs @ s # ys"
  by (induction xs) auto

lemma terms_separator:
  assumes "separator u s"
  shows "terms u (a @ s # b) = terms u a @ terms u b"
proof (induction a rule: length_induct)
  case (1 a)
  show ?case
  proof (cases a)
    case Nil
    with assms show ?thesis by (simp add: terms_Cons separator_def del: tokenize_loop.simps) simp
  next
    case (Cons c rest)
    have drop: "length (dropWhile P rest) < length a" for P :: "rchar \<Rightarrow> bool"
      using length_dropWhile_le [of P rest] by (simp add: Cons less_Suc_eq_le)
    have "length rest < length a" by (simp add: Cons)
    note IH = "1.IH" [rule_format, OF this] "1.IH" [rule_format, OF drop]
    have hd: "rest @ s # b \<noteq> [] \<and> is_cjk (hd (rest @ s # b)) \<longleftrightarrow> rest \<noteq> [] \<and> is_cjk (hd rest)"
      using assms by (cases rest) (simp_all add: separator_def)
    have sep: "\<not> u_alphabetic u s" "\<not> u_numeric u s" using assms by (simp_all add: separator_def)
    have skip: "terms u (s # b) = terms u b"
      using assms by (subst terms_Cons) (simp only: separator_def if_False)
    show ?thesis
      unfolding Cons append_Cons terms_Cons hd using IH skip
      by (simp add: takeWhile_sep [where P = "u_alphabetic u", OF sep(1)] takeWhile_sep [where P = "u_numeric u", OF sep(2)] dropWhile_sep [where P = "u_alphabetic u", OF sep(1)] dropWhile_sep [where P = "u_numeric u", OF sep(2)] sep
          del: tokenize_loop.simps(2))
  qed
qed

text \<open>All characters and all pairs of neighbours, at each place the pair first.\<close>

fun bigrams :: "rchar list \<Rightarrow> rchar list list" where
  "bigrams (c # d # cs) = [c, d] # [c] # bigrams (d # cs)"
| "bigrams [c] = [[c]]"
| "bigrams [] = []"

lemma terms_cjk: "\<forall>c\<in>set cs. is_cjk c \<Longrightarrow> terms u cs = bigrams cs"
  by (induction cs rule: bigrams.induct) (simp_all add: terms_Cons del: tokenize_loop.simps(2))

lemma terms_run:
  assumes "b \<noteq> []" and "\<not> is_cjk (hd b)"
  shows "u_alphabetic u (hd b) \<Longrightarrow> \<forall>c\<in>set b. u_alphabetic u c \<Longrightarrow> terms u b = [concat (map (u_lower u) b)]"
    and "\<not> u_alphabetic u (hd b) \<Longrightarrow> \<forall>c\<in>set b. u_numeric u c \<Longrightarrow> terms u b = [b]"
proof -
  obtain c rest where b: "b = c # rest" using assms(1) by (cases b) auto
  have run: "takeWhile P rest = rest" "dropWhile P rest = []" if "\<forall>c\<in>set b. P c" for P
    using that by (auto simp: b takeWhile_eq_all_conv)
  show "terms u b = [concat (map (u_lower u) b)]" if "u_alphabetic u (hd b)" "\<forall>c\<in>set b. u_alphabetic u c"
    using that assms(2) unfolding b terms_Cons by (simp add: run [OF that(2)] del: tokenize_loop.simps(2))
  show "terms u b = [b]" if "\<not> u_alphabetic u (hd b)" "\<forall>c\<in>set b. u_numeric u c"
    using that assms(2) unfolding b terms_Cons by (simp add: run [OF that(2)] del: tokenize_loop.simps(2))
qed

text \<open>
  What the strategy at the head of the file promises for a part without separators that is of one kind: of CJK
  characters alone, a run of letters that does not start with a CJK character, or a run of digits.
\<close>

definition part_terms :: "unicode \<Rightarrow> rchar list \<Rightarrow> rchar list list \<Rightarrow> bool" where
  "part_terms u part ts \<longleftrightarrow>
     ((\<forall>c\<in>set part. is_cjk c) \<longrightarrow> ts = bigrams part) \<and>
     (part \<noteq> [] \<and> \<not> is_cjk (hd part) \<and> (\<forall>c\<in>set part. u_alphabetic u c) \<longrightarrow> ts = [concat (map (u_lower u) part)]) \<and>
     (part \<noteq> [] \<and> \<not> is_cjk (hd part) \<and> \<not> u_alphabetic u (hd part) \<and> (\<forall>c\<in>set part. u_numeric u c) \<longrightarrow> ts = [part])"

lemma part_terms_terms: "part_terms u part (terms u part)"
  using terms_cjk [of part u] terms_run [of part u] unfolding part_terms_def by (metis hd_in_set)

section \<open>Properties\<close>

text \<open>
  Tokenizing a text of fewer than \<open>2 ^ 31\<close> characters never fails, gives at most two tokens a
  character, and numbers the tokens 0, 1, 2, ... without a gap and without wrapping around.
\<close>

theorem tokenize_bounds:
  assumes "length chars < 2 ^ 31"
  shows "\<exists>tokens. tokenize u checks chars = Some tokens \<and> length tokens \<le> 2 * length chars \<and>
    map (unat \<circ> tk_position) tokens = [0..<length tokens]"
proof -
  let ?tokens = "tokenize_loop u 0 chars"
  have few: "length ?tokens < 2 ^ 32" using tokenize_count [of u 0 chars] assms by simp
  have pos: "map tk_position ?tokens = map of_nat [0..<length ?tokens]"
    using tokenize_positions [of u 0 chars] by simp
  have "map (unat \<circ> tk_position) ?tokens = map (unat \<circ> (of_nat :: nat \<Rightarrow> u32)) [0..<length ?tokens]"
    by (simp only: list.map_comp [symmetric] pos)
  also have "\<dots> = map id [0..<length ?tokens]"
    using few by (intro map_cong) (simp_all add: unat_of_nat take_bit_nat_eq_self)
  finally show ?thesis using few tokenize_count [of u 0 chars] by (simp add: tokenize_def)
qed

text \<open>A small table: the Latin letters and the ideographs are alphabetic, the digits numeric.\<close>

definition small_unicode :: unicode where
  "small_unicode = \<lparr>u_alphabetic = (\<lambda>c. 97 \<le> c \<and> c \<le> 122 \<or> 65 \<le> c \<and> c \<le> 90 \<or> 0x4E00 \<le> c \<and> c \<le> 0x9FFF),
     u_numeric = (\<lambda>c. 48 \<le> c \<and> c \<le> 57), u_lower = (\<lambda>c. if 65 \<le> c \<and> c \<le> 90 then [c + 32] else [c])\<rparr>"

theorem tokenize_bounds_witness:
  "\<exists>tokens. tokenize small_unicode True [0x673A, 0x68B0, 32, 65] = Some tokens \<and> length tokens \<le> 8 \<and>
    map (unat \<circ> tk_position) tokens = [0..<length tokens]"
  using tokenize_bounds [of "[0x673A, 0x68B0, 32, 65]" small_unicode True] by simp

text \<open>
  C28. Tokenizing takes a text apart at its separators, the characters that are neither CJK, nor alphabetic, nor
  numeric: the terms of a text are those of the part before a separator followed by those of the part after it,
  whatever the two parts are. A part of CJK characters alone gives all its characters and all pairs of
  neighbours; a part of letters that does not start with a CJK character gives one term, its letters in
  lower case; and a part of digits gives itself as one term.
\<close>

theorem tokenize_segments:
  assumes "separator u s" and "tokenize u checks (a @ s # b) = Some tokens"
  shows "\<exists>front rear. tokenize u checks a = Some front \<and> tokenize u checks b = Some rear \<and>
    map tk_term tokens = map tk_term front @ map tk_term rear \<and>
    part_terms u a (map tk_term front) \<and> part_terms u b (map tk_term rear)"
proof -
  have split: "map tk_term (tokenize_loop u 0 (a @ s # b)) = terms u a @ terms u b"
    by (rule terms_separator [OF assms(1)])
  then have "length (tokenize_loop u 0 a) + length (tokenize_loop u 0 b) = length (tokenize_loop u 0 (a @ s # b))"
    by (metis length_append length_map)
  with assms(2) split part_terms_terms [of u a] part_terms_terms [of u b] show ?thesis
    by (auto simp: tokenize_def Let_def split: if_splits)
qed

theorem tokenize_segments_witness:
  "\<exists>tokens front rear. tokenize small_unicode True [72, 105, 32, 0x673A, 0x68B0] = Some tokens \<and>
    tokenize small_unicode True [72, 105] = Some front \<and> tokenize small_unicode True [0x673A, 0x68B0] = Some rear \<and>
    map tk_term tokens = map tk_term front @ map tk_term rear \<and>
    map tk_term front = [[104, 105]] \<and> map tk_term rear = [[0x673A, 0x68B0], [0x673A], [0x68B0]]"
proof -
  have sep: "separator small_unicode 32" by (simp add: separator_def small_unicode_def is_cjk_def)
  obtain tokens where t: "tokenize small_unicode True ([72, 105] @ 32 # [0x673A, 0x68B0]) = Some tokens"
    by (simp add: tokenize_def small_unicode_def is_cjk_def)
  from tokenize_segments [OF sep t] obtain front rear where
    "tokenize small_unicode True [72, 105] = Some front" "tokenize small_unicode True [0x673A, 0x68B0] = Some rear"
    "map tk_term tokens = map tk_term front @ map tk_term rear"
    "part_terms small_unicode [72, 105] (map tk_term front)" "part_terms small_unicode [0x673A, 0x68B0] (map tk_term rear)" by blast
  with t show ?thesis by (auto simp: part_terms_def small_unicode_def is_cjk_def)
qed

text \<open>
  A CJK text that starts right after a letter is lost as CJK text: since ideographs are alphabetic
  too, the letter's run takes them all and the whole gives one term, with no bigram and no single
  character.
\<close>

theorem tokenize_letter_takes_cjk:
  assumes "\<not> is_cjk c" "u_alphabetic u c" "\<forall>d\<in>set cjk. u_alphabetic u d"
  shows "tokenize u checks (c # cjk) = Some [\<lparr>tk_term = concat (map (u_lower u) (c # cjk)), tk_position = 0\<rparr>]"
proof -
  have run: "takeWhile (u_alphabetic u) cjk = cjk" "dropWhile (u_alphabetic u) cjk = []"
    using assms(3) by (auto simp: takeWhile_eq_all_conv)
  show ?thesis by (simp add: tokenize_def assms(1,2) run)
qed

theorem tokenize_letter_takes_cjk_witness:
  "tokenize small_unicode True [65, 0x673A, 0x68B0] = Some [\<lparr>tk_term = [97, 0x673A, 0x68B0], tk_position = 0\<rparr>]"
  using tokenize_letter_takes_cjk [of 65 small_unicode "[0x673A, 0x68B0]" True]
  by (simp add: is_cjk_def small_unicode_def)

end
