(* ===== verification/Scores.thy ===== *)
theory Scores
  imports Floats "HOL-Library.Multiset" "HOL-Library.AList"
begin

text \<open>
  What the full-text index and the query engine share: hash maps from nodes to scores that are summed
  up entry by entry, and the ranking of scored items by descending score. A hash map is the list of
  its entries, whose keys are distinct; the order in which it is iterated is the parameter \<open>ord\<close>, any
  rearrangement of the entries.
\<close>

type_synonym score = f32

definition rearranges :: "('a list \<Rightarrow> 'a list) \<Rightarrow> bool" where
  "rearranges ord \<longleftrightarrow> (\<forall>xs. mset (ord xs) = mset xs)"

text \<open>\<open>*map.entry(id).or_default() += s\<close>\<close>

definition entry_add :: "NodeId \<times> score \<Rightarrow> (NodeId \<times> score) list \<Rightarrow> (NodeId \<times> score) list" where
  "entry_add e m =
     AList.update (fst e) (f32_add (case map_of m (fst e) of None \<Rightarrow> 0 | Some v \<Rightarrow> v) (snd e)) m"

text \<open>
  \<open>sort_by(|a, b| b.score.partial_cmp(&a.score).unwrap())\<close>: the sort is stable and compares each of
  two or more items with some other, so one not-a-number among them panics (\<open>None\<close>).
\<close>

definition rank_desc :: "('a \<Rightarrow> score) \<Rightarrow> 'a list \<Rightarrow> 'a list option" where
  "rank_desc sc xs =
     (if 2 \<le> length xs \<and> (\<exists>x\<in>set xs. f32_is_nan (sc x)) then None
      else Some (sort_key (\<lambda>x. - f32_key (sc x)) xs))"

text \<open>What a ranking shows: each score is at least the next one.\<close>

definition ranked :: "('a \<Rightarrow> score) \<Rightarrow> 'a list \<Rightarrow> bool" where
  "ranked sc xs \<longleftrightarrow> sorted_wrt (\<lambda>x y. f32_val (sc y) \<le> f32_val (sc x)) xs"

section \<open>Lemmas\<close>

lemma rearranges_set: "rearranges ord \<Longrightarrow> set (ord xs) = set xs"
  unfolding rearranges_def by (metis set_mset_mset)

lemma rearranges_length: "rearranges ord \<Longrightarrow> length (ord xs) = length xs"
  unfolding rearranges_def by (metis size_mset)

lemma rearranges_distinct: "rearranges ord \<Longrightarrow> distinct (map f (ord xs)) \<longleftrightarrow> distinct (map f xs)"
  unfolding rearranges_def by (metis mset_map mset_eq_imp_distinct_iff)

lemma rank_desc_mset: "rank_desc sc xs = Some ys \<Longrightarrow> mset ys = mset xs"
  by (auto simp: rank_desc_def split: if_splits)

lemma rank_desc_ranked: "rank_desc sc xs = Some ys \<Longrightarrow> ranked sc ys"
proof -
  assume "rank_desc sc xs = Some ys"
  then have "sorted (map (\<lambda>x. - f32_key (sc x)) ys)" by (auto simp: rank_desc_def split: if_splits)
  then show ?thesis by (simp add: ranked_def sorted_map f32_key_le_iff)
qed

lemma rank_desc_None_iff:
  "rank_desc sc xs = None \<longleftrightarrow> 2 \<le> length xs \<and> (\<exists>x\<in>set xs. f32_is_nan (sc x))"
  by (simp add: rank_desc_def)

lemma ranked_take: "ranked sc xs \<Longrightarrow> ranked sc (take n xs)"
  unfolding ranked_def by (rule sorted_wrt_take)

text \<open>A ranking of the entries of a hash map.\<close>

lemma rank_desc_entries:
  assumes "rank_desc sc (ord xs) = Some ys" and "rearranges ord"
  shows "set ys = set xs" and "length ys = length xs" and "distinct (map f ys) \<longleftrightarrow> distinct (map f xs)"
proof -
  have "mset ys = mset xs" using rank_desc_mset [OF assms(1)] assms(2) by (simp add: rearranges_def)
  then show "set ys = set xs" "length ys = length xs" "distinct (map f ys) \<longleftrightarrow> distinct (map f xs)"
    by (metis set_mset_mset, metis size_mset, metis mset_map mset_eq_imp_distinct_iff)
qed

text \<open>The scores summed up for one node, in the order they come.\<close>

definition total_score :: "(NodeId \<times> score) list \<Rightarrow> NodeId \<Rightarrow> score" where
  "total_score cs i = foldl f32_add 0 (map snd (filter (\<lambda>e. fst e = i) cs))"

lemma entry_add_distinct: "distinct (map fst m) \<Longrightarrow> distinct (map fst (entry_add e m))"
  unfolding entry_add_def by (rule distinct_update)

lemma entry_add_map_of:
  "map_of (entry_add e m) i =
     (if i = fst e then Some (f32_add (case map_of m i of None \<Rightarrow> 0 | Some v \<Rightarrow> v) (snd e)) else map_of m i)"
  by (simp add: entry_add_def update_conv)

lemma total_score_simps [simp]:
  "total_score [] i = 0"
  "total_score (cs @ [e]) i = (if fst e = i then f32_add (total_score cs i) (snd e) else total_score cs i)"
  by (simp_all add: total_score_def)

lemma total_score_none: "i \<notin> fst ` set cs \<Longrightarrow> total_score cs i = 0"
  by (induction cs rule: rev_induct) auto

lemma fold_entry_add_distinct: "distinct (map fst (fold entry_add cs []))"
  by (induction cs rule: rev_induct) (simp_all add: entry_add_distinct)

lemma fold_entry_add_map_of:
  "map_of (fold entry_add cs []) i = (if i \<in> fst ` set cs then Some (total_score cs i) else None)"
  by (induction cs arbitrary: i rule: rev_induct) (auto simp: entry_add_map_of total_score_none)

lemma fold_entry_add_set: "set (fold entry_add cs []) = (\<lambda>i. (i, total_score cs i)) ` fst ` set cs"
proof -
  have "(i, v) \<in> set (fold entry_add cs []) \<longleftrightarrow> i \<in> fst ` set cs \<and> v = total_score cs i" for i v
    using map_of_eq_Some_iff [OF fold_entry_add_distinct, of cs i v] by (auto simp: fold_entry_add_map_of split: if_splits)
  then show ?thesis by auto
qed

end
