(* ===== verification/Fulltext.thy ===== *)
theory Fulltext
  imports Property_Index Analyzer Scores
begin

text \<open>
  \<^verbatim>\<open>src/src/index/fulltext/mod.rs\<close> and \<^verbatim>\<open>scorer.rs\<close>: the full-text index and its BM25 ranking. The
  term dictionary of the \<^verbatim>\<open>fst\<close> crate is the map it stands for. Rust leaves the precision of \<open>ln\<close>
  open, so it is a parameter.
\<close>

section \<open>Texts\<close>

text \<open>A string is the list of its characters; \<open>as_bytes\<close> is its UTF-8 encoding.\<close>

type_synonym rtext = "rchar list"

definition utf8_char :: "rchar \<Rightarrow> bytes" where
  "utf8_char c =
     (if c < 0x80 then [of_nat c]
      else if c < 0x800 then [of_nat (0xC0 + c div 64), of_nat (0x80 + c mod 64)]
      else if c < 0x10000 then [of_nat (0xE0 + c div 4096), of_nat (0x80 + c div 64 mod 64), of_nat (0x80 + c mod 64)]
      else [of_nat (0xF0 + c div 262144), of_nat (0x80 + c div 4096 mod 64), of_nat (0x80 + c div 64 mod 64),
        of_nat (0x80 + c mod 64)])"

definition as_bytes :: "rtext \<Rightarrow> bytes" where
  "as_bytes t = concat (map utf8_char t)"

section \<open>Scoring\<close>

definition bm25_score :: "(f32 \<Rightarrow> f32) \<Rightarrow> f32 \<Rightarrow> f64 \<Rightarrow> f32 \<Rightarrow> f64 \<Rightarrow> f64 \<Rightarrow> f32" where
  "bm25_score ln_f32 tf df doc_len avg_doc_len total_docs =
     (let k1 = f32_of_rat (12 / 10);
          b = f32_of_rat (3 / 4);
          half = f32_of_rat (1 / 2);
          one = f32_of_rat 1;
          df_f32 = f32_of_f64 df;
          total_f32 = f32_of_f64 total_docs;
          idf = ln_f32 (f32_add (f32_div (f32_add (f32_sub total_f32 df_f32) half) (f32_add df_f32 half)) one);
          tf_norm = f32_div (f32_mul tf (f32_add k1 one))
            (f32_add tf (f32_mul k1 (f32_add (f32_sub one b) (f32_div (f32_mul b doc_len) (f32_of_f64 avg_doc_len)))))
      in f32_mul idf tf_norm)"

section \<open>The index\<close>

record fulltext_index =
  ft_name :: rtext
  ft_labels :: "rtext list"
  ft_properties :: "rtext list"
  ft_fst :: "(bytes \<rightharpoonup> u64) option"
  ft_postings :: "bitmap list"
  ft_positions :: "(NodeId \<rightharpoonup> u32 list) list"
  ft_doc_lengths :: "NodeId \<rightharpoonup> u32"
  ft_total_docs :: u64
  ft_avg_doc_length :: f64

definition ft_new :: "rtext \<Rightarrow> rtext list \<Rightarrow> rtext list \<Rightarrow> fulltext_index" where
  "ft_new name labels properties =
     \<lparr>ft_name = name, ft_labels = labels, ft_properties = properties, ft_fst = None, ft_postings = [],
       ft_positions = [], ft_doc_lengths = Map.empty, ft_total_docs = 0, ft_avg_doc_length = 0\<rparr>"

definition ft_count_tf :: "fulltext_index \<Rightarrow> nat \<Rightarrow> NodeId \<Rightarrow> f32" where
  "ft_count_tf ft ordinal i =
     (if ordinal < length (ft_positions ft)
      then (case (ft_positions ft ! ordinal) i of None \<Rightarrow> f32_of_rat 1 | Some ps \<Rightarrow> f32_of_rat (of_nat (length ps)))
      else f32_of_rat 1)"

definition ft_hit_score :: "(f32 \<Rightarrow> f32) \<Rightarrow> fulltext_index \<Rightarrow> nat \<Rightarrow> NodeId \<Rightarrow> score" where
  "ft_hit_score ln_f32 ft ordinal i =
     (let df = f64_of_int (int (card (ft_postings ft ! ordinal)));
          total = f64_of_int (int (unat (ft_total_docs ft)));
          avg_dl = ft_avg_doc_length ft;
          tf = ft_count_tf ft ordinal i;
          dl = (case ft_doc_lengths ft i of None \<Rightarrow> f32_of_rat 1 | Some r \<Rightarrow> f32_of_rat (of_nat (unat r)))
      in bm25_score ln_f32 tf df dl avg_dl total)"

text \<open>One token: every node of its posting list, in ascending order. \<open>None\<close> is the index panic.\<close>

definition ft_token_step ::
  "(f32 \<Rightarrow> f32) \<Rightarrow> fulltext_index \<Rightarrow> (bytes \<rightharpoonup> u64) \<Rightarrow> token \<Rightarrow> (NodeId \<times> score) list \<Rightarrow> (NodeId \<times> score) list option" where
  "ft_token_step ln_f32 ft dict tok results =
     (case dict (as_bytes (tk_term tok)) of
       None \<Rightarrow> Some results
     | Some o64 \<Rightarrow>
         let ordinal = unat o64 in
         if ordinal < length (ft_postings ft)
         then Some (fold (\<lambda>id32 acc. let i = ucast id32 in entry_add (i, ft_hit_score ln_f32 ft ordinal i) acc)
           (sorted_list_of_set (ft_postings ft ! ordinal)) results)
         else None)"

fun ft_tokens ::
  "(f32 \<Rightarrow> f32) \<Rightarrow> fulltext_index \<Rightarrow> (bytes \<rightharpoonup> u64) \<Rightarrow> token list \<Rightarrow> (NodeId \<times> score) list \<Rightarrow> (NodeId \<times> score) list option" where
  "ft_tokens ln_f32 ft dict [] results = Some results"
| "ft_tokens ln_f32 ft dict (tok # toks) results =
     (case ft_token_step ln_f32 ft dict tok results of
       None \<Rightarrow> None
     | Some results' \<Rightarrow> ft_tokens ln_f32 ft dict toks results')"

text \<open>What Rust leaves open: Unicode, \<open>ln\<close>, overflow checks and the iteration order of hash maps.\<close>

record rust_env =
  env_unicode :: unicode
  env_ln :: "f32 \<Rightarrow> f32"
  env_checks :: bool
  env_order :: "(NodeId \<times> score) list \<Rightarrow> (NodeId \<times> score) list"

definition ft_search :: "rust_env \<Rightarrow> fulltext_index \<Rightarrow> rtext \<Rightarrow> (NodeId \<times> score) list outcome" where
  "ft_search env ft query =
     (case tokenize (env_unicode env) (env_checks env) query of
       None \<Rightarrow> Panicked
     | Some tokens \<Rightarrow>
         (case (case ft_fst ft of None \<Rightarrow> Some [] | Some dict \<Rightarrow> ft_tokens (env_ln env) ft dict tokens []) of
           None \<Rightarrow> Panicked
         | Some results \<Rightarrow>
             (case rank_desc snd (env_order env results) of None \<Rightarrow> Panicked | Some ranking \<Rightarrow> Ok ranking)))"

section \<open>Lemmas\<close>

text \<open>The hits of a term and of a list of terms: each posted node with its score for the term.\<close>

definition term_hits :: "(f32 \<Rightarrow> f32) \<Rightarrow> fulltext_index \<Rightarrow> (bytes \<rightharpoonup> u64) \<Rightarrow> rtext \<Rightarrow> (NodeId \<times> score) list" where
  "term_hits ln_f32 ft dict t =
     (case dict (as_bytes t) of
       None \<Rightarrow> []
     | Some o64 \<Rightarrow> map (\<lambda>id32. (ucast id32, ft_hit_score ln_f32 ft (unat o64) (ucast id32)))
         (sorted_list_of_set (ft_postings ft ! unat o64)))"

definition query_hits :: "(f32 \<Rightarrow> f32) \<Rightarrow> fulltext_index \<Rightarrow> (bytes \<rightharpoonup> u64) \<Rightarrow> rtext list \<Rightarrow> (NodeId \<times> score) list" where
  "query_hits ln_f32 ft dict ts = concat (map (term_hits ln_f32 ft dict) ts)"

definition ft_wf :: "fulltext_index \<Rightarrow> bool" where
  "ft_wf ft \<longleftrightarrow> (case ft_fst ft of None \<Rightarrow> True | Some dict \<Rightarrow> \<forall>o64\<in>ran dict. unat o64 < length (ft_postings ft))"

lemma fold_map_entry: "fold (\<lambda>x acc. let i = f x in entry_add (i, g i) acc) xs acc = fold entry_add (map (\<lambda>x. (f x, g (f x))) xs) acc"
  by (induction xs arbitrary: acc) (simp_all add: Let_def)

lemma ft_tokens_hits:
  assumes "\<forall>o64\<in>ran dict. unat o64 < length (ft_postings ft)"
  shows "ft_tokens ln_f32 ft dict toks acc = Some (fold entry_add (query_hits ln_f32 ft dict (map tk_term toks)) acc)"
proof (induction toks arbitrary: acc)
  case Nil
  then show ?case by (simp add: query_hits_def)
next
  case (Cons tok toks)
  have "ft_token_step ln_f32 ft dict tok acc = Some (fold entry_add (term_hits ln_f32 ft dict (tk_term tok)) acc)"
    using assms by (auto simp: ft_token_step_def term_hits_def Let_def fold_map_entry [unfolded Let_def] intro: ranI
        split: option.split)
  with Cons show ?case by (simp add: query_hits_def)
qed

definition posted :: "fulltext_index \<Rightarrow> (bytes \<rightharpoonup> u64) \<Rightarrow> rtext list \<Rightarrow> NodeId set" where
  "posted ft dict ts = (\<Union>t\<in>set ts. case dict (as_bytes t) of None \<Rightarrow> {} | Some o64 \<Rightarrow> ucast ` (ft_postings ft ! unat o64))"

lemma query_hits_nodes: "fst ` set (query_hits ln_f32 ft dict ts) = posted ft dict ts"
proof -
  have "fst ` set (term_hits ln_f32 ft dict t) =
      (case dict (as_bytes t) of None \<Rightarrow> {} | Some o64 \<Rightarrow> ucast ` (ft_postings ft ! unat o64))" for t
    by (simp add: term_hits_def image_image split: option.split)
  then show ?thesis by (simp add: query_hits_def posted_def image_UN)
qed

lemma tokenize_total: "length chars < 2 ^ 31 \<Longrightarrow> tokenize u checks chars = Some (tokenize_loop u 0 chars)"
  using tokenize_count [of u 0 chars] by (simp add: tokenize_def)

lemma finite_posted: "finite (posted ft dict ts)"
  by (auto simp: posted_def split: option.split)

lemma rearranges_Nil [simp]: "rearranges ord \<Longrightarrow> ord [] = []"
  using rearranges_length [of ord "[]"] by simp

lemma ft_search_result:
  assumes "ft_wf ft" and "ft_fst ft = Some dict" and "rearranges (env_order env)" and "length query < 2 ^ 31"
    and "map tk_term (tokenize_loop (env_unicode env) 0 query) = ts"
  shows "case ft_search env ft query of
      Ok rs \<Rightarrow> distinct (map fst rs) \<and> ranked snd rs \<and>
        set rs = (\<lambda>i. (i, total_score (query_hits (env_ln env) ft dict ts) i)) ` posted ft dict ts
    | Panicked \<Rightarrow> 2 \<le> card (posted ft dict ts) \<and>
        (\<exists>i\<in>posted ft dict ts. f32_is_nan (total_score (query_hits (env_ln env) ft dict ts) i))
    | Err e \<Rightarrow> False"
proof -
  let ?hits = "query_hits (env_ln env) ft dict ts"
  let ?m = "fold entry_add ?hits []"
  have m: "set ?m = (\<lambda>i. (i, total_score ?hits i)) ` posted ft dict ts" "distinct (map fst ?m)"
    by (simp_all add: fold_entry_add_set query_hits_nodes fold_entry_add_distinct)
  have "length ?m = card (set ?m)" using m(2) by (simp add: distinct_card distinct_map)
  also have "\<dots> = card (posted ft dict ts)" unfolding m(1) by (rule card_image) (simp add: inj_on_def)
  finally have len: "length ?m = card (posted ft dict ts)" .
  have search: "ft_search env ft query = (case rank_desc snd (env_order env ?m) of None \<Rightarrow> Panicked | Some r \<Rightarrow> Ok r)"
    using assms(1,2,4,5) by (simp add: ft_search_def tokenize_total ft_wf_def ft_tokens_hits)
  show ?thesis
  proof (cases "rank_desc snd (env_order env ?m)")
    case None
    with assms(3) search m len show ?thesis
      by (auto simp: rank_desc_None_iff rearranges_length rearranges_set)
  next
    case (Some rs)
    note r = rank_desc_entries(1) [OF Some assms(3)] rank_desc_entries(3) [OF Some assms(3), of fst] rank_desc_ranked [OF Some]
    then show ?thesis using Some search m by simp
  qed
qed

section \<open>Properties\<close>

text \<open>
  C23. A search over an index whose dictionary points into its posting lists returns each node posted
  under a term of the query exactly once, with the sum of its BM25 scores over the terms, best first;
  it panics only when at least two nodes are found and some sum is not a number.
\<close>

theorem ft_search_ranking:
  assumes "ft_wf ft" and "ft_fst ft = Some dict" and "rearranges (env_order env)" and "length query < 2 ^ 31"
    and "map tk_term (tokenize_loop (env_unicode env) 0 query) = ts"
  shows "case ft_search env ft query of
      Ok rs \<Rightarrow> distinct (map fst rs) \<and> ranked snd rs \<and>
        set rs = (\<lambda>i. (i, total_score (query_hits (env_ln env) ft dict ts) i)) ` posted ft dict ts
    | Panicked \<Rightarrow> 2 \<le> card (posted ft dict ts) \<and>
        (\<exists>i\<in>posted ft dict ts. f32_is_nan (total_score (query_hits (env_ln env) ft dict ts) i))
    | Err e \<Rightarrow> False"
  by (rule ft_search_result [OF assms])

definition small_env :: rust_env where
  "small_env = \<lparr>env_unicode = small_unicode, env_ln = (\<lambda>x. x), env_checks = True, env_order = rev\<rparr>"

lemma small_env_order [simp]: "rearranges (env_order small_env)"
  by (simp add: rearranges_def small_env_def)

definition small_index :: fulltext_index where
  "small_index = (ft_new [] [] []) \<lparr>ft_fst := Some [[97] \<mapsto> 0, [98] \<mapsto> 1], ft_postings := [{1, 3}, {3}]\<rparr>"

theorem ft_search_ranking_witness:
  "case ft_search small_env small_index [65, 32, 98] of
      Ok rs \<Rightarrow> distinct (map fst rs) \<and> ranked snd rs \<and>
        set rs = (\<lambda>i. (i, total_score (query_hits (\<lambda>x. x) small_index [[97] \<mapsto> 0, [98] \<mapsto> 1] [[97], [98]]) i)) `
          posted small_index [[97] \<mapsto> 0, [98] \<mapsto> 1] [[97], [98]]
    | Panicked \<Rightarrow> 2 \<le> card (posted small_index [[97] \<mapsto> 0, [98] \<mapsto> 1] [[97], [98]]) \<and>
        (\<exists>i\<in>posted small_index [[97] \<mapsto> 0, [98] \<mapsto> 1] [[97], [98]].
          f32_is_nan (total_score (query_hits (\<lambda>x. x) small_index [[97] \<mapsto> 0, [98] \<mapsto> 1] [[97], [98]]) i))
    | Err e \<Rightarrow> False"
proof -
  have env: "env_ln small_env = (\<lambda>x. x)" by (simp add: small_env_def)
  have "ft_wf small_index" "ft_fst small_index = Some [[97] \<mapsto> 0, [98] \<mapsto> 1]"
    "map tk_term (tokenize_loop (env_unicode small_env) 0 [65, 32, 98]) = [[97], [98]]"
    by (simp_all add: ft_wf_def small_index_def ft_new_def small_env_def small_unicode_def is_cjk_def)
  from ft_search_ranking [OF this(1,2) small_env_order _ this(3), unfolded env] show ?thesis by simp
qed

text \<open>
  An index as \<open>new\<close> makes it answers every query with no node: it has no dictionary, and nothing in
  the crate gives it one.
\<close>

theorem ft_new_finds_nothing:
  assumes "rearranges (env_order env)" and "length query < 2 ^ 31"
  shows "ft_search env (ft_new name labels properties) query = Ok []"
  using assms by (simp add: ft_search_def ft_new_def tokenize_total rank_desc_def)

theorem ft_new_finds_nothing_witness: "ft_search small_env (ft_new [110] [] []) [65, 66] = Ok []"
  using ft_new_finds_nothing [of small_env "[65, 66]" "[110]" "[]" "[]"] by simp

end
