(* ===== verification/Vector_Index.thy ===== *)
theory Vector_Index
  imports Floats Scores
begin

text \<open>
  \<^verbatim>\<open>src/src/index/vector/\<close>: the measures of \<^verbatim>\<open>distance.rs\<close>, the vector index of \<^verbatim>\<open>mod.rs\<close> and
  \<^verbatim>\<open>hnsw.rs\<close>, whose search structure is not written yet and panics. A panic is \<open>None\<close> here for the
  measures and \<open>Panicked\<close> for the index. The zero that \<open>sum\<close> starts from is positive in older and
  negative in newer versions of Rust's library, so it is a parameter.
\<close>

section \<open>Measures\<close>

datatype distance_metric = Cosine | Euclidean | DotProduct

definition cosine_fold :: "f32 list \<Rightarrow> f32 list \<Rightarrow> f32 \<times> f32 \<times> f32" where
  "cosine_fold a b =
     foldl (\<lambda>(d, na, nb) (x, y). (f32_add d (f32_mul x y), f32_add na (f32_mul x x), f32_add nb (f32_mul y y)))
       (0, 0, 0) (zip a b)"

definition cosine_similarity :: "f32 list \<Rightarrow> f32 list \<Rightarrow> f32 option" where
  "cosine_similarity a b =
     (if length a \<noteq> length b then None
      else let (dot, norm_a, norm_b) = cosine_fold a b
           in Some (if f32_eq norm_a 0 \<or> f32_eq norm_b 0 then 0
                    else f32_div dot (f32_mul (f32_sqrt norm_a) (f32_sqrt norm_b))))"

definition cosine_distance :: "f32 list \<Rightarrow> f32 list \<Rightarrow> f32 option" where
  "cosine_distance a b = map_option (f32_sub 0x3F800000) (cosine_similarity a b)"

definition euclidean_distance :: "f32 \<Rightarrow> f32 list \<Rightarrow> f32 list \<Rightarrow> f32 option" where
  "euclidean_distance zero a b =
     (if length a \<noteq> length b then None
      else Some (f32_sqrt (foldl f32_add zero (map (\<lambda>(x, y). f32_mul (f32_sub x y) (f32_sub x y)) (zip a b)))))"

definition dot_product :: "f32 \<Rightarrow> f32 list \<Rightarrow> f32 list \<Rightarrow> f32 option" where
  "dot_product zero a b =
     (if length a \<noteq> length b then None else Some (foldl f32_add zero (map (\<lambda>(x, y). f32_mul x y) (zip a b))))"

section \<open>The index\<close>

record hnsw_index =
  hn_dim :: nat
  hn_m :: nat
  hn_ef_construction :: nat

definition hnsw_new :: "nat \<Rightarrow> nat \<Rightarrow> nat \<Rightarrow> hnsw_index" where
  "hnsw_new d m ef_construction = \<lparr>hn_dim = d, hn_m = m, hn_ef_construction = ef_construction\<rparr>"

definition hnsw_insert :: "hnsw_index \<Rightarrow> NodeId \<Rightarrow> f32 list \<Rightarrow> hnsw_index outcome" where
  "hnsw_insert h i vector = Panicked"

definition hnsw_search :: "hnsw_index \<Rightarrow> f32 list \<Rightarrow> nat \<Rightarrow> nat \<Rightarrow> (NodeId \<times> score) list outcome" where
  "hnsw_search h query k ef = Panicked"

record vector_index =
  vi_name :: bytes
  vi_dim :: nat
  vi_metric :: distance_metric
  vi_hnsw :: hnsw_index
  vi_count :: nat

definition vi_new :: "bytes \<Rightarrow> nat \<Rightarrow> distance_metric \<Rightarrow> nat \<Rightarrow> nat \<Rightarrow> vector_index" where
  "vi_new name d metric m ef_construction =
     \<lparr>vi_name = name, vi_dim = d, vi_metric = metric, vi_hnsw = hnsw_new d m ef_construction, vi_count = 0\<rparr>"

definition vi_insert :: "vector_index \<Rightarrow> NodeId \<Rightarrow> f32 list \<Rightarrow> vector_index outcome" where
  "vi_insert vi i vector =
     (if length vector \<noteq> vi_dim vi then Panicked
      else case hnsw_insert (vi_hnsw vi) i vector of
          Ok h \<Rightarrow> Ok (vi \<lparr>vi_hnsw := h, vi_count := vi_count vi + 1\<rparr>)
        | Err e \<Rightarrow> Err e
        | Panicked \<Rightarrow> Panicked)"

definition vi_search :: "vector_index \<Rightarrow> f32 list \<Rightarrow> nat \<Rightarrow> nat \<Rightarrow> (NodeId \<times> score) list outcome" where
  "vi_search vi query k ef = (if length query \<noteq> vi_dim vi then Panicked else hnsw_search (vi_hnsw vi) query k ef)"

definition vi_len :: "vector_index \<Rightarrow> nat" where
  "vi_len vi = vi_count vi"

section \<open>Lemmas\<close>

lemma zip_flip: "zip b a = map (\<lambda>(x, y). (y, x)) (zip a b)"
  by (subst zip_commute) simp

lemma cosine_fold_flip: "cosine_fold b a = (let (d, na, nb) = cosine_fold a b in (d, nb, na))"
proof -
  have "foldl (\<lambda>(d, na, nb) (x, y). (f32_add d (f32_mul x y), f32_add na (f32_mul x x), f32_add nb (f32_mul y y)))
      (d, nb, na) (map (\<lambda>(x, y). (y, x)) xs) =
    (case foldl (\<lambda>(d, na, nb) (x, y). (f32_add d (f32_mul x y), f32_add na (f32_mul x x), f32_add nb (f32_mul y y)))
      (d, na, nb) xs of (d, na, nb) \<Rightarrow> (d, nb, na))" for xs d na nb
    by (induction xs arbitrary: d na nb) (auto simp: f32_mul_commute)
  then show ?thesis by (simp add: cosine_fold_def zip_flip [of b a])
qed

lemma opposite_ones_1: "f32_of_rat 1 = 0x3F800000"
  by code_simp

lemma opposite_ones_2: "f32_of_rat (- 1) = 0xBF800000"
  by code_simp

lemma opposite_ones_3: "f32_val 0xBF800000 = - 1"
  by code_simp

lemma opposite_ones_4: "f32_mul 0x3F800000 0xBF800000 = 0xBF800000"
  by code_simp

lemma opposite_ones_5: "f32_mul 0x3F800000 0x3F800000 = 0x3F800000"
  by code_simp

lemma opposite_ones_6: "f32_mul 0xBF800000 0xBF800000 = 0x3F800000"
  by code_simp

lemma opposite_ones_7: "f32_add 0 0xBF800000 = 0xBF800000"
  by code_simp

lemma opposite_ones_8: "f32_add 0 0x3F800000 = 0x3F800000"
  by code_simp

lemma opposite_ones_9: "f32_sqrt 0x3F800000 = 0x3F800000"
  by code_simp

lemma opposite_ones_10: "f32_div 0xBF800000 0x3F800000 = 0xBF800000"
  by code_simp

lemma opposite_ones_11: "\<not> f32_eq 0x3F800000 0"
  by code_simp

lemmas opposite_ones = opposite_ones_1 opposite_ones_2 opposite_ones_3 opposite_ones_4 opposite_ones_5 opposite_ones_6 opposite_ones_7 opposite_ones_8 opposite_ones_9 opposite_ones_10 opposite_ones_11

section \<open>Properties\<close>

text \<open>
  Every measure is symmetric, bit for bit, and defined exactly on vectors of the same length: other
  vectors panic.
\<close>

theorem measures_symmetric:
  "cosine_similarity a b = cosine_similarity b a \<and> cosine_distance a b = cosine_distance b a \<and>
   euclidean_distance zero a b = euclidean_distance zero b a \<and> dot_product zero a b = dot_product zero b a \<and>
   (cosine_similarity a b = None \<longleftrightarrow> length a \<noteq> length b) \<and> (cosine_distance a b = None \<longleftrightarrow> length a \<noteq> length b) \<and>
   (euclidean_distance zero a b = None \<longleftrightarrow> length a \<noteq> length b) \<and> (dot_product zero a b = None \<longleftrightarrow> length a \<noteq> length b)"
proof -
  have cos: "cosine_similarity a b = cosine_similarity b a"
    by (simp add: cosine_similarity_def cosine_fold_flip [of b a] split_beta f32_mul_commute disj_commute)
  have sq: "f32_mul (f32_sub x y) (f32_sub x y) = f32_mul (f32_sub y x) (f32_sub y x)" for x y
    by (rule f32_mul_same) (rule f32_sub_mag)
  have euc: "euclidean_distance zero a b = euclidean_distance zero b a"
    by (auto simp: euclidean_distance_def zip_flip [of b a] intro!: arg_cong [where f = "\<lambda>xs. f32_sqrt (foldl f32_add zero xs)"] sq)
  have dot: "dot_product zero a b = dot_product zero b a"
    by (auto simp: dot_product_def zip_flip [of b a] intro!: arg_cong [where f = "foldl f32_add zero"] f32_mul_commute)
  show ?thesis using cos euc dot
    by (auto simp: cosine_distance_def cosine_similarity_def euclidean_distance_def dot_product_def split_beta Let_def)
qed

text \<open>
  The cosine similarity of opposite vectors is negative, outside the range [0, 1] that its
  description gives: that of [1] and [-1] is -1.
\<close>

theorem cosine_similarity_negative:
  "cosine_similarity [f32_of_rat 1] [f32_of_rat (- 1)] = Some (f32_of_rat (- 1)) \<and> f32_val (f32_of_rat (- 1)) = - 1"
  by (simp add: cosine_similarity_def cosine_fold_def opposite_ones)

text \<open>No insertion into a vector index and no search in one returns, whatever its arguments.\<close>

theorem vector_index_panics:
  "vi_insert vi i vector = Panicked \<and> vi_search vi query k ef = Panicked \<and> vi_len (vi_new name d metric m efc) = 0"
  by (simp add: vi_insert_def vi_search_def hnsw_insert_def hnsw_search_def vi_len_def vi_new_def)

end
