(* ===== verification/Query.thy ===== *)
theory Query
  imports Property_Index Fulltext Vector_Index
begin

text \<open>
  \<^verbatim>\<open>src/src/query/\<close>: the query builder and its plans (\<^verbatim>\<open>builder.rs\<close>, \<^verbatim>\<open>plan.rs\<close>, \<^verbatim>\<open>fusion.rs\<close>) and
  the hybrid search over the three indexes (\<^verbatim>\<open>mod.rs\<close>). No code of the crate runs a plan.
\<close>

section \<open>Plans\<close>

datatype fusion_method = WeightedSum f32 f32 | ReciprocalRankFusion f32 | Convex f32

definition fusion_default :: fusion_method where
  "fusion_default = WeightedSum (f32_of_rat 1) (f32_of_rat 0)"

datatype filter_timing = Pre | Post | Adaptive

datatype direction = Out | In | Both

record traversal_clause =
  tc_etype :: rtext
  tc_direction :: direction
  tc_min_depth :: nat
  tc_max_depth :: nat
  tc_edge_predicates :: "predicate list"
  tc_node_predicates :: "predicate list"

record query_plan =
  qp_fulltext_prop :: "rtext option"
  qp_fulltext_text :: "rtext option"
  qp_vector_prop :: "rtext option"
  qp_vector_query :: "f32 list option"
  qp_vector_k :: nat
  qp_vector_ef :: nat
  qp_predicate :: "predicate option"
  qp_fusion :: fusion_method
  qp_filter_timing :: filter_timing
  qp_traversal :: "traversal_clause option"
  qp_limit :: nat

datatype plan_op =
    IndexScan rtext predicate
  | FullTextSearch rtext rtext
  | VectorSearch rtext "f32 list" nat nat
  | Filter predicate
  | FuseSort fusion_method nat
  | Expand rtext direction nat nat
  | Project "rtext list"
  | Limit nat

section \<open>The builder\<close>

record query_builder =
  qb_fulltext_text :: "rtext option"
  qb_fulltext_prop :: "rtext option"
  qb_vector_prop :: "rtext option"
  qb_vector_query :: "f32 list option"
  qb_vector_k :: nat
  qb_vector_ef :: nat
  qb_predicates :: "predicate list"
  qb_fusion :: fusion_method
  qb_filter_timing :: filter_timing
  qb_traversal :: "traversal_clause option"
  qb_limit :: nat

definition qb_new :: query_builder where
  "qb_new = \<lparr>qb_fulltext_text = None, qb_fulltext_prop = None, qb_vector_prop = None, qb_vector_query = None,
     qb_vector_k = 20, qb_vector_ef = 200, qb_predicates = [],
     qb_fusion = WeightedSum (f32_of_rat 1) (f32_of_rat 0), qb_filter_timing = Adaptive, qb_traversal = None,
     qb_limit = 20\<rparr>"

definition qb_with_fulltext :: "rtext \<Rightarrow> rtext \<Rightarrow> query_builder \<Rightarrow> query_builder" where
  "qb_with_fulltext property query self = self \<lparr>qb_fulltext_prop := Some property, qb_fulltext_text := Some query\<rparr>"

definition qb_with_vector :: "rtext \<Rightarrow> f32 list \<Rightarrow> nat \<Rightarrow> nat \<Rightarrow> query_builder \<Rightarrow> query_builder" where
  "qb_with_vector property query k ef self =
     self \<lparr>qb_vector_prop := Some property, qb_vector_query := Some query, qb_vector_k := k, qb_vector_ef := ef\<rparr>"

definition qb_filter :: "predicate \<Rightarrow> query_builder \<Rightarrow> query_builder" where
  "qb_filter p self = self \<lparr>qb_predicates := qb_predicates self @ [p]\<rparr>"

definition qb_with_fusion :: "fusion_method \<Rightarrow> query_builder \<Rightarrow> query_builder" where
  "qb_with_fusion method self = self \<lparr>qb_fusion := method\<rparr>"

definition qb_with_filter_timing :: "filter_timing \<Rightarrow> query_builder \<Rightarrow> query_builder" where
  "qb_with_filter_timing timing self = self \<lparr>qb_filter_timing := timing\<rparr>"

definition qb_with_limit :: "nat \<Rightarrow> query_builder \<Rightarrow> query_builder" where
  "qb_with_limit n self = self \<lparr>qb_limit := n\<rparr>"

text \<open>\<open>Iterator::reduce\<close>\<close>

fun reduce :: "('a \<Rightarrow> 'a \<Rightarrow> 'a) \<Rightarrow> 'a list \<Rightarrow> 'a option" where
  "reduce f [] = None"
| "reduce f (x # xs) = Some (foldl f x xs)"

definition qb_build :: "query_builder \<Rightarrow> query_plan" where
  "qb_build self =
     (let combined_pred = reduce PAnd (qb_predicates self)
      in \<lparr>qp_fulltext_prop = qb_fulltext_prop self, qp_fulltext_text = qb_fulltext_text self,
           qp_vector_prop = qb_vector_prop self, qp_vector_query = qb_vector_query self,
           qp_vector_k = qb_vector_k self, qp_vector_ef = qb_vector_ef self, qp_predicate = combined_pred,
           qp_fusion = qb_fusion self, qp_filter_timing = qb_filter_timing self, qp_traversal = qb_traversal self,
           qp_limit = qb_limit self\<rparr>)"

section \<open>Hybrid search\<close>

record query_result =
  qr_node_id :: NodeId
  qr_score :: score
  qr_path :: "NodeId list option"

record query_context =
  qc_ft_index :: "fulltext_index option"
  qc_vec_index :: "vector_index option"
  qc_prop_index :: property_index
  qc_node_count :: u64

definition selectivity :: "query_context \<Rightarrow> bitmap \<Rightarrow> f32" where
  "selectivity ctx filter_bm =
     (if qc_node_count ctx > 0
      then f32_div (f32_of_rat (of_nat (card filter_bm))) (f32_of_rat (of_nat (unat (qc_node_count ctx))))
      else 0)"

definition use_pre_filter :: "filter_timing \<Rightarrow> f32 \<Rightarrow> bool" where
  "use_pre_filter timing sel =
     (case timing of Pre \<Rightarrow> True | Post \<Rightarrow> False | Adaptive \<Rightarrow> f32_lt sel (f32_of_rat (1 / 10)))"

text \<open>The score that the pre-filter branch gives a candidate.\<close>

definition pre_score :: "query_context \<Rightarrow> rtext option \<Rightarrow> f32 list option \<Rightarrow> score \<Rightarrow> score \<Rightarrow> score" where
  "pre_score ctx fulltext_query vector_query alpha beta =
     (let s0 = 0;
          s1 = (if qc_ft_index ctx \<noteq> None \<and> fulltext_query \<noteq> None then f32_add s0 (f32_mul alpha (f32_of_rat 1)) else s0);
          s2 = (if qc_vec_index ctx \<noteq> None \<and> vector_query \<noteq> None then f32_add s1 (f32_mul beta (f32_of_rat 1)) else s1)
      in s2)"

definition pre_filter_scores ::
  "query_context \<Rightarrow> rtext option \<Rightarrow> f32 list option \<Rightarrow> score \<Rightarrow> score \<Rightarrow> bitmap \<Rightarrow> (NodeId \<times> score) list" where
  "pre_filter_scores ctx fulltext_query vector_query alpha beta filter_bm =
     foldl (\<lambda>scores id32.
         let s = pre_score ctx fulltext_query vector_query alpha beta
         in if f32_lt 0 s then AList.update (ucast id32) s scores else scores)
       [] (sorted_list_of_set filter_bm)"

definition outcome_bind :: "'a outcome \<Rightarrow> ('a \<Rightarrow> 'b outcome) \<Rightarrow> 'b outcome" where
  "outcome_bind m f = (case m of Ok x \<Rightarrow> f x | Err e \<Rightarrow> Err e | Panicked \<Rightarrow> Panicked)"

definition add_hits :: "score \<Rightarrow> (NodeId \<times> score) list \<Rightarrow> (NodeId \<times> score) list \<Rightarrow> (NodeId \<times> score) list" where
  "add_hits weight hits scores = fold (\<lambda>(i, s). entry_add (i, f32_mul weight s)) hits scores"

definition post_fulltext :: "rust_env \<Rightarrow> query_context \<Rightarrow> rtext option \<Rightarrow> score \<Rightarrow> (NodeId \<times> score) list \<Rightarrow> (NodeId \<times> score) list outcome" where
  "post_fulltext env ctx fulltext_query alpha scores =
     (case qc_ft_index ctx of
       None \<Rightarrow> Ok scores
     | Some ft \<Rightarrow>
         (case fulltext_query of
           None \<Rightarrow> Ok scores
         | Some q \<Rightarrow> outcome_bind (ft_search env ft q) (\<lambda>hits. Ok (add_hits alpha hits scores))))"

definition post_vector ::
  "query_context \<Rightarrow> f32 list option \<Rightarrow> nat option \<Rightarrow> nat option \<Rightarrow> score \<Rightarrow> (NodeId \<times> score) list \<Rightarrow> (NodeId \<times> score) list outcome" where
  "post_vector ctx vector_query vector_k vector_ef beta scores =
     (case qc_vec_index ctx of
       None \<Rightarrow> Ok scores
     | Some vi \<Rightarrow>
         (case vector_query of
           None \<Rightarrow> Ok scores
         | Some vq \<Rightarrow>
             let k = (case vector_k of None \<Rightarrow> 50 | Some k \<Rightarrow> k);
                 ef = (case vector_ef of None \<Rightarrow> 200 | Some ef \<Rightarrow> ef)
             in outcome_bind (vi_search vi vq k ef) (\<lambda>hits. Ok (add_hits beta hits scores))))"

definition post_filter_scores ::
  "rust_env \<Rightarrow> query_context \<Rightarrow> rtext option \<Rightarrow> f32 list option \<Rightarrow> nat option \<Rightarrow> nat option \<Rightarrow> score \<Rightarrow> score \<Rightarrow> bitmap \<Rightarrow>
    (NodeId \<times> score) list outcome" where
  "post_filter_scores env ctx fulltext_query vector_query vector_k vector_ef alpha beta filter_bm =
     outcome_bind (post_fulltext env ctx fulltext_query alpha []) (\<lambda>scores1.
       outcome_bind (post_vector ctx vector_query vector_k vector_ef beta scores1) (\<lambda>scores2.
         Ok (if filter_bm \<noteq> {} then filter (\<lambda>e. ucast (fst e) \<in> filter_bm) scores2 else scores2)))"

definition hybrid_search ::
  "rust_env \<Rightarrow> query_context \<Rightarrow> rtext option \<Rightarrow> f32 list option \<Rightarrow> nat option \<Rightarrow> nat option \<Rightarrow> predicate option \<Rightarrow>
    filter_timing \<Rightarrow> score \<Rightarrow> score \<Rightarrow> nat \<Rightarrow> query_result list outcome" where
  "hybrid_search env ctx fulltext_query vector_query vector_k vector_ef pred timing alpha beta limit =
     (case (case pred of None \<Rightarrow> Some {} | Some p \<Rightarrow> evaluate (qc_prop_index ctx) p) of
       None \<Rightarrow> Panicked
     | Some filter_bm \<Rightarrow>
         outcome_bind
           (if use_pre_filter timing (selectivity ctx filter_bm)
            then Ok (pre_filter_scores ctx fulltext_query vector_query alpha beta filter_bm)
            else post_filter_scores env ctx fulltext_query vector_query vector_k vector_ef alpha beta filter_bm)
           (\<lambda>scores.
             let results = map (\<lambda>(i, s). \<lparr>qr_node_id = i, qr_score = s, qr_path = None\<rparr>) (env_order env scores)
             in case rank_desc qr_score results of None \<Rightarrow> Panicked | Some rs \<Rightarrow> Ok (take limit rs)))"

section \<open>Lemmas\<close>

lemma outcome_bind_simps [simp]:
  "outcome_bind (Ok x) f = f x" "outcome_bind (Err e) f = Err e" "outcome_bind Panicked f = Panicked"
  by (simp_all add: outcome_bind_def)

lemma outcome_bind_Ok: "outcome_bind m f = Ok y \<longleftrightarrow> (\<exists>x. m = Ok x \<and> f x = Ok y)"
  by (cases m) simp_all

lemma outcome_bind_Err: "outcome_bind m f = Err e \<longleftrightarrow> m = Err e \<or> (\<exists>x. m = Ok x \<and> f x = Err e)"
  by (cases m) auto

lemma qb_filters: "qb_predicates (fold qb_filter ps b) = qb_predicates b @ ps"
  by (induction ps arbitrary: b) (simp_all add: qb_filter_def)

lemma qb_build_filters: "qp_predicate (qb_build (fold qb_filter ps qb_new)) = reduce PAnd ps"
  by (simp add: qb_build_def qb_filters) (simp add: qb_new_def)

subsection \<open>Scores of the two branches\<close>

lemma update_fresh: "k \<notin> fst ` set m \<Longrightarrow> AList.update k v m = m @ [(k, v)]"
  by (induction m) auto

lemma ucast_u64_back [simp]: "ucast (ucast (a :: u32) :: u64) = a"
  by (simp add: unsigned_ucast_eq take_bit_word_eq_self)

lemma ucast_u64_eq_iff: "(ucast (a :: u32) :: u64) = ucast b \<longleftrightarrow> a = b"
  by (metis ucast_u64_back)

lemma pre_filter_scores_eq:
  "pre_filter_scores ctx ftq vq alpha beta bm =
     (let s = pre_score ctx ftq vq alpha beta in
      if f32_lt 0 s then map (\<lambda>id32. (ucast id32, s)) (sorted_list_of_set bm) else [])"
proof -
  let ?s = "pre_score ctx ftq vq alpha beta"
  have keep: "foldl (\<lambda>m id32. m) m xs = m" for m :: "(NodeId \<times> score) list" and xs :: "u32 list"
    by (induction xs) simp_all
  have add: "foldl (\<lambda>m id32. AList.update (ucast id32) ?s m) m xs = m @ map (\<lambda>id32. (ucast id32, ?s)) xs"
    if "distinct xs" "\<forall>x\<in>set xs. ucast x \<notin> fst ` set m" for m :: "(NodeId \<times> score) list" and xs :: "u32 list"
    using that
  proof (induction xs arbitrary: m)
    case (Cons x xs)
    then have "\<forall>y\<in>set xs. ucast y \<notin> fst ` set (m @ [(ucast x, ?s)])" by (auto simp: ucast_u64_eq_iff)
    with Cons show ?case by (simp add: update_fresh)
  qed simp
  show ?thesis
    using add [of "sorted_list_of_set bm" "[]"] keep by (simp add: pre_filter_scores_def Let_def)
qed

lemma add_hits_distinct: "distinct (map fst m) \<Longrightarrow> distinct (map fst (add_hits w hits m))"
  unfolding add_hits_def by (induction hits arbitrary: m) (auto simp: entry_add_distinct)

lemma post_steps_distinct:
  "post_fulltext env ctx ftq alpha m = Ok m' \<Longrightarrow> distinct (map fst m) \<Longrightarrow> distinct (map fst m')"
  "post_vector ctx vq k ef beta m = Ok m' \<Longrightarrow> distinct (map fst m) \<Longrightarrow> distinct (map fst m')"
  by (auto simp: post_fulltext_def post_vector_def Let_def outcome_bind_Ok add_hits_distinct split: option.splits)

lemma post_filter_scores_Ok:
  assumes "post_filter_scores env ctx ftq vq k ef alpha beta bm = Ok scores"
  shows "distinct (map fst scores)" and "bm \<noteq> {} \<Longrightarrow> \<forall>e\<in>set scores. ucast (fst e) \<in> bm"
proof -
  obtain m1 m2 where m: "post_fulltext env ctx ftq alpha [] = Ok m1" "post_vector ctx vq k ef beta m1 = Ok m2"
    and scores: "scores = (if bm \<noteq> {} then filter (\<lambda>e. ucast (fst e) \<in> bm) m2 else m2)"
    using assms by (auto simp: post_filter_scores_def outcome_bind_Ok)
  have "distinct (map fst m2)" using m post_steps_distinct by (metis distinct.simps(1) list.map(1))
  then show "distinct (map fst scores)" by (simp add: scores distinct_map_filter)
  show "bm \<noteq> {} \<Longrightarrow> \<forall>e\<in>set scores. ucast (fst e) \<in> bm" by (simp add: scores)
qed

lemma pre_filter_scores_ok:
  shows "distinct (map fst (pre_filter_scores ctx ftq vq alpha beta bm))"
    and "\<forall>e\<in>set (pre_filter_scores ctx ftq vq alpha beta bm). ucast (fst e) \<in> bm"
  by (auto simp: pre_filter_scores_eq Let_def comp_def distinct_map inj_on_def ucast_u64_eq_iff split: if_splits)

lemma ft_search_not_Err: "ft_search env ft q \<noteq> Err e"
  by (auto simp: ft_search_def split: option.splits)

lemma rank_desc_constant:
  assumes "\<forall>x\<in>set xs. sc x = s" and "\<not> f32_is_nan s"
  shows "rank_desc sc xs = Some xs"
proof -
  have "sorted (map (\<lambda>x. - f32_key (sc x)) xs)" using assms(1) by (induction xs) auto
  then have "sort_key (\<lambda>x. - f32_key (sc x)) xs = xs" by (rule sort_key_id_if_sorted)
  with assms show ?thesis by (auto simp: rank_desc_def)
qed

lemma f32_of_rat_0: "f32_of_rat 0 = 0"
  by (rule f32_word_eqI) (simp_all add: f32_of_rat_def fp_round_def f32_is_neg_def [of 0] f32_mag_def [of 0])

lemma f32_div_0_pos: "1 \<le> x \<Longrightarrow> f32_div 0 (f32_of_rat x) = 0"
proof -
  assume x: "1 \<le> x"
  have "fp_round 24 149 1 = 0x3F800000" by code_simp
  with fp_round_mono [of 1 x 24 149] x have r: "0x3F800000 \<le> fp_round 24 149 \<bar>x\<bar>" by simp
  have zero: "f32_mag 0 = 0" "\<not> f32_is_neg 0" "f32_abs_val 0 = 0" "f32_mk False 0 = 0"
    by (simp_all add: f32_mag_def f32_is_neg_def f32_abs_val_def f32_mk_def)
  show ?thesis using r x zero
    by (simp add: f32_div_def f32_is_nan_def f32_is_inf_def f32_of_rat_def fp_round_def [of 24 149 0])
qed

lemma selectivity_empty: "selectivity ctx {} = 0"
proof -
  have "of_nat 1 \<le> (of_nat (unat (qc_node_count ctx)) :: rat)" if "qc_node_count ctx > 0"
    unfolding of_nat_le_iff using that by (simp add: word_less_nat_alt)
  then show ?thesis by (simp add: selectivity_def f32_of_rat_0 f32_div_0_pos)
qed

lemma adaptive_empty: "use_pre_filter Adaptive 0"
proof -
  have "f32_lt 0 (f32_of_rat (1 / 10))" by code_simp
  then show ?thesis by (simp add: use_pre_filter_def)
qed

lemma scores_ok:
  assumes "(if use_pre_filter timing (selectivity ctx bm) then Ok (pre_filter_scores ctx ftq vq alpha beta bm)
      else post_filter_scores env ctx ftq vq k ef alpha beta bm) = Ok scores"
  shows "distinct (map fst scores)" and "bm \<noteq> {} \<Longrightarrow> e \<in> set scores \<Longrightarrow> ucast (fst e) \<in> bm"
proof -
  have "scores = pre_filter_scores ctx ftq vq alpha beta bm \<or> post_filter_scores env ctx ftq vq k ef alpha beta bm = Ok scores"
    using assms by (cases "use_pre_filter timing (selectivity ctx bm)") simp_all
  then have "distinct (map fst scores) \<and> (bm \<noteq> {} \<longrightarrow> (\<forall>e\<in>set scores. ucast (fst e) \<in> bm))"
    using pre_filter_scores_ok [of ctx ftq vq alpha beta bm] post_filter_scores_Ok [of env ctx ftq vq k ef alpha beta bm scores]
    by metis
  then show "distinct (map fst scores)" "bm \<noteq> {} \<Longrightarrow> e \<in> set scores \<Longrightarrow> ucast (fst e) \<in> bm" by blast+
qed

abbreviation mk_result :: "NodeId \<times> score \<Rightarrow> query_result" where
  "mk_result \<equiv> \<lambda>(i, s). \<lparr>qr_node_id = i, qr_score = s, qr_path = None\<rparr>"

lemma mk_result_id [simp]: "qr_node_id \<circ> mk_result = fst"
  by auto

lemma results_nodes:
  assumes "rearranges ord" and "rank_desc qr_score (map mk_result (ord scores)) = Some ranking"
  shows "mset (map qr_node_id ranking) = mset (map fst scores)"
proof -
  have "mset (map qr_node_id ranking) = mset (map qr_node_id (map mk_result (ord scores)))"
    using rank_desc_mset [OF assms(2)] by (simp only: mset_map)
  also have "\<dots> = mset (map fst (ord scores))" by (simp only: list.map_comp mk_result_id)
  also have "\<dots> = mset (map fst scores)" using assms(1) by (simp only: mset_map rearranges_def)
  finally show ?thesis .
qed

lemma hybrid_search_OkE:
  assumes "hybrid_search env ctx ftq vq k ef pred timing alpha beta limit = Ok rs"
  obtains bm scores ranking where
    "(case pred of None \<Rightarrow> Some {} | Some p \<Rightarrow> evaluate (qc_prop_index ctx) p) = Some bm"
    and "(if use_pre_filter timing (selectivity ctx bm) then Ok (pre_filter_scores ctx ftq vq alpha beta bm)
      else post_filter_scores env ctx ftq vq k ef alpha beta bm) = Ok scores"
    and "rank_desc qr_score (map mk_result (env_order env scores)) = Some ranking" and "rs = take limit ranking"
proof -
  obtain bm where bm: "(case pred of None \<Rightarrow> Some {} | Some p \<Rightarrow> evaluate (qc_prop_index ctx) p) = Some bm"
    using assms unfolding hybrid_search_def
    by (cases "case pred of None \<Rightarrow> Some {} | Some p \<Rightarrow> evaluate (qc_prop_index ctx) p") simp_all
  obtain scores where scores: "(if use_pre_filter timing (selectivity ctx bm) then Ok (pre_filter_scores ctx ftq vq alpha beta bm)
      else post_filter_scores env ctx ftq vq k ef alpha beta bm) = Ok scores"
    and rest: "(case rank_desc qr_score (map mk_result (env_order env scores)) of None \<Rightarrow> Panicked | Some rs \<Rightarrow> Ok (take limit rs)) = Ok rs"
    using assms unfolding hybrid_search_def bm option.case outcome_bind_Ok Let_def by blast
  show thesis
  proof (cases "rank_desc qr_score (map mk_result (env_order env scores))")
    case None
    with rest show thesis by simp
  next
    case (Some ranking)
    with rest have "rs = take limit ranking" by simp
    from that [OF bm scores Some this] show thesis .
  qed
qed

lemma pre_results:
  fixes s :: score and bm :: bitmap
  assumes "rearranges ord"
  shows "distinct (map qr_node_id (map mk_result (ord (map (\<lambda>id32. (ucast id32, s)) (sorted_list_of_set bm)))))" (is "distinct (map _ (map _ (ord ?xs)))")
    and "qr_node_id ` set (map mk_result (ord (map (\<lambda>id32. (ucast id32, s)) (sorted_list_of_set bm)))) = ucast ` bm"
    and "length (map mk_result (ord (map (\<lambda>id32. (ucast id32, s)) (sorted_list_of_set bm)))) = card bm"
proof -
  have ids: "map qr_node_id (map mk_result ys) = map fst ys" for ys by (simp only: list.map_comp mk_result_id)
  have "distinct (map fst ?xs)" by (simp add: comp_def distinct_map inj_on_def ucast_u64_eq_iff)
  then show "distinct (map qr_node_id (map mk_result (ord ?xs)))"
    unfolding ids rearranges_distinct [OF assms] .
  show "qr_node_id ` set (map mk_result (ord ?xs)) = ucast ` bm"
    unfolding list.set_map [symmetric] ids unfolding list.set_map rearranges_set [OF assms] by (simp add: image_image)
  show "length (map mk_result (ord ?xs)) = card bm" by (simp add: rearranges_length [OF assms])
qed

lemma evaluate_filters:
  assumes "pi_indexes idx g" and "exact_data g" and "\<forall>q\<in>set (p # ps). plain q"
  shows "evaluate idx (foldl PAnd p ps) = Some {i. \<forall>q\<in>set (p # ps). satisfies g i q}"
proof -
  have ev: "evaluate idx q = Some {i. satisfies g i q}" if "q \<in> set (p # ps)" for q
    using evaluate_correct [OF assms(1,2)] assms(3) that by blast
  then have "\<not> (\<exists>q\<in>set (p # ps). evaluate idx q = None)" by (metis option.distinct(1))
  moreover have "(\<Inter>q\<in>set (p # ps). the (evaluate idx q)) = (\<Inter>q\<in>set (p # ps). {i. satisfies g i q})"
    by (intro INF_cong refl) (simp only: ev option.sel)
  moreover have "(\<Inter>q\<in>set (p # ps). {i. satisfies g i q}) = {i. \<forall>q\<in>set (p # ps). satisfies g i q}" by blast
  ultimately show ?thesis unfolding pe.eval_foldl by (simp only: if_False)
qed

lemma hybrid_pre_eq:
  assumes "rearranges (env_order env)" and "evaluate (qc_prop_index ctx) p = Some bm"
  shows "hybrid_search env ctx ftq vq k ef (Some p) Pre alpha beta limit =
    (let s = pre_score ctx ftq vq alpha beta in
     Ok (if f32_lt 0 s
         then take limit (map (\<lambda>(i, s). \<lparr>qr_node_id = i, qr_score = s, qr_path = None\<rparr>)
           (env_order env (map (\<lambda>id32. (ucast id32, s)) (sorted_list_of_set bm))))
         else []))"
proof -
  let ?s = "pre_score ctx ftq vq alpha beta"
  let ?scores = "if f32_lt 0 ?s then map (\<lambda>id32. (ucast id32, ?s)) (sorted_list_of_set bm) else []"
  let ?res = "map (\<lambda>(i, s). \<lparr>qr_node_id = i, qr_score = s, qr_path = None\<rparr>) (env_order env ?scores)"
  have const: "\<forall>r\<in>set ?res. qr_score r = ?s" using rearranges_set [OF assms(1)] by auto
  have "rank_desc qr_score ?res = Some ?res"
  proof (cases "f32_lt 0 ?s")
    case True
    then show ?thesis using const by (intro rank_desc_constant) (auto simp: f32_lt_def)
  next
    case False
    then show ?thesis using assms(1) by (simp add: rank_desc_def)
  qed
  then show ?thesis using assms
    by (auto simp: hybrid_search_def use_pre_filter_def pre_filter_scores_eq Let_def)
qed

lemma add_hits_fresh:
  "distinct (map fst hits) \<Longrightarrow> fst ` set hits \<inter> fst ` set m = {} \<Longrightarrow>
    add_hits w hits m = m @ map (\<lambda>(i, s). (i, f32_add 0 (f32_mul w s))) hits"
proof (induction hits arbitrary: m)
  case Nil
  then show ?case by (simp add: add_hits_def)
next
  case (Cons x hits)
  obtain i s where x: "x = (i, s)" by (cases x)
  have "i \<notin> fst ` set m" using Cons.prems(2) by (auto simp: x)
  then have "map_of m i = None" by (simp add: map_of_eq_None_iff)
  then have "entry_add (i, f32_mul w s) m = m @ [(i, f32_add 0 (f32_mul w s))]"
    using \<open>i \<notin> fst ` set m\<close> by (simp add: entry_add_def update_fresh)
  moreover have "fst ` set hits \<inter> fst ` set (m @ [(i, f32_add 0 (f32_mul w s))]) = {}"
    using Cons.prems by (auto simp: x)
  ultimately show ?case
    using Cons.IH [of "m @ [(i, f32_add 0 (f32_mul w s))]"] Cons.prems(1) by (simp add: x add_hits_def)
qed

section \<open>Example\<close>

definition qc_example :: query_context where
  "qc_example = \<lparr>qc_ft_index = Some (ft_new [] [] []), qc_vec_index = Some (vi_new [] 1 Cosine 16 200),
     qc_prop_index = pi_example, qc_node_count = 2\<rparr>"

abbreviation pred_example :: predicate where
  "pred_example \<equiv> PIn [0x41] [0x78] [VInt 5, VInt 7]"

lemma example_evaluate: "evaluate (qc_prop_index qc_example) pred_example = Some {1, 2}"
  by (auto simp: qc_example_def pi_example_def eval_eq_def btree_get_def)

lemma example_pre_score:
  "pre_score qc_example (Some [65]) None (f32_of_rat 1) 0 = 0x3F800000" "f32_lt 0 0x3F800000"
proof -
  show "pre_score qc_example (Some [65]) None (f32_of_rat 1) 0 = 0x3F800000"
    by (simp add: pre_score_def qc_example_def opposite_ones)
  show "f32_lt 0 0x3F800000" by code_simp
qed

lemma example_search:
  "hybrid_search small_env qc_example (Some [65]) None None None (Some pred_example) Pre (f32_of_rat 1) 0 1 =
     Ok [\<lparr>qr_node_id = 2, qr_score = 0x3F800000, qr_path = None\<rparr>]"
proof -
  have sorted: "sorted_list_of_set {1, 2 :: u32} = [1, 2]" by code_simp
  show ?thesis
    unfolding hybrid_pre_eq [OF small_env_order example_evaluate] example_pre_score(1) Let_def sorted
    by (simp add: example_pre_score(2) small_env_def)
qed

lemma example_posted: "posted small_index [[97] \<mapsto> 0, [98] \<mapsto> 1] [[97], [98]] = {1, 3}"
  by code_simp

definition qc_post_example :: query_context where
  "qc_post_example = qc_example\<lparr>qc_ft_index := Some small_index\<rparr>"

section \<open>Properties\<close>

text \<open>
  What the builder builds: the filters given to it, in any number, become one predicate that is
  evaluated to the nodes that all of them are evaluated to, and that panics if one of them does.
  Without a filter there is no predicate.
\<close>

theorem builder_conjoins_filters:
  "qp_predicate (qb_build (fold qb_filter [] qb_new)) = None \<and>
   (\<exists>pred. qp_predicate (qb_build (fold qb_filter (p # ps) qb_new)) = Some pred \<and>
     evaluate idx pred =
       (if \<exists>q\<in>set (p # ps). evaluate idx q = None then None else Some (\<Inter>q\<in>set (p # ps). the (evaluate idx q))))"
  unfolding qb_build_filters reduce.simps using pe.eval_foldl [of idx p ps] by blast

theorem builder_conjoins_filters_witness:
  "\<exists>pred. qp_predicate (qb_build (fold qb_filter [PEq [0x41] [0x78] (VInt 5), PNot pred_example] qb_new)) = Some pred \<and>
     evaluate pi_example pred = Some {}"
  using builder_conjoins_filters [of "PEq [0x41] [0x78] (VInt 5)" "[PNot pred_example]" pi_example] by simp

text \<open>
  C24. A hybrid search that returns gives at most \<open>limit\<close> results, no node twice, best scores first; and
  when the predicate holds for some node, each result is in the predicate's bitmap.
\<close>

theorem hybrid_search_contract:
  assumes "rearranges (env_order env)"
    and "hybrid_search env ctx ftq vq k ef pred timing alpha beta limit = Ok rs"
  shows "length rs \<le> limit \<and> distinct (map qr_node_id rs) \<and> ranked qr_score rs \<and>
    (\<forall>p bm. pred = Some p \<and> evaluate (qc_prop_index ctx) p = Some bm \<and> bm \<noteq> {} \<longrightarrow>
      (\<forall>r\<in>set rs. ucast (qr_node_id r) \<in> bm))"
proof -
  from assms(2) obtain bm scores ranking where
    bm: "(case pred of None \<Rightarrow> Some {} | Some p \<Rightarrow> evaluate (qc_prop_index ctx) p) = Some bm"
    and scores: "(if use_pre_filter timing (selectivity ctx bm) then Ok (pre_filter_scores ctx ftq vq alpha beta bm)
      else post_filter_scores env ctx ftq vq k ef alpha beta bm) = Ok scores"
    and ranking: "rank_desc qr_score (map mk_result (env_order env scores)) = Some ranking" and rs: "rs = take limit ranking"
    by (rule hybrid_search_OkE)
  note perm = results_nodes [OF assms(1) ranking]
  have "distinct (map qr_node_id ranking)" using mset_eq_imp_distinct_iff [OF perm] scores_ok(1) [OF scores] by simp
  then have d: "distinct (map qr_node_id rs)" unfolding rs take_map [symmetric] by (rule distinct_take)
  have filtered: "ucast (qr_node_id r) \<in> bm" if "r \<in> set rs" "bm \<noteq> {}" for r
  proof -
    have "qr_node_id r \<in> set (map qr_node_id ranking)" using that(1) unfolding rs by (auto dest: in_set_takeD)
    then obtain e where e: "e \<in> set scores" "qr_node_id r = fst e" unfolding mset_eq_setD [OF perm] by auto
    from scores_ok(2) [OF scores that(2) e(1)] show ?thesis by (simp only: e(2))
  qed
  have "b = bm" if "pred = Some p" "evaluate (qc_prop_index ctx) p = Some b" for p b using bm that by simp
  moreover have "length rs \<le> limit" "ranked qr_score rs" using ranked_take [OF rank_desc_ranked [OF ranking]] by (simp_all add: rs)
  ultimately show ?thesis using d filtered by metis
qed

theorem hybrid_search_contract_witness:
  "distinct (map qr_node_id [\<lparr>qr_node_id = 2, qr_score = 0x3F800000, qr_path = None\<rparr>]) \<and>
   (ucast (qr_node_id \<lparr>qr_node_id = 2, qr_score = 0x3F800000, qr_path = None\<rparr>) :: u32) \<in> {1, 2}"
proof -
  have "\<forall>r\<in>set [\<lparr>qr_node_id = 2, qr_score = 0x3F800000, qr_path = None\<rparr>]. ucast (qr_node_id r) \<in> {1, 2 :: u32}"
    "distinct (map qr_node_id [\<lparr>qr_node_id = 2, qr_score = 0x3F800000, qr_path = None\<rparr>])"
    using hybrid_search_contract [OF small_env_order example_search] example_evaluate by blast+
  then show ?thesis unfolding list.set by blast
qed

text \<open>
  A pre-filtered search ranks nothing: its results are the first \<open>limit\<close> nodes of the predicate's
  bitmap in the order the hash map is iterated, all with the same score, or no node at all when that
  score is not positive.
\<close>

theorem hybrid_pre_filter_exact:
  assumes "rearranges (env_order env)" and "evaluate (qc_prop_index ctx) p = Some bm"
  shows "hybrid_search env ctx ftq vq k ef (Some p) Pre alpha beta limit =
    (let s = pre_score ctx ftq vq alpha beta in
     Ok (if f32_lt 0 s
         then take limit (map (\<lambda>(i, s). \<lparr>qr_node_id = i, qr_score = s, qr_path = None\<rparr>)
           (env_order env (map (\<lambda>id32. (ucast id32, s)) (sorted_list_of_set bm))))
         else []))"
  by (rule hybrid_pre_eq [OF assms])

theorem hybrid_pre_filter_exact_witness:
  "hybrid_search small_env qc_example (Some [65]) None None None (Some pred_example) Pre (f32_of_rat 1) 0 5 =
     Ok [\<lparr>qr_node_id = 2, qr_score = 0x3F800000, qr_path = None\<rparr>, \<lparr>qr_node_id = 1, qr_score = 0x3F800000, qr_path = None\<rparr>]"
proof -
  have sorted: "sorted_list_of_set {1, 2 :: u32} = [1, 2]" by code_simp
  show ?thesis
    unfolding hybrid_pre_filter_exact [OF small_env_order example_evaluate] example_pre_score(1) Let_def sorted
    by (simp add: example_pre_score(2) small_env_def)
qed

text \<open>
  C12. From the builder to the results: a search that filters first, with the filters of a builder, over an index of the
  data \<open>g\<close>. The results are nodes that satisfy all filters, each once and with the weight of the search as its
  score; if the weight is positive there are as many of them as satisfy the filters, up to the limit, so all of them if
  the limit leaves room, and if it is not, none. The filters are built from equality, membership,
  inclusive bounds, conjunction and disjunction (\<open>plain\<close>: no strict bounds and no negation), compare with values that
  are not lists or vectors and with bounds that are numbers, and integers, also those of the data, are up to \<open>2 ^ 53\<close> in
  absolute value and floats finite. What an index of the data holds (\<open>pi_indexes\<close>) is a contract for the caller.
\<close>

theorem hybrid_finds_filtered:
  assumes "rearranges (env_order env)" and "pi_indexes (qc_prop_index ctx) g" and "exact_data g"
    and "\<forall>q\<in>set (p # ps). plain q" and "sat = {i. \<forall>q\<in>set (p # ps). satisfies g i q}"
    and "weight = pre_score ctx ftq vq alpha beta"
  shows "\<exists>rs. hybrid_search env ctx ftq vq k ef (qp_predicate (qb_build (fold qb_filter (p # ps) qb_new))) Pre alpha beta limit = Ok rs \<and>
    distinct (map qr_node_id rs) \<and> qr_node_id ` set rs \<subseteq> ucast ` sat \<and> (\<forall>r\<in>set rs. qr_score r = weight) \<and>
    length rs = (if f32_lt 0 weight then min limit (card sat) else 0) \<and>
    (f32_lt 0 weight \<and> card sat \<le> limit \<longrightarrow> qr_node_id ` set rs = ucast ` sat)"
proof -
  define ys where "ys = map mk_result (env_order env (map (\<lambda>id32. (ucast id32, weight)) (sorted_list_of_set sat)))"
  have eval: "evaluate (qc_prop_index ctx) (foldl PAnd p ps) = Some sat"
    unfolding assms(5) by (rule evaluate_filters [OF assms(2-4)])
  have search: "hybrid_search env ctx ftq vq k ef (Some (foldl PAnd p ps)) Pre alpha beta limit =
      Ok (if f32_lt 0 weight then take limit ys else [])"
    unfolding hybrid_pre_eq [OF assms(1) eval] Let_def assms(6) [symmetric] ys_def ..
  have "set (env_order env (map (\<lambda>id32. (ucast id32, weight)) (sorted_list_of_set sat))) =
      (\<lambda>id32. (ucast id32, weight)) ` sat"
    unfolding rearranges_set [OF assms(1)] by simp
  then have score: "\<forall>r\<in>set ys. qr_score r = weight" by (auto simp: ys_def)
  note ys = pre_results [OF assms(1), of weight sat, folded ys_def]
  define rs where "rs = (if f32_lt 0 weight then take limit ys else [])"
  have "distinct (map qr_node_id rs)" using ys(1) by (simp add: rs_def flip: take_map)
  moreover have "qr_node_id ` set rs \<subseteq> ucast ` sat" unfolding ys(2) [symmetric] by (auto simp: rs_def dest: in_set_takeD)
  moreover have "\<forall>r\<in>set rs. qr_score r = weight" using score by (auto simp: rs_def dest: in_set_takeD)
  moreover have "length rs = (if f32_lt 0 weight then min limit (card sat) else 0)" by (simp add: rs_def ys(3) min.commute)
  moreover have "f32_lt 0 weight \<and> card sat \<le> limit \<longrightarrow> qr_node_id ` set rs = ucast ` sat"
    using ys(2,3) by (simp add: rs_def)
  ultimately show ?thesis
    using search unfolding qb_build_filters reduce.simps rs_def [symmetric] by blast
qed

theorem hybrid_finds_filtered_witness:
  "\<exists>rs. hybrid_search small_env qc_example (Some [65]) None None None
      (qp_predicate (qb_build (fold qb_filter [pred_example, PEq [0x41] [0x78] (VInt 7)] qb_new))) Pre (f32_of_rat 1) 0 20 = Ok rs \<and>
    distinct (map qr_node_id rs) \<and> qr_node_id ` set rs = {2}"
proof -
  have sat: "{i. \<forall>q\<in>set [pred_example, PEq [0x41] [0x78] (VInt 7)]. satisfies pi_example_data i q} = {2}"
    by (auto simp: pi_example_data_def val_at_def split: if_splits)
  have "pi_indexes (qc_prop_index qc_example) pi_example_data" using pi_example_indexes by (simp add: qc_example_def)
  moreover have "\<forall>q\<in>set [pred_example, PEq [0x41] [0x78] (VInt 7)]. plain q" by (simp add: indexable_def)
  moreover have "f32_lt 0 (pre_score qc_example (Some [65]) None (f32_of_rat 1) 0)" by (simp add: example_pre_score)
  ultimately show ?thesis
    using hybrid_finds_filtered [OF small_env_order _ pi_example_exact _ sat [symmetric] refl, where ctx = qc_example
        and ftq = "Some [65]" and vq = None and alpha = "f32_of_rat 1" and beta = 0 and k = None and ef = None and limit = 20]
    by fastforce
qed

text \<open>Ranking results: all of them, each once, best first; it fails only on a score that is not a number.\<close>

lemma rank_results:
  assumes "rearranges ord" and "distinct (map fst xs)"
  shows "case rank_desc qr_score (map mk_result (ord xs)) of
      None \<Rightarrow> \<exists>e\<in>set xs. f32_is_nan (snd e)
    | Some ys \<Rightarrow> distinct (map qr_node_id ys) \<and> ranked qr_score ys \<and> (\<lambda>r. (qr_node_id r, qr_score r)) ` set ys = set xs"
proof (cases "rank_desc qr_score (map mk_result (ord xs))")
  case None
  then have "\<exists>r\<in>set (map mk_result (ord xs)). f32_is_nan (qr_score r)" by (auto simp: rank_desc_None_iff)
  then obtain e where "e \<in> set (ord xs)" "f32_is_nan (qr_score (mk_result e))" by auto
  then have "e \<in> set xs" "f32_is_nan (snd e)" unfolding rearranges_set [OF assms(1)] by (simp_all add: case_prod_unfold)
  with None show ?thesis by auto
next
  case (Some ys)
  have "set ys = mk_result ` set xs"
    using mset_eq_setD [OF rank_desc_mset [OF Some]] by (simp add: rearranges_set [OF assms(1)])
  then have "(\<lambda>r. (qr_node_id r, qr_score r)) ` set ys = set xs" by (simp add: image_image case_prod_unfold)
  moreover have "distinct (map qr_node_id ys)"
    using mset_eq_imp_distinct_iff [OF results_nodes [OF assms(1) Some]] assms(2) by simp
  ultimately show ?thesis using Some rank_desc_ranked [OF Some] by simp
qed

text \<open>
  C15. Full-text search under a filter, from the two indexes to the results: a search that filters last, without a vector
  query, over an index of the data and a full-text index whose dictionary belongs to its postings. The nodes found are
  those posted under a term of the query that satisfy the predicate, or all those posted if no node at all satisfies
  it (an empty filter is ignored). Each carries its BM25 sum times the weight; the results are the first ones, up
  to the limit, of their ranking from the best down, and the search panics only when one of the scores is not a
  number. The predicate is \<open>plain\<close> (no strict bounds and no negation, values that are not
  lists or vectors, bounds that are numbers), integers are up to \<open>2 ^ 53\<close> in absolute value and floats finite, and the
  property index holds the data (\<open>pi_indexes\<close>, a contract for the caller).
\<close>

theorem hybrid_post_exact:
  assumes "ft_wf ft" and "ft_fst ft = Some dict" and "qc_ft_index ctx = Some ft" and "rearranges (env_order env)"
    and "length query < 2 ^ 31" and "map tk_term (tokenize_loop (env_unicode env) 0 query) = ts"
    and "pi_indexes (qc_prop_index ctx) g" and "exact_data g" and "plain p"
    and "score = (\<lambda>i. f32_add 0 (f32_mul alpha (total_score (query_hits (env_ln env) ft dict ts) i)))"
    and "found = {i \<in> posted ft dict ts. satisfies g (ucast i) p \<or> (\<forall>n. \<not> satisfies g n p)}"
  shows "case hybrid_search env ctx (Some query) None k ef (Some p) Post alpha beta limit of
      Ok rs \<Rightarrow> (\<exists>ys. rs = take limit ys \<and> distinct (map qr_node_id ys) \<and> ranked qr_score ys \<and>
        (\<lambda>r. (qr_node_id r, qr_score r)) ` set ys = (\<lambda>i. (i, score i)) ` found)
    | Panicked \<Rightarrow> (\<exists>i\<in>posted ft dict ts. f32_is_nan (total_score (query_hits (env_ln env) ft dict ts) i) \<or> f32_is_nan (score i))
    | Err e \<Rightarrow> False"
proof -
  let ?sc = "total_score (query_hits (env_ln env) ft dict ts)" and ?w = "\<lambda>s. f32_add 0 (f32_mul alpha s)"
  let ?keep = "\<lambda>e :: u64 \<times> f32. satisfies g (ucast (fst e)) p \<or> (\<forall>n. \<not> satisfies g n p)"
  have eval: "evaluate (qc_prop_index ctx) p = Some {i. satisfies g i p}" by (rule evaluate_correct [OF assms(7-9)])
  note ft = ft_search_result [OF assms(1,2,4,5,6)]
  show ?thesis
  proof (cases "ft_search env ft query")
    case (Ok hits)
    define xs where "xs = filter ?keep (map (\<lambda>(i, s). (i, ?w s)) hits)"
    have h: "distinct (map fst hits)" "set hits = (\<lambda>i. (i, ?sc i)) ` posted ft dict ts" using ft Ok by simp_all
    have post: "post_filter_scores env ctx (Some query) None k ef alpha beta {i. satisfies g i p} = outcome.Ok xs"
    proof -
      have "(if {i. satisfies g i p} \<noteq> {} then filter (\<lambda>e. ucast (fst e) \<in> {i. satisfies g i p}) zs else zs) = filter ?keep zs"
        for zs :: "(u64 \<times> f32) list" by (cases "\<exists>n. satisfies g n p") (auto intro!: filter_cong)
      then show ?thesis
        using add_hits_fresh [OF h(1), of "[]"] Ok assms(3)
        by (simp add: xs_def post_filter_scores_def post_fulltext_def post_vector_def split: option.splits)
    qed
    have xs: "set xs = (\<lambda>i. (i, score i)) ` found"
      by (auto simp: xs_def h(2) assms(10,11))
    have same: "map fst (map (\<lambda>(i, s). (i, ?w s)) hits) = map fst hits" by (induction hits) auto
    have "distinct (map fst (map (\<lambda>(i, s). (i, ?w s)) hits))" unfolding same by (rule h(1))
    then have "distinct (map fst xs)" unfolding xs_def by (rule distinct_map_filter)
    note ranked = rank_results [OF assms(4) this, unfolded xs]
    have search: "hybrid_search env ctx (Some query) None k ef (Some p) Post alpha beta limit =
        (case rank_desc qr_score (map mk_result (env_order env xs)) of None \<Rightarrow> Panicked | Some rs \<Rightarrow> outcome.Ok (take limit rs))"
      using eval post by (simp add: hybrid_search_def use_pre_filter_def Let_def)
    show ?thesis
      using ranked unfolding search by (auto simp: assms(11) split: option.splits)
  next
    case Panicked
    then have "hybrid_search env ctx (Some query) None k ef (Some p) Post alpha beta limit = outcome.Panicked"
      using eval assms(3) by (simp add: hybrid_search_def use_pre_filter_def post_filter_scores_def post_fulltext_def)
    with ft Panicked show ?thesis by auto
  next
    case (Err e)
    with ft show ?thesis by simp
  qed
qed

theorem hybrid_post_exact_witness:
  "case hybrid_search small_env qc_post_example (Some [65, 32, 98]) None None None (Some pred_example) Post (f32_of_rat 1) 0 5 of
      Ok rs \<Rightarrow> distinct (map qr_node_id rs) \<and> qr_node_id ` set rs = {1}
    | Panicked \<Rightarrow> (\<exists>i\<in>{1, 3}.
        f32_is_nan (total_score (query_hits (\<lambda>x. x) small_index [[97] \<mapsto> 0, [98] \<mapsto> 1] [[97], [98]]) i) \<or>
        f32_is_nan (f32_add 0 (f32_mul (f32_of_rat 1)
          (total_score (query_hits (\<lambda>x. x) small_index [[97] \<mapsto> 0, [98] \<mapsto> 1] [[97], [98]]) i))))
    | Err e \<Rightarrow> False"
proof -
  have env: "env_ln small_env = (\<lambda>x. x)" by (simp add: small_env_def)
  have ft: "ft_wf small_index" "ft_fst small_index = Some [[97] \<mapsto> 0, [98] \<mapsto> 1]" "qc_ft_index qc_post_example = Some small_index"
    "map tk_term (tokenize_loop (env_unicode small_env) 0 [65, 32, 98]) = [[97], [98]]"
    by (simp_all add: ft_wf_def small_index_def ft_new_def small_env_def small_unicode_def is_cjk_def qc_post_example_def)
  have ix: "pi_indexes (qc_prop_index qc_post_example) pi_example_data"
    using pi_example_indexes by (simp add: qc_example_def qc_post_example_def)
  have sat: "satisfies pi_example_data i pred_example \<longleftrightarrow> i = 1 \<or> i = 2" for i
    by (auto simp: pi_example_data_def val_at_def split: if_splits)
  have plain: "plain pred_example" by (simp add: indexable_def)
  have found: "{1} = {i \<in> posted small_index [[97] \<mapsto> 0, [98] \<mapsto> 1] [[97], [98]].
      satisfies pi_example_data (ucast i) pred_example \<or> (\<forall>n. \<not> satisfies pi_example_data n pred_example)}"
    unfolding example_posted sat by (auto dest: spec [of _ 1])
  have ids: "qr_node_id ` A = {1}" if "(\<lambda>r. (qr_node_id r, qr_score r)) ` A = {(1, v)}" for A v
    using arg_cong [OF that, of "image fst"] by (simp add: image_image)
  have all: "rs = take 5 ys \<and> distinct (map qr_node_id ys) \<and> set (map qr_node_id ys) = {1} \<Longrightarrow> rs = ys" for rs ys
    using distinct_card [of "map qr_node_id ys"] by auto
  note exact = hybrid_post_exact [OF ft(1,2,3) small_env_order _ ft(4) ix pi_example_exact plain refl found, where limit = 5
    and alpha = "f32_of_rat 1" and beta = 0 and k = None and ef = None, unfolded env example_posted]
  show ?thesis
  proof (cases "hybrid_search small_env qc_post_example (Some [65, 32, 98]) None None None (Some pred_example) Post (f32_of_rat 1) 0 5")
    case (Ok rs)
    with exact obtain ys v where ys: "rs = take 5 ys" "distinct (map qr_node_id ys)"
      "(\<lambda>r. (qr_node_id r, qr_score r)) ` set ys = {(1, v)}" by auto
    with ids [OF ys(3)] all [of rs ys] have "rs = ys" by simp
    with Ok ys(2) ids [OF ys(3)] show ?thesis by simp
  qed (use exact in simp_all)
qed

text \<open>
  Without a predicate a search that filters first, or that chooses by itself, finds nothing, even
  with a full-text or vector query: the missing predicate counts as one that no node satisfies.
\<close>

theorem hybrid_without_predicate:
  assumes "rearranges (env_order env)" and "timing \<noteq> Post"
  shows "hybrid_search env ctx ftq vq k ef None timing alpha beta limit = Ok []"
proof -
  have "use_pre_filter timing (selectivity ctx {})"
    using assms(2) adaptive_empty by (cases timing) (simp_all add: selectivity_empty use_pre_filter_def)
  then show ?thesis using assms(1) by (simp add: hybrid_search_def pre_filter_scores_def rank_desc_def)
qed

theorem hybrid_without_predicate_witness:
  "hybrid_search small_env qc_example (Some [65]) None None None None Adaptive (f32_of_rat 1) 0 20 = Ok []"
  by (rule hybrid_without_predicate [OF small_env_order]) simp

text \<open>
  A search that filters last ignores a predicate that no node satisfies: its results are those of the
  search without a predicate.
\<close>

theorem hybrid_post_empty_filter:
  assumes "evaluate (qc_prop_index ctx) p = Some {}"
  shows "hybrid_search env ctx ftq vq k ef (Some p) Post alpha beta limit =
    hybrid_search env ctx ftq vq k ef None Post alpha beta limit"
  using assms by (simp add: hybrid_search_def)

theorem hybrid_post_empty_filter_witness:
  "hybrid_search small_env qc_example (Some [65]) None None None (Some (PEq [0x41] [0x78] (VInt 9))) Post (f32_of_rat 1) 0 20 =
   hybrid_search small_env qc_example (Some [65]) None None None None Post (f32_of_rat 1) 0 20"
  by (rule hybrid_post_empty_filter) (simp add: qc_example_def pi_example_def eval_eq_def btree_get_def)

text \<open>A search that filters last panics whenever there is a vector index and a vector to search for.\<close>

theorem hybrid_post_vector_panics:
  assumes "qc_vec_index ctx = Some vi"
  shows "hybrid_search env ctx ftq (Some v) k ef pred Post alpha beta limit = Panicked"
proof -
  have vec: "post_vector ctx (Some v) k ef beta m = Panicked" for m
    using assms by (simp add: post_vector_def vi_search_def hnsw_search_def Let_def)
  have noerr: "post_fulltext env ctx ftq alpha [] \<noteq> Err e" for e
    using ft_search_not_Err by (auto simp: post_fulltext_def outcome_bind_Err split: option.splits)
  have "post_filter_scores env ctx ftq (Some v) k ef alpha beta bm = Panicked" for bm
    by (cases "post_fulltext env ctx ftq alpha []") (simp_all add: post_filter_scores_def vec noerr)
  then show ?thesis by (simp add: hybrid_search_def use_pre_filter_def split: option.split)
qed

theorem hybrid_post_vector_panics_witness:
  "hybrid_search small_env qc_example None (Some [0x3F800000]) None None None Post 0 (f32_of_rat 1) 20 = Panicked"
  by (rule hybrid_post_vector_panics) (simp add: qc_example_def)

end
