(* ===== verification/Distributed.thy ===== *)
theory Distributed
  imports Query
begin

text \<open>
  \<^verbatim>\<open>src/src/distributed/\<close>: the declarations of the cluster layer. What is written of it are the data
  and the constructors; a node is never the leader, and locating a key and running a plan panic.
\<close>

record node_config =
  nc_node_id :: u64
  nc_raft_addr :: rtext
  nc_grpc_addr :: rtext
  nc_data_dir :: rtext
  nc_peers :: "u64 list"

record shard_info =
  si_shard_id :: u64
  si_owner :: u64
  si_range_start :: u64
  si_range_end :: u64

record distributed_result =
  dr_results :: "query_result list"
  dr_shards_contacted :: nat
  dr_shards_responded :: nat
  dr_merge_time_ms :: f64

record raft_node =
  rn_node_id :: u64

definition rn_new :: "u64 \<Rightarrow> node_config \<Rightarrow> raft_node" where
  "rn_new i config = \<lparr>rn_node_id = i\<rparr>"

definition rn_is_leader :: "raft_node \<Rightarrow> bool" where
  "rn_is_leader rn = False"

record hash_ring =
  hr_virtual_nodes :: nat

definition hr_new :: "nat \<Rightarrow> hash_ring" where
  "hr_new virtual_nodes = \<lparr>hr_virtual_nodes = virtual_nodes\<rparr>"

definition hr_locate :: "hash_ring \<Rightarrow> NodeId \<Rightarrow> u64 outcome" where
  "hr_locate hr i = Panicked"

datatype shard_router = ShardRouter

definition sr_new :: shard_router where
  "sr_new = ShardRouter"

definition sr_execute :: "shard_router \<Rightarrow> query_plan \<Rightarrow> distributed_result outcome" where
  "sr_execute sr plan = Panicked"

end
