(* ===== verification/Spec2Isabelle.thy ===== *)
theory Spec2Isabelle
  imports Store_Log Adjacency Prop_Race Store_Race Recovered_Ids Crash_Commit Wal_Records Snapshot Distributed
begin

text \<open>
  \<^bold>\<open>LightGraph: storage, transactions, indexes and queries.\<close> LightGraph (\<^verbatim>\<open>src/\<close>, Rust) is an embedded graph
  database. Nodes, edges and property columns live in concurrent hash maps in memory; every
  mutation is also sent over a bounded channel to a background thread per store, which appends it
  to a log file and syncs the file in batches. Opening a store replays its log. Write transactions
  take a ticket, buffer their writes, and on commit wait for their turn, publish the ticket, apply
  the writes to the three stores and flush the stores' logs. Readers see the versions whose creation
  and deletion tickets enclose their snapshot. Beside the stores there are snapshot files with a
  manifest, a log of transaction records, and the search side: property, full-text and vector
  indexes, which a hybrid search combines. The crate does not connect the search side or the
  snapshots to the stores; callers do.

  \<^bold>\<open>The theories and what they model.\<close>

  \<^item> \<open>LG_Prelude\<close>: the machine types (\<open>u8\<close>, \<open>u32\<close>, \<open>u64\<close> as words), the identifier types and sentinels
    of \<^verbatim>\<open>src/src/lib.rs\<close>, results (\<open>outcome\<close>: a value, an I/O error, or a panic), serialisation
    (\<open>codec\<close>, standing for bincode, which is a parameter everywhere), little-endian integers, and the
    lemma collections.
  \<^item> \<open>Framing\<close>: the locale \<open>record_log\<close>: what a framed record format has to
    satisfy for a replay loop to read back what was written, also after the file has been cut off.
    Both log formats of the program interpret it.
  \<^item> \<open>Consistency\<close>: \<^verbatim>\<open>storage/consistency.rs\<close>, the durability levels and presets.
  \<^item> \<open>Disk\<close>: a file with a durable and a volatile part, device capacity, and Rust's \<open>BufWriter\<close>.
  \<^item> \<open>Wal_Thread\<close>: \<^verbatim>\<open>storage/wal_thread.rs\<close>. Record encoding, replay, spawning with its panic, one
    iteration of \<open>wal_loop\<close> as a function on the state (\<open>wal_sys\<close>: file, buffer, channel, flags), the
    calls of the handle, and the interleavings of business threads with the WAL thread as an
    inductive step relation. Ghost fields record what was sent and which flushes were answered.
  \<^item> \<open>Storage_Types\<close>: \<^verbatim>\<open>storage/mod.rs\<close>, nodes and edges and their version intervals (locale \<open>versioned\<close>).
  \<^item> \<open>Logged_Store\<close>: the contract between a store and its log (locale \<open>recoverable_store\<close>: each operation
    changes the map exactly as the records it sends would when replayed) with the recovery and crash
    theorems proved once; its extension for stores that hand out mutable references to entries (locale
    \<open>keyed_store\<close>, for \<open>get_mut\<close>, whose writes are not logged); and the contract of identifier allocators (locale \<open>id_allocator\<close>).
  \<^item> \<open>Node_Store\<close>, \<open>Edge_Store\<close>, \<open>Prop_Store\<close>: \<^verbatim>\<open>storage/node_store.rs\<close>, \<^verbatim>\<open>edge_store.rs\<close>, \<^verbatim>\<open>prop_store.rs\<close>,
    each a record with one function per method, each interpreting \<open>recoverable_store\<close>, the first two
    \<open>keyed_store\<close>; \<open>ns_use\<close> and \<open>es_use\<close> are any call of a client, \<open>get_mut\<close> included. The adjacency
    chains of \<open>Edge_Store\<close> are walked by partial functions, for both directions one locale \<open>chain_dir\<close>.
  \<^item> \<open>Prop_Race\<close>: overlapping writers of property cells. \<open>insert_prop\<close> is split into its memory half and its
    log half (\<open>pw_put\<close>, \<open>pw_send\<close>), and \<open>pr_step\<close> interleaves those of any number of threads.
  \<^item> \<open>Store_Race\<close>: overlapping calls on the node and the edge store. A call is a list of accesses, each atomic
    (\<open>sh_act\<close>: pop the free list, fetch the counter, write the map, send to the log, and so on), and \<open>sh_step\<close>
    interleaves those of any number of threads on the state the two stores have in common
    (\<open>shared_store\<close>). The lemmas \<open>ns_exec_run\<close> and \<open>es_exec_run\<close> check this second translation against the operations
    of \<open>Node_Store\<close> and \<open>Edge_Store\<close>: without interruption the accesses have their effect. The
    locale \<open>overlapping_store\<close> extends \<open>recoverable_store\<close> and is interpreted for both.
  \<^item> \<open>Recovered_Ids\<close>: the free list and the counter of the node store after \<open>open\<close>, read off the log.
  \<^item> \<open>Adjacency\<close>: the chains of a whole graph. \<open>adj_exec\<close> is the protocol the tests of the edge store follow,
    with the heads in the caller's variables; \<open>graph_exec\<close> is the abstract graph, a list of edges, and
    \<open>adj_rep\<close> relates the two.
  \<^item> \<open>Store_Log\<close>: \<^verbatim>\<open>storage/store_log.rs\<close>, the synchronous batched log.
  \<^item> \<open>Tx_Manager\<close>: \<^verbatim>\<open>transaction/tx_manager.rs\<close>. The calls as sequential functions, and all interleavings
    of any number of threads, with the load and the store of a commit as separate steps.
  \<^item> \<open>Transaction\<close>: \<^verbatim>\<open>transaction/mod.rs\<close>, transactions and the database handle over the stores.
  \<^item> \<open>Concurrent_Commit\<close>: \<^verbatim>\<open>transaction/mod.rs\<close> again, with any number of threads: a commit is the list of the
    store calls it makes (\<open>commit_ops\<close>), one step each, and \<open>conc_step\<close> interleaves buffering, publishing,
    applying and rolling back. The lemma \<open>conc_commit_steps\<close> checks it against \<open>tr_commit\<close>, which is one of its runs.
  \<^item> \<open>Crash_Commit\<close>: power loss between those steps, with the WAL threads of the three stores.
  \<^item> \<open>Wal_Records\<close>: \<^verbatim>\<open>wal/mod.rs\<close>, the transaction record log, a third interpretation of \<open>record_log\<close>.
  \<^item> \<open>Snapshot\<close>: \<^verbatim>\<open>snapshot/mod.rs\<close>, snapshot files, the manifest and the manager over a directory of files
    with durable and volatile contents.
  \<^item> \<open>Floats\<close>: what the index and query modules use of \<open>f32\<close> and \<open>f64\<close>: IEEE formats on their bits, with
    rounding to nearest even computed on rationals.
  \<^item> \<open>Property_Index\<close>: \<^verbatim>\<open>index/property/mod.rs\<close>, predicates and their evaluation, with the meaning of
    predicates on the data (\<open>satisfies\<close>: equality of values, comparison of numbers as rationals) as reference, which
    uses none of the code's conversions; locale \<open>conjunctive\<close> is what the query builder relies on.
  \<^item> \<open>Analyzer\<close>: \<^verbatim>\<open>index/fulltext/analyzer.rs\<close>, the tokenizer.
  \<^item> \<open>Scores\<close>: hash maps of scores and the descending sort with its panic, shared by the next theories.
  \<^item> \<open>Fulltext\<close>: \<^verbatim>\<open>index/fulltext/mod.rs\<close> and \<^verbatim>\<open>scorer.rs\<close>, search and BM25.
  \<^item> \<open>Vector_Index\<close>: \<^verbatim>\<open>index/vector/\<close>, the measures and the index, whose search structure panics.
  \<^item> \<open>Query\<close>: \<^verbatim>\<open>query/\<close>, builder, plans and \<open>hybrid_search\<close> over the three indexes.
  \<^item> \<open>Distributed\<close>: \<^verbatim>\<open>distributed/\<close>, data and stubs of the cluster layer.

  \<^bold>\<open>What is shown.\<close> The log holds what was sent in the order it was sent, an answered flush means
  the bytes are durable, a flush is answered after finitely many iterations, and a crash loses at
  most a tail of what was sent after the last answered flush. Each store, after any operations and
  a flush, is rebuilt exactly by opening its log, except for entries that were passed to \<open>get_mut\<close>; so is the database
  after a commit. For nodes, edges and
  property cells this also holds when calls overlap access by access, as long as no two of them are on one key; a
  crash in the middle of such calls leaves an initial run of the records. However calls overlap on a store
  whose identifiers are sound, no identifier has two owners and the count of free ones is off by the updates under way only. After
  recovery the identifiers are sound exactly when the log re-inserts none. Tickets are
  published in order in every interleaving and the protocol cannot get stuck. A commit is visible
  as a whole to later readers and invisible to older ones. Under every interleaving of threads, from
  a database whose identifiers are sound and whose tickets are published (one in memory, in general not a reopened one), the
  stores stay well formed, no identifier is given out twice, nothing unpublished is stored, and what a settled
  snapshot sees does not change as long as no labels are updated and nothing is deleted twice. The adjacency
  chains implement a graph: every walk ends and returns each edge of its node once, latest first. After any
  history of snapshots, merges and restarts the last snapshot is recovered. Plain predicates evaluate to the nodes that satisfy them, full-text search returns the posted nodes with
  their summed scores in order, and a pre-filtered hybrid search with the filters of a builder finds
  nodes that satisfy all of them, and all such nodes up to the limit; one that filters last finds the posted nodes that
  satisfy the predicate, best first. Other theorems state, under exact conditions, where
  the code falls short of its comments: torn records make a log unreadable, dropping a handle discards queued commands, a
  reopened database hides what was committed, label updates hide nodes from older readers, the
  ticket is published before the writes are applied, writes of later tickets can be applied first and be
  overwritten, a crash can keep the nodes of a transaction without its edges, deleting a node twice brings it
  back for some readers, deleting a linked edge cuts its chain, overlapping writes of one cell can reach the log
  in the other order, the deletion of a node whose insertion is under way is undone by a restart, strict bounds include the bound, merged logs are never replayed, a query without a predicate finds nothing, and others.

  \<^bold>\<open>Assumptions and bounds.\<close> Lengths of Rust vectors are naturals; identifiers, tickets, rows and
  length fields keep their width. Recovery assumes that bincode reads back what it wrote
  (\<open>codec_ok\<close>), payloads below \<open>2 ^ 32 - 9\<close> bytes (\<open>wal_fits\<close>), no stored identifier \<open>u64::MAX\<close>
  (\<open>no_max_id\<close>, whose successor wraps), property names below 256 bytes (\<open>prop_name_ok\<close>) and no row \<open>u32::MAX\<close>
  (\<open>ps_rows_ok\<close>). \<open>wal_flush\<close> is the caller's request followed by as many iterations of the thread as the channel has
  commands; that a sender waits while the channel is full changes the time of a call only and is not modelled. There is no fuel: replay loops are total functions with the
  length of the input as measure, the commit loop has the distance to the spin limit as measure, and the
  loops that may run forever (chain walks, rollback) are partial functions whose value \<open>None\<close> is
  non-termination; where they do return, this is proved. Clocks are arguments; the order in which a
  hash map is iterated is an argument with \<open>ns_iter_order\<close> as its only assumption. Elsewhere than in
  \<open>Prop_Race\<close> and \<open>Store_Race\<close> each store operation is one step together with the log commands it sends; the
  code sends those of an insertion or hard deletion outside the shard lock, so for several threads this
  assumes that such calls on one key do not overlap. Those two theories justify it for calls on different keys and
  show what happens otherwise. In them single accesses of \<open>DashMap\<close>, \<open>SegQueue\<close> and the atomics are atomic and
  in one order for all threads; an update in place holds the entry's lock until its record is sent; the counter
  \<open>total_ever\<close>, which nothing reads, is left out, and linking, unlinking and the scan of a compaction do not
  overlap with other calls. On the search side the Unicode tables, the logarithm, the zero that sums of floats start from, overflow checks and the
  iteration order of hash maps (\<open>rearranges\<close>) are arguments; the \<^verbatim>\<open>fst\<close>, \<^verbatim>\<open>roaring\<close> and \<^verbatim>\<open>ordered-float\<close> crates are the maps, sets
  and order they document. Since nothing fills the property index, \<open>pi_indexes\<close> states what it should
  hold. The index keeps numbers as doubles and has no keys of their own for lists and vectors, so the theorems about
  predicates ask for integers up to \<open>2 ^ 53\<close> in absolute value and finite floats (\<open>exact_data\<close>), and for
  predicates without strict bounds, negation, lists and vectors (\<open>plain\<close>); other theorems show what
  strict bounds and undefined or infinite bounds do.

  \<^bold>\<open>Not modelled\<close>: memory reservation, file permissions, the text of I/O errors; the payload of a
  not-a-number; the Python package, benchmarks and tests. In the interleavings of \<open>Concurrent_Commit\<close> the
  WAL threads do not appear, since no read depends on them. Weak memory orderings are not modelled: the code's relaxed accesses
  are to counters that no control flow depends on. \<^bold>\<open>Not shown\<close>: error bounds of the BM25 score, and overlapping
  walks and changes of one adjacency chain, whose heads are in the caller's hands.
\<close>

end
